(* ===== verification/Masqr_Prelude.thy ===== *)
theory Masqr_Prelude
  imports Main "HOL-Library.Word"
begin

text \<open>
  What every component of the development shares: the machine types of the Rust source, the
  three-way outcome of a fallible Rust function (a value, an error value, or a panic), the slice
  operations that panic out of range, big-endian byte codecs, and the contract of an incremental
  decoder, which the capsule stream and the HTTP/3 frame reader both satisfy.
\<close>

unbundle bit_operations_syntax

section \<open>Machine types\<close>

type_synonym u8 = "8 word"
type_synonym u16 = "16 word"
type_synonym u32 = "32 word"
type_synonym u64 = "64 word"
type_synonym u128 = "128 word"

text \<open>\<open>Vec<u8>\<close>, \<open>&[u8]\<close>, \<open>Bytes\<close> and \<open>BytesMut\<close> are lists of bytes; \<open>usize\<close> is
  \<^typ>\<open>nat\<close> (a buffer index, far from the 64-bit boundary).\<close>

type_synonym bytes = "u8 list"

text \<open>\<open>Duration\<close> and \<open>Instant\<close> are nanoseconds on one clock; \<open>saturating_duration_since\<close> is
  subtraction of naturals.\<close>

type_synonym duration = nat
type_synonym instant = nat

definition from_secs :: "nat \<Rightarrow> duration" where
  "from_secs n = n * 1000000000"

definition from_millis :: "nat \<Rightarrow> duration" where
  "from_millis n = n * 1000000"

named_theorems out_simps \<open>unfolding of outcome operations\<close>

section \<open>Outcomes\<close>

text \<open>\<open>Panic\<close> is an abort of the Rust program: a slice or index out of range. A property that
  excludes it says that the indexing of the source is always in range.\<close>

datatype ('e, 'a) outcome = Ok 'a | Err 'e | Panic

fun and_then :: "('e, 'a) outcome \<Rightarrow> ('a \<Rightarrow> ('e, 'b) outcome) \<Rightarrow> ('e, 'b) outcome" where
  "and_then (Ok x) f = f x"
| "and_then (Err e) f = Err e"
| "and_then Panic f = Panic"

text \<open>\<open>ok_or(e)\<close>.\<close>

fun ok_or :: "'a option \<Rightarrow> 'e \<Rightarrow> ('e, 'a) outcome" where
  "ok_or (Some x) e = Ok x"
| "ok_or None e = Err e"

text \<open>The conversion \<open>?\<close> applies to an error on its way out.\<close>

fun map_err :: "('e \<Rightarrow> 'f) \<Rightarrow> ('e, 'a) outcome \<Rightarrow> ('f, 'a) outcome" where
  "map_err f (Ok x) = Ok x"
| "map_err f (Err e) = Err (f e)"
| "map_err f Panic = Panic"

text \<open>A function without errors (its error type is \<open>unit\<close>, and it returns none) called in one that has
  them.\<close>

fun infallible :: "(unit, 'a) outcome \<Rightarrow> ('e, 'a) outcome" where
  "infallible (Ok x) = Ok x"
| "infallible _ = Panic"

lemma map_err_simps [simp]:
  "map_err f m = Ok y \<longleftrightarrow> m = Ok y" "map_err f m = Panic \<longleftrightarrow> m = Panic"
  "map_err f m = Err e \<longleftrightarrow> (\<exists>e'. m = Err e' \<and> e = f e')"
  by (cases m; auto)+

lemma and_then_eq_Ok:
  "and_then m f = Ok y \<longleftrightarrow> (\<exists>x. m = Ok x \<and> f x = Ok y)"
  by (cases m) auto

lemma and_then_eq_Panic:
  "and_then m f = Panic \<longleftrightarrow> m = Panic \<or> (\<exists>x. m = Ok x \<and> f x = Panic)"
  by (cases m) auto

lemma and_then_assoc:
  "and_then (and_then m f) g = and_then m (\<lambda>x. and_then (f x) g)"
  by (cases m) auto

lemma and_then_cong [fundef_cong]:
  "m = m' \<Longrightarrow> (\<And>x. m' = Ok x \<Longrightarrow> f x = f' x) \<Longrightarrow> and_then m f = and_then m' f'"
  by (cases m') auto

lemma ok_or_eq_Ok [simp]: "ok_or x e = Ok y \<longleftrightarrow> x = Some y"
  by (cases x) auto

lemma ok_or_not_Panic [simp]: "ok_or x e \<noteq> Panic"
  by (cases x) auto

text \<open>What holds of the value a function returns, if it returns one, and that it returns one of which it
  holds. Sequencing passes both through.\<close>

definition on_ok :: "('e, 'a) outcome \<Rightarrow> ('a \<Rightarrow> bool) \<Rightarrow> bool" where
  "on_ok m Q \<longleftrightarrow> (\<forall>x. m = Ok x \<longrightarrow> Q x)"

definition yields :: "('e, 'a) outcome \<Rightarrow> ('a \<Rightarrow> bool) \<Rightarrow> bool" where
  "yields m Q \<longleftrightarrow> (\<exists>x. m = Ok x \<and> Q x)"

lemma on_ok_simps [simp]:
  "on_ok (Ok x) Q \<longleftrightarrow> Q x" "on_ok (Err e) Q" "on_ok Panic Q"
  by (simp_all add: on_ok_def)

lemma yields_simps [simp]:
  "yields (Ok x) Q \<longleftrightarrow> Q x" "\<not> yields (Err e) Q" "\<not> yields Panic Q"
  by (simp_all add: yields_def)

lemma on_ok_and_then: "on_ok (and_then m f) Q \<longleftrightarrow> (\<forall>x. m = Ok x \<longrightarrow> on_ok (f x) Q)"
  by (cases m) auto

lemma yields_and_then: "yields (and_then m f) Q \<longleftrightarrow> yields m (\<lambda>x. yields (f x) Q)"
  by (cases m) auto

lemma yields_mono: "yields m P \<Longrightarrow> (\<And>x. P x \<Longrightarrow> Q x) \<Longrightarrow> yields m Q"
  by (auto simp: yields_def)

lemma on_ok_mono: "on_ok m P \<Longrightarrow> (\<And>x. P x \<Longrightarrow> Q x) \<Longrightarrow> on_ok m Q"
  by (simp add: on_ok_def)

lemma on_okD: "on_ok m Q \<Longrightarrow> m = Ok x \<Longrightarrow> Q x"
  by (simp add: on_ok_def)

lemma yieldsD: "yields m Q \<Longrightarrow> m = Ok x \<Longrightarrow> Q x"
  by (auto simp: yields_def)

lemma yieldsE: assumes "yields m Q" obtains x where "m = Ok x" "Q x"
  using assms by (auto simp: yields_def)

lemma yields_pairE:
  assumes "yields m (\<lambda>(a, b). Q a b)" obtains a b where "m = Ok (a, b)" "Q a b"
  using assms by (auto simp: yields_def)

section \<open>Slices\<close>

text \<open>\<open>&s[n..]\<close>, \<open>advance(n)\<close>: a panic past the end.\<close>

definition slice_from :: "nat \<Rightarrow> 'a list \<Rightarrow> ('e, 'a list) outcome" where
  "slice_from n s = (if n \<le> length s then Ok (drop n s) else Panic)"

text \<open>\<open>&s[i..j]\<close>.\<close>

definition slice :: "nat \<Rightarrow> nat \<Rightarrow> 'a list \<Rightarrow> ('e, 'a list) outcome" where
  "slice i j s = (if i \<le> j \<and> j \<le> length s then Ok (take (j - i) (drop i s)) else Panic)"

text \<open>\<open>split_to(n)\<close>: the first \<open>n\<close> elements, and what the buffer keeps.\<close>

definition split_to :: "nat \<Rightarrow> 'a list \<Rightarrow> ('e, 'a list \<times> 'a list) outcome" where
  "split_to n s = (if n \<le> length s then Ok (take n s, drop n s) else Panic)"

text \<open>\<open>s.get(i)\<close> and \<open>s[i]\<close>.\<close>

definition at :: "'a list \<Rightarrow> nat \<Rightarrow> 'a option" where
  "at s i = (if i < length s then Some (s ! i) else None)"

definition index :: "'a list \<Rightarrow> nat \<Rightarrow> ('e, 'a) outcome" where
  "index s i = (if i < length s then Ok (s ! i) else Panic)"

lemma slice_from_Ok [out_simps]: "n \<le> length s \<Longrightarrow> slice_from n s = Ok (drop n s)"
  by (simp add: slice_from_def)

lemma slice_Ok [out_simps]:
  "i \<le> j \<Longrightarrow> j \<le> length s \<Longrightarrow> slice i j s = Ok (take (j - i) (drop i s))"
  by (simp add: slice_def)

lemma split_to_Ok [out_simps]: "n \<le> length s \<Longrightarrow> split_to n s = Ok (take n s, drop n s)"
  by (simp add: split_to_def)

lemma index_Ok [out_simps]: "i < length s \<Longrightarrow> index s i = Ok (s ! i)"
  by (simp add: index_def)

lemma index_eq_Ok: "index xs i = Ok y \<longleftrightarrow> i < length xs \<and> y = xs ! i"
  by (auto simp: index_def)

lemma at_Some [simp]: "at s i = Some x \<longleftrightarrow> i < length s \<and> s ! i = x"
  by (auto simp: at_def)

lemma at_None [simp]: "at s i = None \<longleftrightarrow> length s \<le> i"
  by (auto simp: at_def)

text \<open>\<open>iter().position(p)\<close>.\<close>

fun position :: "('a \<Rightarrow> bool) \<Rightarrow> 'a list \<Rightarrow> nat option" where
  "position p [] = None"
| "position p (x # xs) = (if p x then Some 0 else map_option Suc (position p xs))"

lemma position_Some: "position p xs = Some i \<Longrightarrow> i < length xs \<and> p (xs ! i)"
  by (induction xs arbitrary: i) (auto split: if_splits)

lemma position_None: "position p xs = None \<longleftrightarrow> (\<forall>x\<in>set xs. \<not> p x)"
  by (induction xs) auto

text \<open>\<open>checked_add\<close> on \<open>usize\<close>, 64 bits wide.\<close>

definition checked_add :: "nat \<Rightarrow> nat \<Rightarrow> nat option" where
  "checked_add a b = (if int (a + b) < 2 ^ 64 then Some (a + b) else None)"

lemma checked_add_nat: "checked_add a b = (if a + b < 2 ^ 64 then Some (a + b) else None)"
  by (simp add: checked_add_def)

text \<open>A byte string literal \<open>b\"..\"\<close>.\<close>

definition ascii :: "string \<Rightarrow> bytes" where
  "ascii s = map of_char s"

lemma length_ascii [simp]: "length (ascii s) = length s"
  by (simp add: ascii_def)

text \<open>A number as \<open>format!\<close> writes it.\<close>

fun decimal :: "nat \<Rightarrow> string" where
  "decimal n = (if n < 10 then [char_of (48 + n)] else decimal (n div 10) @ [char_of (48 + n mod 10)])"

declare decimal.simps [simp del]

section \<open>Big-endian bytes\<close>

text \<open>\<open>from_be_bytes\<close> over a run of bytes, as the accumulation \<open>(v << 8) | b\<close>, and
  \<open>to_be_bytes\<close> of the low \<open>n\<close> bytes.\<close>

definition shift_in :: "u64 \<Rightarrow> u8 \<Rightarrow> u64" where
  "shift_in v b = push_bit 8 v OR ucast b"

fun be_bytes :: "nat \<Rightarrow> 'a::len word \<Rightarrow> bytes" where
  "be_bytes 0 w = []"
| "be_bytes (Suc n) w = ucast (drop_bit (8 * n) w) # be_bytes n w"

definition be16 :: "u8 \<Rightarrow> u8 \<Rightarrow> u16" where
  "be16 a b = push_bit 8 (ucast a) OR ucast b"

definition be32 :: "u8 \<Rightarrow> u8 \<Rightarrow> u8 \<Rightarrow> u8 \<Rightarrow> u32" where
  "be32 a b c d = push_bit 24 (ucast a) OR push_bit 16 (ucast b) OR push_bit 8 (ucast c) OR ucast d"

lemma be16_be_bytes: "be16 (ucast (drop_bit 8 w)) (ucast w) = (w :: u16)"
  by (rule bit_word_eqI) (auto simp: be16_def bit_simps)

lemma length_be_bytes [simp]: "length (be_bytes n w) = n"
  by (induction n) auto

lemma foldl_shift_in_be_bytes:
  "8 * n \<le> 64 \<Longrightarrow> foldl shift_in v (be_bytes n (w :: u64)) =
     push_bit (8 * n) v OR take_bit (8 * n) w"
proof (induction n arbitrary: v)
  case 0
  then show ?case by simp
next
  case (Suc n)
  have step: "push_bit (8 * n) (shift_in v (ucast (drop_bit (8 * n) w))) OR take_bit (8 * n) w =
      push_bit (8 * Suc n) v OR take_bit (8 * Suc n) w"
  proof (rule bit_word_eqI)
    fix k assume "k < LENGTH(64)"
    then show "bit (push_bit (8 * n) (shift_in v (ucast (drop_bit (8 * n) w)))
        OR take_bit (8 * n) w) k =
      bit (push_bit (8 * Suc n) v OR take_bit (8 * Suc n) w) k"
      by (auto simp: shift_in_def bit_simps add.commute)
  qed
  show ?case using Suc step by simp
qed

text \<open>\<open>IpAddr\<close>: the octets as one number, most significant first.\<close>

datatype ip_addr = V4 u32 | V6 u128

text \<open>\<open>to_ascii_lowercase\<close>, on a byte and on a string; a string is its characters, each of which is
  one byte here.\<close>

definition lower_byte :: "u8 \<Rightarrow> u8" where
  "lower_byte b = (if 65 \<le> b \<and> b \<le> 90 then b + 32 else b)"

definition lower_char :: "char \<Rightarrow> char" where
  "lower_char c = (let n = of_char c :: nat in if 65 \<le> n \<and> n \<le> 90 then char_of (n + 32) else c)"

definition lowercase :: "string \<Rightarrow> string" where
  "lowercase s = map lower_char s"

fun is_ipv4 :: "ip_addr \<Rightarrow> bool" where
  "is_ipv4 (V4 _) = True"
| "is_ipv4 (V6 _) = False"

text \<open>The derived order of \<open>IpAddr\<close>: every IPv4 address before every IPv6 one, octets in order.\<close>

instantiation ip_addr :: linorder
begin

fun less_eq_ip_addr :: "ip_addr \<Rightarrow> ip_addr \<Rightarrow> bool" where
  "less_eq_ip_addr (V4 a) (V4 b) = (a \<le> b)"
| "less_eq_ip_addr (V4 a) (V6 b) = True"
| "less_eq_ip_addr (V6 a) (V4 b) = False"
| "less_eq_ip_addr (V6 a) (V6 b) = (a \<le> b)"

definition less_ip_addr :: "ip_addr \<Rightarrow> ip_addr \<Rightarrow> bool" where
  "less_ip_addr a b = (a \<le> b \<and> \<not> b \<le> a)"

instance
proof
  fix x y z :: ip_addr
  show "(x < y) = (x \<le> y \<and> \<not> y \<le> x)" by (simp add: less_ip_addr_def)
  show "x \<le> x" by (cases x) auto
  show "x \<le> y \<Longrightarrow> y \<le> z \<Longrightarrow> x \<le> z" by (cases x; cases y; cases z) auto
  show "x \<le> y \<Longrightarrow> y \<le> x \<Longrightarrow> x = y" by (cases x; cases y) auto
  show "x \<le> y \<or> y \<le> x" by (cases x; cases y) auto
qed

end

section \<open>Counters and choices\<close>

text \<open>\<open>a - b\<close> on unsigned numbers: the subtraction that would go below zero is a panic.\<close>

definition minus_checked :: "nat \<Rightarrow> nat \<Rightarrow> ('e, nat) outcome" where
  "minus_checked a b = (if b \<le> a then Ok (a - b) else Panic)"

lemma minus_checked_Ok [out_simps]: "b \<le> a \<Longrightarrow> minus_checked a b = Ok (a - b)"
  by (simp add: minus_checked_def)

fun the_ok :: "('e, 'a) outcome \<Rightarrow> 'a" where
  "the_ok (Ok x) = x"

lemma the_ok_eq: "\<exists>x. m = Ok x \<and> P x \<Longrightarrow> m = Ok (the_ok m) \<and> P (the_ok m)"
  by auto

text \<open>\<open>max_by\<close> keeps the last of the greatest elements, \<open>min_by\<close> the first of the least.\<close>

definition max_by :: "('a \<Rightarrow> 'a \<Rightarrow> bool) \<Rightarrow> 'a list \<Rightarrow> 'a option" where
  "max_by le xs = (case xs of [] \<Rightarrow> None | x # xs \<Rightarrow> Some (foldl (\<lambda>a b. if le a b then b else a) x xs))"

definition min_by :: "('a \<Rightarrow> 'a \<Rightarrow> bool) \<Rightarrow> 'a list \<Rightarrow> 'a option" where
  "min_by le xs = (case xs of [] \<Rightarrow> None | x # xs \<Rightarrow> Some (foldl (\<lambda>a b. if le a b then a else b) x xs))"

lemma fold_choice:
  assumes total: "\<forall>a b. le a b \<or> le b a" and trans: "\<forall>a b c. le a b \<longrightarrow> le b c \<longrightarrow> le a c"
  shows "foldl (\<lambda>a b. if le a b then b else a) x xs \<in> set (x # xs) \<and>
    (\<forall>y\<in>set (x # xs). le y (foldl (\<lambda>a b. if le a b then b else a) x xs))"
proof (induction xs arbitrary: x)
  case Nil
  then show ?case using total by auto
next
  case (Cons z zs)
  let ?m = "\<lambda>x. foldl (\<lambda>a b. if le a b then b else a) x zs"
  show ?case
  proof (cases "le x z")
    case True
    then have "le x (?m z)" using Cons[of z] trans by (meson list.set_intros(1))
    then show ?thesis using Cons[of z] True by auto
  next
    case False
    then have "le z (?m x)" using Cons[of x] total trans by (meson list.set_intros(1))
    then show ?thesis using Cons[of x] False by auto
  qed
qed

lemma max_by_Some:
  assumes "max_by le xs = Some m"
    and "\<forall>a b. le a b \<or> le b a" "\<forall>a b c. le a b \<longrightarrow> le b c \<longrightarrow> le a c"
  shows "m \<in> set xs" "\<forall>y\<in>set xs. le y m"
proof -
  obtain x rest where xs: "xs = x # rest" using assms(1) by (cases xs) (auto simp: max_by_def)
  then have "m = foldl (\<lambda>a b. if le a b then b else a) x rest" using assms(1) by (simp add: max_by_def)
  then show "m \<in> set xs" "\<forall>y\<in>set xs. le y m"
    using fold_choice[of le x rest, OF assms(2,3)] unfolding xs by blast+
qed

lemma min_by_Some:
  assumes "min_by le xs = Some m"
    and total: "\<forall>a b. le a b \<or> le b a" and trans: "\<forall>a b c. le a b \<longrightarrow> le b c \<longrightarrow> le a c"
  shows "m \<in> set xs" "\<forall>y\<in>set xs. le m y"
proof -
  obtain x rest where xs: "xs = x # rest" using assms(1) by (cases xs) (auto simp: min_by_def)
  have "foldl (\<lambda>a b. if le a b then a else b) x rest \<in> set (x # rest) \<and>
      (\<forall>y\<in>set (x # rest). le (foldl (\<lambda>a b. if le a b then a else b) x rest) y)"
  proof (induction rest arbitrary: x)
    case Nil
    then show ?case using total by auto
  next
    case (Cons z zs)
    let ?m = "\<lambda>x. foldl (\<lambda>a b. if le a b then a else b) x zs"
    show ?case
    proof (cases "le x z")
      case True
      then have "le (?m x) z" using Cons[of x] trans by (meson list.set_intros(1))
      then show ?thesis using Cons[of x] True by auto
    next
      case False
      then have "le (?m z) x" using Cons[of z] total trans by (meson list.set_intros(1))
      then show ?thesis using Cons[of z] False by auto
    qed
  qed
  moreover have "m = foldl (\<lambda>a b. if le a b then a else b) x rest"
    using assms(1) xs by (simp add: min_by_def)
  ultimately show "m \<in> set xs" "\<forall>y\<in>set xs. le m y" unfolding xs by blast+
qed

lemma max_by_None [simp]: "max_by le xs = None \<longleftrightarrow> xs = []"
  and min_by_None [simp]: "min_by le xs = None \<longleftrightarrow> xs = []"
  by (cases xs; simp add: max_by_def min_by_def)+

section \<open>Word lemmas\<close>

lemma be_bytes_ucast:
  assumes "8 * n \<le> LENGTH('a::len)" "8 * n \<le> 64"
  shows "be_bytes n (w :: 'a word) = be_bytes n (ucast w :: u64)"
  using assms
proof (induction n)
  case (Suc n)
  have "(ucast (drop_bit (8 * n) w) :: u8) = ucast (drop_bit (8 * n) (ucast w :: u64))"
    by (rule bit_word_eqI) (use Suc.prems in \<open>auto simp: bit_simps\<close>)
  with Suc show ?case by simp
qed simp

lemma take_bit_unat_less:
  fixes v :: "'a::len word"
  assumes "unat v < 2 ^ k" shows "take_bit k v = v"
  using assms by (simp add: word_unat_eq_iff unsigned_take_bit_eq take_bit_nat_eq_self)

lemma bit_unat_less:
  fixes v :: "'a::len word"
  assumes "unat v < 2 ^ k" "bit v j" shows "j < k"
  using take_bit_unat_less[OF assms(1)] assms(2) by (metis bit_take_bit_iff)

lemma unat_less_bits:
  fixes v :: "'a::len word"
  assumes "\<And>j. bit v j \<Longrightarrow> j < k" shows "unat v < 2 ^ k"
proof -
  have "take_bit k v = v" by (rule bit_word_eqI) (use assms in \<open>auto simp: bit_simps\<close>)
  then have "take_bit k (unat v) = unat v" by (metis unsigned_take_bit_eq)
  then show ?thesis by (simp add: take_bit_nat_eq_self_iff)
qed

lemma ucast_ucast_small:
  fixes v :: "'a::len word"
  assumes "unat v < 2 ^ k" "k \<le> LENGTH('b::len)"
  shows "ucast (ucast v :: 'b word) = v"
proof (rule bit_word_eqI)
  fix j assume "j < LENGTH('a)"
  have "bit v j \<Longrightarrow> j < LENGTH('b)"
    using bit_unat_less[OF assms(1), of j] assms(2) by simp
  then show "bit (ucast (ucast v :: 'b word) :: 'a word) j = bit v j"
    using \<open>j < LENGTH('a)\<close> by (auto simp: bit_simps)
qed

lemma unat_ucast_up:
  fixes w :: "'a::len word"
  assumes "LENGTH('a) \<le> LENGTH('b::len)" shows "unat (ucast w :: 'b word) = unat w"
proof -
  have "unat w < 2 ^ LENGTH('b)"
    using unsigned_less[of w, where 'a = nat] assms
    by (meson less_le_trans one_le_numeral power_increasing)
  then show ?thesis by (simp add: unsigned_ucast_eq take_bit_nat_eq_self)
qed

lemma unat_u8_less: "unat (b :: u8) < 256"
  using unsigned_less[of b, where 'a = nat] by simp

lemma unat_u16_less: "unat (w :: u16) < 65536"
  using unsigned_less[of w, where 'a = nat] by simp

end
