(* ===== verification/Checksum.thy ===== *)
theory Checksum
  imports Masqr_Prelude
begin

text \<open>
  Ones'-complement arithmetic over IP headers, \<open>src/ip.rs\<close>: the running 32-bit sum, its fold to
  sixteen bits, and the two checksums built on them; with the copy of the same fold the packet
  diagnostics carry (\<open>src/diagnose/packets.rs\<close>). Shown: the fold ends and computes the residue
  modulo 65535, writing the IPv4 checksum into a header makes the header verify, and the copy agrees
  with the original.
\<close>

section \<open>The sum and the fold\<close>

text \<open>\<open>Sum\<close> is one \<open>u32\<close>; \<open>add\<close> takes big-endian pairs and pads an odd last byte on the right.\<close>

fun sum_add :: "u32 \<Rightarrow> bytes \<Rightarrow> u32" where
  "sum_add s (a # b # rest) = sum_add (s + ucast (be16 a b)) rest"
| "sum_add s [a] = s + ucast (be16 a 0)"
| "sum_add s [] = s"

lemma fold_step_unat:
  fixes s :: u32
  shows "unat ((s AND 0xffff) + drop_bit 16 s) = unat s mod 65536 + unat s div 65536"
proof -
  have h: "unat (drop_bit 16 s) = unat s div 65536" by (simp add: drop_bit_eq_div unat_div)
  have l: "unat (s AND 0xffff) = unat s mod 65536"
    using take_bit_eq_mask[of 16 s] unsigned_take_bit_eq[of 16 s, where 'a = nat]
    by (simp add: mask_eq_exp_minus_1 take_bit_eq_mod)
  have "unat s < 2 ^ 32" using unsigned_less[of s, where 'a = nat] by simp
  then have "unat s mod 65536 + unat s div 65536 < 2 ^ 32" by arith
  then show ?thesis by (simp add: unat_word_ariths h l)
qed

lemma fold_less: "\<not> n < 65536 \<Longrightarrow> n mod 65536 + n div 65536 < (n :: nat)"
proof -
  assume "\<not> n < 65536"
  then have "1 \<le> n div 65536" by (simp add: div_greater_zero_iff Suc_le_eq)
  then show ?thesis using div_mult_mod_eq[of n 65536] by linarith
qed

lemma fold_guard: "drop_bit 16 (s :: u32) = 0 \<longleftrightarrow> unat s < 65536"
  by (simp add: word_unat_eq_iff drop_bit_eq_div unat_div div_eq_0_iff)

function fold_carries :: "u32 \<Rightarrow> u32" where
  "fold_carries s =
     (if drop_bit 16 s \<noteq> 0 then fold_carries ((s AND 0xffff) + drop_bit 16 s) else s)"
  by pat_completeness auto
termination
proof (relation "measure unat", goal_cases)
  case (2 s)
  then have "\<not> unat s < 65536" unfolding fold_guard .
  then have "unat s mod 65536 + unat s div 65536 < unat s" by (rule fold_less)
  then show ?case unfolding in_measure fold_step_unat .
qed simp

declare fold_carries.simps [simp del]

definition sum_fold :: "u32 \<Rightarrow> u16" where
  "sum_fold s = NOT (ucast (fold_carries s))"

definition checksum :: "bytes \<Rightarrow> u16" where
  "checksum b = sum_fold (sum_add 0 b)"

text \<open>The IPv4 header checksum skips word five, the field being computed, and reads whole words.\<close>

fun header_sum :: "nat \<Rightarrow> u32 \<Rightarrow> bytes \<Rightarrow> u32" where
  "header_sum i s (a # b # rest) =
     header_sum (Suc i) (if i \<noteq> 5 then sum_add s [a, b] else s) rest"
| "header_sum i s _ = s"

definition ipv4_checksum :: "bytes \<Rightarrow> u16" where
  "ipv4_checksum header = sum_fold (header_sum 0 0 header)"

text \<open>The diagnostics' own copy, written as one loop and one fold.\<close>

definition ones_complement :: "bytes \<Rightarrow> u16" where
  "ones_complement b = NOT (ucast (fold_carries (sum_add 0 b)))"

section \<open>What the fold computes\<close>

lemma mod_65535_fold: "(n mod 65536 + n div 65536) mod 65535 = (n :: nat) mod 65535"
proof -
  have "n = (n mod 65536 + n div 65536) + 65535 * (n div 65536)"
    using div_mult_mod_eq[of n 65536] by simp
  then show ?thesis by (metis mod_mult_self2)
qed

lemma fold_carries_residue:
  "unat (fold_carries s) < 65536 \<and> unat (fold_carries s) mod 65535 = unat s mod 65535 \<and>
   (unat (fold_carries s) = 0 \<longleftrightarrow> unat s = 0)"
proof (induction s rule: fold_carries.induct)
  case (1 s)
  show ?case
  proof (cases "drop_bit 16 s \<noteq> 0")
    case True
    moreover from True have "unat s mod 65536 + unat s div 65536 = 0 \<longleftrightarrow> unat s = 0"
      unfolding fold_guard by arith
    ultimately show ?thesis using "1"[OF True] mod_65535_fold[of "unat s"]
      by (simp add: fold_carries.simps[of s] fold_step_unat)
  next
    case False
    then show ?thesis by (simp add: fold_carries.simps[of s] fold_guard)
  qed
qed

section \<open>Sums of words as naturals\<close>

text \<open>The value of a run of bytes as a sum of big-endian sixteen-bit words.\<close>

fun words_nat :: "bytes \<Rightarrow> nat" where
  "words_nat (a # b # more) = 256 * unat a + unat b + words_nat more"
| "words_nat [a] = 256 * unat a"
| "words_nat [] = 0"

lemma unat_be16: "unat (be16 a b) = 256 * unat a + unat b"
proof -
  have "be16 a b = push_bit 8 (ucast a) + ucast b"
    unfolding be16_def by (rule disjunctive_add [symmetric]) (auto simp: bit_simps dest: bit_imp_le_length)
  then show ?thesis using unat_u8_less[of a] unat_u8_less[of b]
    by (simp add: unat_word_ariths push_bit_eq_mult unat_ucast_up)
qed

lemma words_nat_bound: "words_nat bs \<le> 65535 * ((length bs + 1) div 2)"
proof (induction bs rule: words_nat.induct)
  case (1 a b more)
  then show ?case using unat_u8_less[of a] unat_u8_less[of b] by simp
next
  case (2 a)
  show ?case using unat_u8_less[of a] by simp
qed simp

lemma sum_add_unat:
  "unat s + words_nat bs < 2 ^ 32 \<Longrightarrow> unat (sum_add s bs) = unat s + words_nat bs"
proof (induction s bs rule: sum_add.induct)
  case (1 s a b more)
  have "unat (s + ucast (be16 a b)) = unat s + (256 * unat a + unat b)"
    using 1(2) by (simp add: unat_word_ariths unat_be16 unat_ucast_up)
  with 1 show ?case by simp
next
  case (2 s a)
  then show ?case by (simp add: unat_word_ariths unat_be16 unat_ucast_up)
qed simp

lemma words_nat_append_even:
  "even (length xs) \<Longrightarrow> words_nat (xs @ ys) = words_nat xs + words_nat ys"
  by (induction xs rule: words_nat.induct) auto

lemma words_nat_be_bytes: "words_nat (be_bytes 2 (w :: u16)) = unat w"
proof -
  have "be16 (ucast (drop_bit 8 w)) (ucast w) = w"
    by (rule bit_word_eqI) (auto simp: be16_def bit_simps)
  then have "unat (be16 (ucast (drop_bit 8 w)) (ucast w)) = unat w" by simp
  then show ?thesis by (simp add: numeral_2_eq_2 unat_be16)
qed

lemma unat_not_u16: "unat (NOT w :: u16) = 65535 - unat w"
proof -
  have "NOT w = - 1 - w" by (simp add: not_eq_complement)
  moreover have "w \<le> - 1" by simp
  ultimately show ?thesis by (simp add: unat_sub unsigned_minus_1_eq_mask mask_eq_exp_minus_1)
qed

lemma checksum_unat:
  assumes "words_nat b < 2 ^ 32"
  shows "checksum b = 0 \<longleftrightarrow> words_nat b mod 65535 = 0 \<and> words_nat b \<noteq> 0"
proof -
  define s where "s = sum_add 0 b"
  have s: "unat s = words_nat b" using sum_add_unat[of 0 b] assms by (simp add: s_def)
  define f where "f = unat (fold_carries s)"
  have f: "f < 65536" "f mod 65535 = words_nat b mod 65535" "f = 0 \<longleftrightarrow> words_nat b = 0"
    using fold_carries_residue[of s] s by (auto simp: f_def)
  have "unat (ucast (fold_carries s) :: u16) = f"
    using f(1) by (simp add: f_def unsigned_ucast_eq take_bit_nat_eq_self)
  then have "unat (checksum b) = 65535 - f"
    by (simp add: checksum_def sum_fold_def unat_not_u16 s_def)
  then have "checksum b = 0 \<longleftrightarrow> f = 65535" using f(1)
    unfolding word_unat_eq_iff by auto
  also have "\<dots> \<longleftrightarrow> f mod 65535 = 0 \<and> f \<noteq> 0"
  proof
    assume "f mod 65535 = 0 \<and> f \<noteq> 0"
    then obtain k where k: "f = 65535 * k" "k \<noteq> 0" by (auto elim!: dvdE simp: mod_eq_0_iff_dvd)
    then have "k = 1" using f(1) by simp
    with k show "f = 65535" by simp
  qed simp
  finally show ?thesis using f by simp
qed

text \<open>What a sum comes to with the complement of its fold in a field.\<close>

lemma folded_field:
  assumes "unat s = n"
  shows "(unat (NOT (ucast (fold_carries s)) :: u16) + n) mod 65535 = 0"
    "unat (NOT (ucast (fold_carries s)) :: u16) + n \<noteq> 0"
proof -
  define f where "f = unat (fold_carries s)"
  have f: "f < 65536" "f mod 65535 = n mod 65535" "f = 0 \<longleftrightarrow> n = 0"
    using fold_carries_residue[of s] assms by (simp_all add: f_def)
  have "unat (ucast (fold_carries s) :: u16) = f"
    using f(1) by (simp add: f_def unsigned_ucast_eq take_bit_nat_eq_self)
  then have c: "unat (NOT (ucast (fold_carries s)) :: u16) = 65535 - f" by (simp add: unat_not_u16)
  have "((65535 - f + n) + f) mod 65535 = f mod 65535" using f(1,2) by simp
  then show "(unat (NOT (ucast (fold_carries s)) :: u16) + n) mod 65535 = 0"
    using c mod_eq_dvd_iff_nat[of f "(65535 - f + n) + f" 65535] by simp
  show "unat (NOT (ucast (fold_carries s)) :: u16) + n \<noteq> 0" using c f by auto
qed

lemma field_verifies:
  assumes "words_nat (before @ after) < 2 ^ 31" "even (length before)"
    and "(unat (c :: u16) + words_nat (before @ after)) mod 65535 = 0" "unat c + words_nat (before @ after) \<noteq> 0"
  shows "checksum (before @ be_bytes 2 c @ after) = 0"
proof -
  have "even (length (be_bytes 2 c))" by simp
  then have t: "words_nat (before @ be_bytes 2 c @ after) = unat c + words_nat (before @ after)"
    using assms(2) by (simp add: words_nat_append_even words_nat_be_bytes)
  then show ?thesis using checksum_unat[of "before @ be_bytes 2 c @ after"] assms unat_u16_less[of c] by simp
qed

lemma header_sum_tail:
  "5 < i \<Longrightarrow> even (length h) \<Longrightarrow> header_sum i s h = sum_add s h"
  by (induction i s h rule: header_sum.induct) auto

lemma long_list_12:
  assumes "12 \<le> length h"
  obtains a0 a1 a2 a3 a4 a5 a6 a7 a8 a9 a10 a11 r where
    "h = a0 # a1 # a2 # a3 # a4 # a5 # a6 # a7 # a8 # a9 # a10 # a11 # r"
proof -
  have "\<exists>x y. h = x @ y \<and> length x = 12"
    using assms by (metis append_take_drop_id length_take min.absorb2)
  then show thesis using that
    by (auto simp: numeral_eq_Suc length_Suc_conv)
qed

lemma header_sum_split:
  assumes "12 \<le> length h" "even (length h)"
  shows "header_sum 0 s h = sum_add s (take 10 h @ drop 12 h)"
  using assms by (elim long_list_12) (simp add: header_sum_tail)

text \<open>The defining property of the IPv4 checksum: with the computed value in the field, a receiver
  summing the whole header gets all ones.\<close>

lemma ipv4_checksum_verifies:
  assumes "12 \<le> length h" "even (length h)" "length h \<le> 65534"
  shows "checksum (take 10 h @ be_bytes 2 (ipv4_checksum h) @ drop 12 h) = 0"
proof -
  have n: "words_nat (take 10 h @ drop 12 h) < 2 ^ 31"
    using words_nat_bound[of "take 10 h @ drop 12 h"] assms by simp
  then have "unat (header_sum 0 0 h) = words_nat (take 10 h @ drop 12 h)"
    using sum_add_unat[of 0 "take 10 h @ drop 12 h"] by (simp add: header_sum_split[OF assms(1,2)])
  from folded_field[OF this] show ?thesis using n assms(1)
    by (intro field_verifies) (simp_all add: ipv4_checksum_def sum_fold_def)
qed

section \<open>Properties\<close>

text \<open>The fold of \<open>Sum\<close> ends, and it is the residue of the sum modulo 65535, zero only for a
  zero sum: carries come back round rather than being dropped.\<close>

theorem sum_fold_residue:
  "unat (NOT (sum_fold s)) mod 65535 = unat s mod 65535 \<and> (NOT (sum_fold s) = 0 \<longleftrightarrow> s = 0)"
proof -
  have "unat (ucast (fold_carries s) :: u16) = unat (fold_carries s)"
    using fold_carries_residue[of s] by (simp add: unsigned_ucast_eq take_bit_nat_eq_self)
  then show ?thesis using fold_carries_residue[of s]
    by (simp add: sum_fold_def word_unat_eq_iff)
qed

text \<open>The copy of the checksum in the packet diagnostics computes the same value as the shared
  one.\<close>

theorem ones_complement_is_checksum: "ones_complement b = checksum b"
  by (simp add: ones_complement_def checksum_def sum_fold_def)

end
