(* ===== verification/Hop_Limit.thy ===== *)
theory Hop_Limit
  imports Checksum
begin

text \<open>
  Forwarding one IP packet, \<open>decrement_hop_limit\<close> of \<open>src/transport/connect_ip.rs\<close>: the guards, the
  decrement in place and the recomputed IPv4 header checksum, over a header as long as the packet
  says it is. Indexing is explicit, so a packet cut short anywhere is shown to be refused rather
  than indexed into.
\<close>

definition version :: "bytes \<Rightarrow> u8 option" where
  "version packet = map_option (drop_bit 4) (at packet 0)"

text \<open>The header length an IPv4 packet claims: the low nibble of its first byte, in words.\<close>

definition ihl :: "bytes \<Rightarrow> nat" where
  "ihl packet = unat (packet ! 0 AND 0x0f) * 4"

text \<open>\<open>packet[i..j].copy_from_slice(..)\<close>.\<close>

definition copy_into :: "nat \<Rightarrow> 'a list \<Rightarrow> 'a list \<Rightarrow> ('e, 'a list) outcome" where
  "copy_into i src packet =
     (if i + length src \<le> length packet
      then Ok (take i packet @ src @ drop (i + length src) packet) else Panic)"

lemma copy_into_Ok [out_simps]:
  "i + length src \<le> length packet \<Longrightarrow>
     copy_into i src packet = Ok (take i packet @ src @ drop (i + length src) packet)"
  by (simp add: copy_into_def)

definition decrement_hop_limit :: "bytes \<Rightarrow> (unit, bool \<times> bytes) outcome" where
  "decrement_hop_limit packet =
     (if version packet = Some 4 then
        (let header = ihl packet in
         if header < 20 \<or> length packet < header then Ok (False, packet)
         else
           and_then (index packet 8) (\<lambda>ttl.
           if ttl \<le> 1 then Ok (False, packet)
           else
             let packet = packet[8 := ttl - 1] in
             and_then (slice 0 header packet) (\<lambda>head.
             and_then (copy_into 10 (be_bytes 2 (ipv4_checksum head)) packet) (\<lambda>packet.
               Ok (True, packet)))))
      else if version packet = Some 6 then
        (if length packet < 40 then Ok (False, packet)
         else
           and_then (index packet 7) (\<lambda>hops.
           if hops \<le> 1 then Ok (False, packet)
           else Ok (True, packet[7 := hops - 1])))
      else Ok (False, packet))"

section \<open>The result, case by case\<close>

lemma ihl_bound: "ihl packet \<le> 60"
proof -
  have "packet ! 0 AND 0x0f \<le> 0x0f" by (rule word_and_le1)
  then show ?thesis by (simp add: ihl_def word_le_nat_alt)
qed

lemma version_Some: "version packet = Some v \<Longrightarrow> packet \<noteq> []"
  by (auto simp: version_def)

lemma decrement_v4:
  assumes "version packet = Some 4" "20 \<le> ihl packet" "ihl packet \<le> length packet"
    and "1 < packet ! 8"
  shows "decrement_hop_limit packet =
    (let p = packet[8 := packet ! 8 - 1] in
     Ok (True, take 10 p @ be_bytes 2 (ipv4_checksum (take (ihl packet) p)) @ drop 12 p))"
  using assms by (simp add: decrement_hop_limit_def out_simps Let_def del: be_bytes.simps)

lemma decrement_v6:
  assumes "version packet = Some 6" "40 \<le> length packet" "1 < packet ! 7"
  shows "decrement_hop_limit packet = Ok (True, packet[7 := packet ! 7 - 1])"
  using assms by (simp add: decrement_hop_limit_def out_simps)

lemma decrement_refused:
  assumes "\<not> (version packet = Some 4 \<and> 20 \<le> ihl packet \<and> ihl packet \<le> length packet \<and>
      1 < packet ! 8)"
    and "\<not> (version packet = Some 6 \<and> 40 \<le> length packet \<and> 1 < packet ! 7)"
  shows "decrement_hop_limit packet = Ok (False, packet)"
proof (cases "version packet = Some 4")
  case True
  then show ?thesis using assms(1)
    by (cases "20 \<le> ihl packet \<and> ihl packet \<le> length packet")
      (auto simp: decrement_hop_limit_def out_simps not_less)
next
  case False
  then show ?thesis using assms(2)
    by (cases "40 \<le> length packet") (auto simp: decrement_hop_limit_def out_simps not_less)
qed

lemma decrement_cases:
  obtains (v4) "version packet = Some 4" "20 \<le> ihl packet" "ihl packet \<le> length packet"
      "1 < packet ! 8"
  | (v6) "version packet = Some 6" "40 \<le> length packet" "1 < packet ! 7"
  | (refused) "decrement_hop_limit packet = Ok (False, packet)"
  using decrement_refused[of packet] by blast

section \<open>Properties\<close>

text \<open>Every packet, cut short anywhere, is answered without an index out of range; a packet that
  is not forwarded is left as it was.\<close>

theorem decrement_hop_limit_total:
  "\<exists>sent p. decrement_hop_limit packet = Ok (sent, p) \<and> length p = length packet \<and>
     (sent \<or> p = packet)"
proof (cases packet rule: decrement_cases)
  case v4
  then show ?thesis
    by (intro exI[of _ True]) (auto simp: decrement_v4 Let_def simp del: be_bytes.simps)
next
  case v6
  then show ?thesis by (intro exI[of _ True]) (auto simp: decrement_v6)
next
  case refused
  then show ?thesis by blast
qed

text \<open>A forwarded IPv4 packet has its time to live lowered by one, carries a checksum its whole
  header verifies against, options included, and differs in no other byte.\<close>

theorem decrement_hop_limit_v4:
  assumes "decrement_hop_limit packet = Ok (True, p)" "version packet = Some 4"
  shows "unat (p ! 8) + 1 = unat (packet ! 8) \<and> 0 < p ! 8 \<and>
    checksum (take (ihl p) p) = 0 \<and>
    (\<forall>i. i \<notin> {8, 10, 11} \<longrightarrow> p ! i = packet ! i)"
proof -
  have g: "20 \<le> ihl packet" "ihl packet \<le> length packet" "1 < packet ! 8"
    using assms by (cases packet rule: decrement_cases; simp add: decrement_v6)+
  define q where "q = packet[8 := packet ! 8 - 1]"
  define h where "h = take (ihl packet) q"
  have p: "p = take 10 q @ be_bytes 2 (ipv4_checksum h) @ drop 12 q"
    using assms(1) decrement_v4[OF assms(2) g] by (simp add: q_def h_def Let_def)
  have lq: "length q = length packet" by (simp add: q_def)
  have other: "p ! i = q ! i" if "i \<notin> {10, 11}" for i
    using that g lq by (auto simp: p nth_append numeral_2_eq_2 min_def)
  have "p ! 8 = packet ! 8 - 1" using other[of 8] g by (simp add: q_def)
  moreover have "unat (packet ! 8 - 1) + 1 = unat (packet ! 8)" "0 < packet ! 8 - 1"
    using g(3) by (unat_arith, unat_arith)
  moreover have "ihl p = ihl packet" using other[of 0] by (simp add: ihl_def q_def)
  moreover have "take (ihl packet) p = take 10 h @ be_bytes 2 (ipv4_checksum h) @ drop 12 h"
    using g lq by (simp add: p h_def take_drop del: be_bytes.simps)
  moreover have "checksum (take 10 h @ be_bytes 2 (ipv4_checksum h) @ drop 12 h) = 0"
  proof (rule ipv4_checksum_verifies)
    have "length h = ihl packet" using g lq by (simp add: h_def)
    then show "12 \<le> length h" "even (length h)" "length h \<le> 65534"
      using g ihl_bound[of packet] by (simp_all add: ihl_def)
  qed
  ultimately show ?thesis using other by (auto simp: q_def)
qed

definition sample_v4 :: bytes where
  "sample_v4 = [0x46, 0, 0, 0x40, 0x1c, 0x46, 0x40, 0, 0x40, 6, 0, 0, 0xac, 0x10, 0x0a, 0x63,
     0xac, 0x10, 0x0a, 0x0c, 0x94, 4, 0, 0]"

theorem decrement_hop_limit_v4_witness:
  "unat (sample_v4[8 := 0x3f, 10 := 29, 11 := 222] ! 8) + 1 = unat (sample_v4 ! 8) \<and>
   checksum (take (ihl sample_v4) (sample_v4[8 := 0x3f, 10 := 29, 11 := 222])) = 0"
proof -
  have "decrement_hop_limit sample_v4 = Ok (True, sample_v4[8 := 0x3f, 10 := 29, 11 := 222])"
    by code_simp
  moreover have "version sample_v4 = Some 4" by code_simp
  moreover have "ihl (sample_v4[8 := 0x3f, 10 := 29, 11 := 222]) = ihl sample_v4" by code_simp
  ultimately show ?thesis using decrement_hop_limit_v4 by metis
qed

text \<open>A forwarded IPv6 packet has its hop limit lowered by one and is otherwise unchanged.\<close>

theorem decrement_hop_limit_v6:
  assumes "decrement_hop_limit packet = Ok (True, p)" "version packet = Some 6"
  shows "unat (p ! 7) + 1 = unat (packet ! 7) \<and> 0 < p ! 7 \<and> (\<forall>i. i \<noteq> 7 \<longrightarrow> p ! i = packet ! i)"
proof -
  have g: "40 \<le> length packet" "1 < packet ! 7"
    using assms by (cases packet rule: decrement_cases; simp)+
  then have p: "p = packet[7 := packet ! 7 - 1]" using assms decrement_v6 by simp
  have "unat (packet ! 7 - 1) + 1 = unat (packet ! 7)" "0 < packet ! 7 - 1"
    using g(2) by (unat_arith, unat_arith)
  then show ?thesis using g by (simp add: p)
qed

theorem decrement_hop_limit_v6_witness:
  "unat ((0x60 # replicate 6 0 @ 63 # replicate 32 0 :: bytes) ! 7) + 1 =
   unat ((0x60 # replicate 6 0 @ 64 # replicate 32 0 :: bytes) ! 7)"
proof -
  have "decrement_hop_limit (0x60 # replicate 6 0 @ 64 # replicate 32 0) =
      Ok (True, 0x60 # replicate 6 0 @ 63 # replicate 32 0)" by code_simp
  moreover have "version (0x60 # replicate 6 0 @ 64 # replicate 32 0) = Some 6" by code_simp
  ultimately show ?thesis using decrement_hop_limit_v6 by blast
qed

text \<open>A packet is forwarded exactly when it is IP with a whole header and more than one hop
  left: a packet that runs out of hops is dropped, never sent with a wrapped count.\<close>

theorem decrement_hop_limit_forwards_iff:
  "(\<exists>p. decrement_hop_limit packet = Ok (True, p)) \<longleftrightarrow>
     (version packet = Some 4 \<and> 20 \<le> ihl packet \<and> ihl packet \<le> length packet \<and> 1 < packet ! 8) \<or>
     (version packet = Some 6 \<and> 40 \<le> length packet \<and> 1 < packet ! 7)"
    (is "?sent \<longleftrightarrow> ?v4 \<or> ?v6")
proof
  show "?sent \<Longrightarrow> ?v4 \<or> ?v6" using decrement_refused[of packet] by (rule_tac ccontr) auto
  show "?v4 \<or> ?v6 \<Longrightarrow> ?sent"
    using decrement_v4[of packet] decrement_v6[of packet] by (auto simp: Let_def)
qed

end
