(* ===== verification/Varint.thy ===== *)
theory Varint
  imports Masqr_Prelude
begin

text \<open>
  QUIC variable-length integers, \<open>src/transport/varint.rs\<close>: \<open>put\<close>, \<open>len\<close> and \<open>get\<close> on
  64-bit words, with the masks and shifts of the source. The round trip holds for every value the
  encoding can carry and in front of any following bytes, which is how every reader above uses it.
\<close>

definition varint_MAX :: u64 where
  "varint_MAX = push_bit 62 1 - 1"

definition varint_put :: "bytes \<Rightarrow> u64 \<Rightarrow> bytes" where
  "varint_put buf value =
     (if value < 64 then buf @ [ucast value]
      else if value < 16384 then buf @ be_bytes 2 (0x4000 OR ucast value :: u16)
      else if value < push_bit 30 1 then buf @ be_bytes 4 (0x80000000 OR ucast value :: u32)
      else buf @ be_bytes 8 (0xc000000000000000 OR value))"

definition varint_len :: "u64 \<Rightarrow> nat" where
  "varint_len value =
     (if value < 64 then 1 else if value < 16384 then 2
      else if value < push_bit 30 1 then 4 else 8)"

definition varint_get :: "bytes \<Rightarrow> (u64 \<times> nat) option" where
  "varint_get buf =
     (case buf of
        [] \<Rightarrow> None
      | first # _ \<Rightarrow>
          (let len = 2 ^ unat (drop_bit 6 first) in
           if length buf < len then None
           else Some (foldl shift_in (ucast (first AND 0x3f)) (take (len - 1) (tl buf)), len)))"

section \<open>Writing then reading\<close>

lemma varint_get_tagged:
  assumes n: "n = 2 ^ c" "c < 4" and v: "unat v < 2 ^ (8 * n - 2)"
  shows "varint_get (be_bytes n (push_bit (8 * n - 2) (of_nat c) OR v :: u64) @ rest) = Some (v, n)"
proof -
  define m where "m = n - 1"
  have nm: "n = Suc m" using n by (simp add: m_def)
  have k: "8 * n - 2 = 8 * m + 6" using nm by simp
  have m7: "m \<le> 7" using n by (auto simp: m_def numeral_eq_Suc less_Suc_eq)
  define w where "w = (push_bit (8 * m + 6) (of_nat c) OR v :: u64)"
  define first :: u8 where "first = ucast (drop_bit (8 * m) w)"
  have vb: "\<And>j. bit v j \<Longrightarrow> j < 8 * m + 6"
    using v bit_unat_less unfolding k by blast
  have c4: "unat (of_nat c :: u64) = c" using n(2) by (simp add: unat_of_nat)
  have tag: "drop_bit 6 first = of_nat c"
  proof (rule bit_word_eqI)
    fix j assume "j < LENGTH(8)"
    have "bit (of_nat c :: u64) j \<longleftrightarrow> bit (of_nat c :: u8) j" if "j < 8" for j
      using that by (simp add: bit_of_nat_iff)
    moreover have "bit (of_nat c :: u8) j \<Longrightarrow> j < 2"
      by (rule bit_unat_less[where k=2 and v="of_nat c :: u8"]) (use n(2) in \<open>simp_all add: unat_of_nat\<close>)
    ultimately show "bit (drop_bit 6 first) j = bit (of_nat c :: u8) j"
      using \<open>j < LENGTH(8)\<close> m7 vb[of "8 * m + (6 + j)"]
      by (auto simp: first_def w_def bit_simps)
  qed
  have body: "(ucast (first AND 0x3f) :: u64) = drop_bit (8 * m) v"
  proof (rule bit_word_eqI)
    fix j assume "j < LENGTH(64)"
    have "first AND 0x3f = take_bit 6 first"
      by (simp add: take_bit_eq_mask mask_eq_exp_minus_1)
    then show "bit (ucast (first AND 0x3f) :: u64) j = bit (drop_bit (8 * m) v) j"
      using \<open>j < LENGTH(64)\<close> m7 vb[of "8 * m + j"]
      by (auto simp: first_def w_def bit_simps)
  qed
  have whole: "push_bit (8 * m) (drop_bit (8 * m) v) OR take_bit (8 * m) w = v"
    by (rule bit_word_eqI) (use vb in \<open>auto simp: w_def bit_simps\<close>)
  have len: "2 ^ unat (drop_bit 6 first) = n"
    using tag n by (simp add: unat_of_nat)
  have "take m (be_bytes m w @ rest) = be_bytes m w" by simp
  then show ?thesis
    unfolding k using len whole body m7
    by (simp add: varint_get_def nm Let_def flip: first_def w_def)
      (simp add: foldl_shift_in_be_bytes)
qed

lemma be_bytes_put16:
  assumes "unat v < 2 ^ 14"
  shows "be_bytes 2 (0x4000 OR ucast v :: u16) = be_bytes 2 (0x4000 OR v :: u64)"
proof -
  have "(ucast (0x4000 OR ucast v :: u16) :: u64) = 0x4000 OR v"
    using ucast_ucast_small[OF assms, where 'b=16] by (simp add: unsigned_or_eq)
  then show ?thesis
    using be_bytes_ucast[of 2 "0x4000 OR ucast v :: u16"] by (simp del: be_bytes.simps)
qed

lemma be_bytes_put32:
  assumes "unat v < 2 ^ 30"
  shows "be_bytes 4 (0x80000000 OR ucast v :: u32) = be_bytes 4 (0x80000000 OR v :: u64)"
proof -
  have "(ucast (0x80000000 OR ucast v :: u32) :: u64) = 0x80000000 OR v"
    using ucast_ucast_small[OF assms, where 'b=32] by (simp add: unsigned_or_eq)
  then show ?thesis
    using be_bytes_ucast[of 4 "0x80000000 OR ucast v :: u32"] by (simp del: be_bytes.simps)
qed

lemma varint_put_append: "varint_put buf v = buf @ varint_put [] v"
  by (simp add: varint_put_def)

lemma length_varint_put [simp]: "length (varint_put buf v) = length buf + varint_len v"
  by (simp add: varint_put_def varint_len_def)

lemma varint_get_put_Nil:
  assumes "v \<le> varint_MAX"
  shows "varint_get (varint_put [] v @ rest) = Some (v, varint_len v)"
proof -
  have max: "unat v < 2 ^ 62"
    using assms by (simp add: varint_MAX_def word_le_nat_alt)
  consider "v < 64" | "\<not> v < 64" "v < 16384" | "\<not> v < 16384" "v < push_bit 30 1"
    | "\<not> v < push_bit 30 1" by blast
  then show ?thesis
  proof cases
    case 1
    then have "unat v < 2 ^ 6" by (simp add: word_less_nat_alt)
    then show ?thesis using varint_get_tagged[of 1 0 v rest] 1
      by (simp add: varint_put_def varint_len_def)
  next
    case 2
    then have v: "unat v < 2 ^ 14" by (simp add: word_less_nat_alt)
    then show ?thesis using varint_get_tagged[of 2 1 v rest] 2
      by (simp add: varint_put_def varint_len_def be_bytes_put16 del: be_bytes.simps)
  next
    case 3
    then have v: "unat v < 2 ^ 30" "\<not> v < 64" by (simp_all add: word_less_nat_alt)
    then show ?thesis using varint_get_tagged[of 4 2 v rest] 3
      by (simp add: varint_put_def varint_len_def be_bytes_put32 del: be_bytes.simps)
  next
    case 4
    then have v: "\<not> v < 64" "\<not> v < 16384" by (simp_all add: word_less_nat_alt)
    then show ?thesis using varint_get_tagged[of 8 3 v rest] 4 max
      by (simp add: varint_put_def varint_len_def del: be_bytes.simps)
  qed
qed
section \<open>Reading\<close>

lemma varint_get_Cons:
  "varint_get (b # bs) =
     (let n = 2 ^ unat (drop_bit 6 b) in
      if length bs + 1 < n then None
      else Some (foldl shift_in (ucast (b AND 0x3f)) (take (n - 1) bs), n))"
  by (simp add: varint_get_def Let_def)

lemma varint_get_append:
  "varint_get buf = Some r \<Longrightarrow> varint_get (buf @ more) = Some r"
  by (cases buf) (auto simp: varint_get_Cons Let_def varint_get_def split: if_splits)

lemma varint_get_used:
  assumes "varint_get buf = Some (v, n)"
  shows "1 \<le> n" "n \<le> 8" "n \<le> length buf"
proof -
  obtain b bs where b: "buf = b # bs" using assms by (cases buf) (auto simp: varint_get_def)
  have "unat (drop_bit 6 b) < 4"
    using unsigned_less[of b, where 'a = nat] by (simp add: drop_bit_eq_div unat_div)
  then have "unat (drop_bit 6 b) \<le> 3" by simp
  then have "(2::nat) ^ unat (drop_bit 6 b) \<le> 2 ^ 3" by (intro power_increasing) auto
  then show "1 \<le> n" "n \<le> 8" "n \<le> length buf"
    using assms by (auto simp: b varint_get_Cons Let_def split: if_splits)
qed

lemma varint_get_take:
  "varint_get buf = Some (v, n) \<Longrightarrow> varint_get (take n buf) = Some (v, n)"
  using varint_get_used[of buf v n]
  by (cases buf; cases n) (auto simp: varint_get_Cons Let_def varint_get_def split: if_splits)

lemma varint_get_None:
  assumes "varint_get buf = None" shows "length buf < 8"
proof (cases buf)
  case (Cons b bs)
  have "unat (drop_bit 6 b) < 4"
    using unsigned_less[of b, where 'a = nat] by (simp add: drop_bit_eq_div unat_div)
  then have "(2::nat) ^ unat (drop_bit 6 b) \<le> 2 ^ 3" by (intro power_increasing) auto
  then show ?thesis using assms by (auto simp: Cons varint_get_Cons Let_def split: if_splits)
qed simp

lemma shift_in_bound:
  assumes "unat v < 2 ^ k" shows "unat (shift_in v b) < 2 ^ (k + 8)"
proof (rule unat_less_bits)
  fix j assume "bit (shift_in v b) j"
  then show "j < k + 8"
    using bit_unat_less[OF assms, of "j - 8"] bit_imp_le_length[of b j]
    by (auto simp: shift_in_def bit_simps)
qed

lemma foldl_shift_in_bound:
  "unat v < 2 ^ k \<Longrightarrow> unat (foldl shift_in v bs) < 2 ^ (k + 8 * length bs)"
proof (induction bs arbitrary: v k)
  case (Cons b bs)
  from Cons.IH[OF shift_in_bound[OF Cons.prems, of b]] show ?case
    by (simp add: algebra_simps)
qed simp

text \<open>No buffer makes the reader produce more than the encoding can carry.\<close>

lemma varint_get_le_MAX:
  assumes "varint_get buf = Some (v, n)" shows "v \<le> varint_MAX"
proof -
  obtain b bs where b: "buf = b # bs" using assms by (cases buf) (auto simp: varint_get_def)
  have n: "n \<le> 8" and v: "v = foldl shift_in (ucast (b AND 0x3f)) (take (n - 1) bs)"
    using assms varint_get_used[OF assms] by (auto simp: b varint_get_Cons Let_def split: if_splits)
  have "b AND 0x3f = take_bit 6 b" by (simp add: take_bit_eq_mask mask_eq_exp_minus_1)
  then have "unat (ucast (b AND 0x3f) :: u64) < 2 ^ 6"
    by (intro unat_less_bits) (auto simp: bit_simps)
  from foldl_shift_in_bound[OF this, of "take (n - 1) bs"]
  have "unat v < 2 ^ (6 + 8 * length (take (n - 1) bs))" by (simp add: v)
  also have "\<dots> \<le> 2 ^ 62" using n by (intro power_increasing) auto
  finally show ?thesis by (simp add: varint_MAX_def word_le_nat_alt)
qed

end
