(* ===== verification/Incremental.thy ===== *)
theory Incremental
  imports Masqr_Prelude
begin

text \<open>
  The contract of a reader that is fed a stream in whatever pieces the network chose: it takes one
  whole record off the front of its state, or says that it has to wait, or refuses the stream. The
  loop that drains such a reader between two reads is the relation \<open>drains\<close>, and a whole run of
  reads is \<open>delivers\<close>. Inside the locale: every run has exactly one outcome, and the records
  delivered do not depend on where the stream was cut. The capsule stream of the HTTP/2 carrier
  (theory Capsule) and the HTTP/3 frame reader (theory Http3) interpret it.
\<close>

section \<open>Draining a reader\<close>

text \<open>\<open>pull\<close> takes one record: \<open>Ok (Some r, s')\<close> is a record and the state after it,
  \<open>Ok (None, s')\<close> is a wait. A drain ends in \<open>Inr s'\<close>, waiting, or in \<open>Inl e\<close>, refused.\<close>

inductive drains ::
    "('s \<Rightarrow> ('e, 'r option \<times> 's) outcome) \<Rightarrow> 's \<Rightarrow> 'r list \<Rightarrow> 'e + 's \<Rightarrow> bool"
  for pull :: "'s \<Rightarrow> ('e, 'r option \<times> 's) outcome" where
  drains_wait: "pull s = Ok (None, s') \<Longrightarrow> drains pull s [] (Inr s')"
| drains_refuse: "pull s = Err e \<Longrightarrow> drains pull s [] (Inl e)"
| drains_take: "pull s = Ok (Some r, s') \<Longrightarrow> drains pull s' rs z \<Longrightarrow> drains pull s (r # rs) z"

text \<open>A run: each chunk is appended to the state, and the reader is drained.\<close>

inductive delivers ::
    "('s \<Rightarrow> ('e, 'r option \<times> 's) outcome) \<Rightarrow> ('s \<Rightarrow> bytes \<Rightarrow> 's) \<Rightarrow> 's \<Rightarrow> bytes list \<Rightarrow>
     'r list \<Rightarrow> 'e + 's \<Rightarrow> bool"
  for pull :: "'s \<Rightarrow> ('e, 'r option \<times> 's) outcome" and extend :: "'s \<Rightarrow> bytes \<Rightarrow> 's" where
  delivers_end: "delivers pull extend s [] [] (Inr s)"
| delivers_refuse: "drains pull (extend s c) rs (Inl e) \<Longrightarrow>
    delivers pull extend s (c # cs) rs (Inl e)"
| delivers_chunk: "drains pull (extend s c) rs (Inr s') \<Longrightarrow>
    delivers pull extend s' cs rs' z \<Longrightarrow> delivers pull extend s (c # cs) (rs @ rs') z"

inductive_cases drains_NilE: "drains pull s [] z"
inductive_cases drains_ConsE: "drains pull s (r # rs) z"
inductive_cases delivers_NilE: "delivers pull extend s [] rs z"
inductive_cases delivers_ConsE: "delivers pull extend s (c # cs) rs z"

lemma drains_deterministic:
  "drains pull s rs z \<Longrightarrow> drains pull s rs' z' \<Longrightarrow> rs = rs' \<and> z = z'"
proof (induction arbitrary: rs' z' rule: drains.induct)
  case (drains_take s r s' rs z)
  from drains_take.prems drains_take.hyps(1) obtain rs'' where
    "rs' = r # rs''" "drains pull s' rs'' z'"
    by (cases rule: drains.cases) auto
  then show ?case using drains_take.IH by blast
qed (auto elim: drains.cases)

lemma delivers_deterministic:
  "delivers pull extend s cs rs z \<Longrightarrow> delivers pull extend s cs rs' z' \<Longrightarrow> rs = rs' \<and> z = z'"
proof (induction arbitrary: rs' z' rule: delivers.induct)
  case (delivers_end s)
  then show ?case by (auto elim: delivers_NilE)
next
  case (delivers_refuse s c rs e cs)
  from delivers_refuse.prems show ?case
  proof (rule delivers_ConsE)
    fix e' assume "z' = Inl e'" "drains pull (extend s c) rs' (Inl e')"
    then show ?thesis using drains_deterministic[OF delivers_refuse.hyps] by blast
  next
    fix ra sa rb assume "drains pull (extend s c) ra (Inr sa)"
    then show ?thesis using drains_deterministic[OF delivers_refuse.hyps] by blast
  qed
next
  case (delivers_chunk s c rs1 s' cs rs2 z)
  from delivers_chunk.prems show ?case
  proof (rule delivers_ConsE)
    fix e assume "drains pull (extend s c) rs' (Inl e)"
    then show ?thesis using drains_deterministic[OF delivers_chunk.hyps(1)] by blast
  next
    fix ra sa rb assume d: "drains pull (extend s c) ra (Inr sa)"
      and "rs' = ra @ rb" "delivers pull extend sa cs rb z'"
    moreover have "rs1 = ra \<and> s' = sa" using drains_deterministic[OF delivers_chunk.hyps(1) d] by simp
    ultimately show ?thesis using delivers_chunk.IH by blast
  qed
qed

lemma drains_cong:
  assumes "pull a = pull b" "drains pull a rs z" shows "drains pull b rs z"
  using assms(2) by (cases rule: drains.cases) (auto simp: assms(1) intro: drains.intros)

section \<open>The contract\<close>

locale incremental =
  fixes pull :: "'s \<Rightarrow> ('e, 'r option \<times> 's) outcome"
    and extend :: "'s \<Rightarrow> bytes \<Rightarrow> 's"
    and left :: "'s \<Rightarrow> nat"
  assumes extend_extend: "extend (extend s x) y = extend s (x @ y)"
    and take_more: "pull s = Ok (Some r, s') \<Longrightarrow> pull (extend s x) = Ok (Some r, extend s' x)"
    and wait_more: "pull s = Ok (None, s') \<Longrightarrow> pull (extend s x) = pull (extend s' x)"
    and refuse_more: "pull s = Err e \<Longrightarrow> pull (extend s x) = Err e"
    and no_panic: "pull s \<noteq> Panic"
    and progress: "pull s = Ok (Some r, s') \<Longrightarrow> left s' < left s"
begin

lemma drains_total: "\<exists>rs z. drains pull s rs z"
proof (induction "left s" arbitrary: s rule: less_induct)
  case less
  show ?case
  proof (cases "pull s")
    case (Ok p)
    obtain ro s' where p: "p = (ro, s')" by (cases p)
    show ?thesis
    proof (cases ro)
      case None
      then show ?thesis using Ok p drains_wait by metis
    next
      case (Some r)
      with Ok p have t: "pull s = Ok (Some r, s')" by simp
      from less[OF progress[OF t]] show ?thesis using drains.drains_take[of pull s r s'] t by blast
    qed
  next
    case (Err e)
    then show ?thesis using drains_refuse by metis
  next
    case Panic
    then show ?thesis using no_panic by blast
  qed
qed

lemma delivers_total: "\<exists>rs z. delivers pull extend s cs rs z"
proof (induction cs arbitrary: s)
  case Nil
  show ?case using delivers_end[of pull extend s] by blast
next
  case (Cons c cs)
  obtain rs z where d: "drains pull (extend s c) rs z" using drains_total by blast
  show ?case
  proof (cases z)
    case (Inl e)
    then show ?thesis using d delivers_refuse[of pull extend s c rs e cs] by blast
  next
    case (Inr s')
    then show ?thesis
      using d Cons.IH[of s'] delivers_chunk[of pull extend s c rs s' cs] by blast
  qed
qed

lemma drains_refused_more:
  "drains pull s rs (Inl e) \<Longrightarrow> drains pull (extend s x) rs (Inl e)"
  by (induction s rs "Inl e :: 'e + 's" rule: drains.induct)
    (auto intro: drains.intros dest: refuse_more take_more)

lemma drains_waiting_more:
  assumes "drains pull s rs (Inr s')" "drains pull (extend s' x) rs' z"
  shows "drains pull (extend s x) (rs @ rs') z"
  using assms
proof (induction s rs "Inr s' :: 'e + 's" rule: drains.induct)
  case (drains_wait s)
  from wait_more[OF drains_wait.hyps(1)] have "pull (extend s x) = pull (extend s' x)" .
  with drains_wait.prems show ?case
    by (auto elim!: drains.cases[of pull "extend s' x"] intro: drains.intros)
next
  case (drains_take s r s1 rs)
  then show ?case by (auto intro: drains.drains_take dest: take_more)
qed

text \<open>The records a run delivers are the records of the whole stream read at once: where the
  stream was cut does not show.\<close>

lemma delivers_whole:
  "delivers pull extend s cs rs z \<Longrightarrow> drains pull s [] (Inr s) \<Longrightarrow>
     drains pull (extend s (concat cs)) rs z"
  if extend_Nil: "\<And>s. extend s [] = s"
proof -
  have gen: "delivers pull extend s cs rs z \<Longrightarrow> cs \<noteq> [] \<Longrightarrow>
      drains pull (extend s (concat cs)) rs z" for s cs rs z
  proof (induction rule: delivers.induct)
    case (delivers_refuse s c rs e cs)
    from drains_refused_more[OF delivers_refuse.hyps(1), of "concat cs"] show ?case
      by (simp add: extend_extend)
  next
    case (delivers_chunk s c rs s' cs rs' z)
    show ?case
    proof (cases "cs = []")
      case True
      with delivers_chunk.hyps(2) have "rs' = []" "z = Inr s'" by (auto elim: delivers_NilE)
      with True delivers_chunk.hyps(1) show ?thesis by simp
    next
      case False
      from drains_waiting_more[OF delivers_chunk.hyps(1) delivers_chunk.IH[OF False]]
      show ?thesis by (simp add: extend_extend)
    qed
  qed simp
  show "delivers pull extend s cs rs z \<Longrightarrow> drains pull s [] (Inr s) \<Longrightarrow>
     drains pull (extend s (concat cs)) rs z"
    using gen[of s cs rs z] by (cases "cs = []") (auto simp: extend_Nil elim: delivers_NilE)
qed

lemma delivers_chunk_independent:
  assumes "delivers pull extend s cs rs z" "delivers pull extend s cs' rs' z'"
    and "concat cs = concat cs'" "drains pull s [] (Inr s)" "\<And>s. extend s [] = s"
  shows "rs = rs' \<and> z = z'"
proof -
  have "drains pull (extend s (concat cs)) rs z" "drains pull (extend s (concat cs')) rs' z'"
    using delivers_whole assms by blast+
  with assms(3) show ?thesis using drains_deterministic by metis
qed

end

end
