(* ===== verification/Capsule.thy ===== *)
theory Capsule
  imports Varint Incremental
begin

text \<open>
  The capsule stream of the HTTP/2 carrier, \<open>src/transport/capsule.rs\<close>: framing one datagram,
  and pulling one whole capsule off the front of the buffer. Shown: a framed datagram comes back
  exactly, a capsule of another type is skipped without losing the next one, the header alone
  decides a refusal, the buffer of a waiting reader is bounded, no slice is out of range, and the
  stream satisfies the contract of theory Incremental.
\<close>

definition DATAGRAM :: u64 where
  "DATAGRAM = 0"

definition MAX_CAPSULE :: u64 where
  "MAX_CAPSULE = 65535"

datatype too_long = TooLong u64

definition encode_datagram_into :: "bytes \<Rightarrow> bytes \<Rightarrow> bytes" where
  "encode_datagram_into out payload =
     (let out = varint_put out DATAGRAM;
          out = varint_put out (of_nat (length payload))
      in out @ payload)"

definition encode_datagram :: "bytes \<Rightarrow> bytes" where
  "encode_datagram payload = encode_datagram_into [] payload"

text \<open>The buffer is threaded: the second component of the result is what the buffer holds after
  the call. A refusal leaves the caller without a stream, as it does the source's caller.\<close>

definition take_capsule :: "bytes \<Rightarrow> (too_long, bytes option option \<times> bytes) outcome" where
  "take_capsule buf =
     (case varint_get buf of
        None \<Rightarrow> Ok (None, buf)
      | Some (capsule_type, type_len) \<Rightarrow>
          and_then (slice_from type_len buf) (\<lambda>behind.
          (case varint_get behind of
             None \<Rightarrow> Ok (None, buf)
           | Some (payload_len, len_len) \<Rightarrow>
               if payload_len > MAX_CAPSULE then Err (TooLong payload_len)
               else
                 let total = type_len + len_len + unat payload_len in
                 if length buf < total then Ok (None, buf)
                 else
                   and_then (slice_from (type_len + len_len) buf) (\<lambda>buf.
                   and_then (split_to (unat payload_len) buf) (\<lambda>(payload, buf).
                     Ok (Some (if capsule_type = DATAGRAM then Some payload else None), buf))))))"

lemma MAX_CAPSULE_less [simp]: "MAX_CAPSULE < l \<longleftrightarrow> 65535 < unat l"
  by (simp add: MAX_CAPSULE_def word_less_nat_alt)

section \<open>The shape of one pull\<close>

text \<open>The header: type, length, and how many bytes the two took.\<close>

definition capsule_header :: "bytes \<Rightarrow> (u64 \<times> u64 \<times> nat) option" where
  "capsule_header buf =
     (case varint_get buf of
        None \<Rightarrow> None
      | Some (t, n) \<Rightarrow> (case varint_get (drop n buf) of
            None \<Rightarrow> None
          | Some (l, m) \<Rightarrow> Some (t, l, n + m)))"

lemma capsule_header_used:
  assumes "capsule_header buf = Some (t, l, n)"
  shows "2 \<le> n" "n \<le> 16" "n \<le> length buf"
proof -
  obtain a b where g: "varint_get buf = Some (t, a)" "varint_get (drop a buf) = Some (l, b)"
    and n: "n = a + b"
    using assms by (auto simp: capsule_header_def split: option.splits)
  note a = varint_get_used[OF g(1)] and b = varint_get_used[OF g(2)]
  from a b n show "2 \<le> n" "n \<le> 16" "n \<le> length buf" by simp_all
qed

lemma capsule_header_append:
  assumes "capsule_header buf = Some h" shows "capsule_header (buf @ x) = Some h"
proof -
  obtain t a l b where g: "varint_get buf = Some (t, a)" "varint_get (drop a buf) = Some (l, b)"
    and h: "h = (t, l, a + b)"
    using assms by (auto simp: capsule_header_def split: option.splits)
  have "a \<le> length buf" using varint_get_used[OF g(1)] by simp
  then have "drop a (buf @ x) = drop a buf @ x" by simp
  then show ?thesis using varint_get_append[OF g(1), of x] varint_get_append[OF g(2), of x]
    by (simp add: capsule_header_def h)
qed

lemma capsule_header_take:
  assumes "capsule_header buf = Some (t, l, n)"
  shows "capsule_header (take n buf) = Some (t, l, n)"
proof -
  obtain a b where g: "varint_get buf = Some (t, a)" "varint_get (drop a buf) = Some (l, b)"
    and n: "n = a + b"
    using assms by (auto simp: capsule_header_def split: option.splits)
  have "varint_get (take a buf @ take b (drop a buf)) = Some (t, a)"
    by (rule varint_get_append[OF varint_get_take[OF g(1)]])
  then show ?thesis using varint_get_take[OF g(2)]
    by (simp add: capsule_header_def n take_add drop_take varint_get_used[OF g(1)])
qed

lemma take_capsule_header:
  "take_capsule buf =
     (case capsule_header buf of
        None \<Rightarrow> Ok (None, buf)
      | Some (t, l, n) \<Rightarrow>
          if l > MAX_CAPSULE then Err (TooLong l)
          else if length buf < n + unat l then Ok (None, buf)
          else Ok (Some (if t = DATAGRAM then Some (take (unat l) (drop n buf)) else None),
                   drop (n + unat l) buf))"
proof (cases "varint_get buf")
  case None
  then show ?thesis by (simp add: take_capsule_def capsule_header_def)
next
  case (Some p)
  obtain t a where p: "varint_get buf = Some (t, a)" using Some by (cases p) auto
  note a = varint_get_used[OF p]
  show ?thesis
  proof (cases "varint_get (drop a buf)")
    case None
    then show ?thesis using p a by (simp add: take_capsule_def capsule_header_def out_simps)
  next
    case (Some q)
    obtain l b where q: "varint_get (drop a buf) = Some (l, b)" using Some by (cases q) auto
    note b = varint_get_used[OF q]
    show ?thesis using p q a b
      by (auto simp: take_capsule_def capsule_header_def out_simps Let_def add.commute)
  qed
qed

lemma capsule_header_encode:
  assumes "unat l \<le> 65535" "t \<le> varint_MAX"
  shows "capsule_header (varint_put [] t @ varint_put [] l @ x) =
     Some (t, l, length (varint_put [] t @ varint_put [] l))"
proof -
  have "l \<le> varint_MAX" using assms by (simp add: varint_MAX_def word_le_nat_alt)
  then show ?thesis using assms(2)
    by (simp add: capsule_header_def varint_get_put_Nil length_varint_put)
qed

section \<open>Every pull is in range\<close>

lemma take_capsule_no_panic: "take_capsule buf \<noteq> Panic"
  by (simp add: take_capsule_header split: option.split)

lemma take_capsule_more:
  "take_capsule buf = Ok (Some r, buf') \<Longrightarrow> take_capsule (buf @ x) = Ok (Some r, buf' @ x)"
  by (auto simp: take_capsule_header capsule_header_append dest: capsule_header_used
      split: option.splits if_splits)

lemma take_capsule_refuse_more:
  "take_capsule buf = Err e \<Longrightarrow> take_capsule (buf @ x) = Err e"
  by (auto simp: take_capsule_header capsule_header_append split: option.splits if_splits)

lemma take_capsule_wait: "take_capsule buf = Ok (None, buf') \<Longrightarrow> buf' = buf"
  by (auto simp: take_capsule_header split: option.splits if_splits)

lemma take_capsule_progress:
  "take_capsule buf = Ok (Some r, buf') \<Longrightarrow> length buf' < length buf"
  by (auto simp: take_capsule_header dest!: capsule_header_used(1) split: option.splits if_splits)

interpretation capsules: incremental take_capsule "(@)" length
  by unfold_locales
    (auto simp: take_capsule_no_panic dest: take_capsule_wait
      intro: take_capsule_more take_capsule_refuse_more take_capsule_progress)

section \<open>Properties\<close>

lemma encode_datagram_header:
  assumes "length payload \<le> 65535"
  shows "capsule_header (encode_datagram payload @ rest) =
     Some (DATAGRAM, of_nat (length payload), length (encode_datagram payload) - length payload)"
    "unat (of_nat (length payload) :: u64) = length payload"
proof -
  show u: "unat (of_nat (length payload) :: u64) = length payload"
    using assms by (simp add: unat_of_nat)
  have "encode_datagram payload @ rest =
      varint_put [] DATAGRAM @ varint_put [] (of_nat (length payload)) @ payload @ rest"
    by (simp add: encode_datagram_def encode_datagram_into_def varint_put_append[of "varint_put [] DATAGRAM"])
  moreover have "length (encode_datagram payload) - length payload =
      length (varint_put [] DATAGRAM @ varint_put [] (of_nat (length payload)))"
    by (simp add: encode_datagram_def encode_datagram_into_def)
  ultimately show "capsule_header (encode_datagram payload @ rest) =
     Some (DATAGRAM, of_nat (length payload), length (encode_datagram payload) - length payload)"
    using capsule_header_encode[of "of_nat (length payload)" DATAGRAM "payload @ rest"] assms u
    by (simp add: DATAGRAM_def varint_MAX_def)
qed

lemma take_encode_datagram:
  assumes "length payload \<le> 65535"
  shows "take_capsule (encode_datagram payload @ rest) = Ok (Some (Some payload), rest)"
proof -
  have e: "encode_datagram payload =
      take (length (encode_datagram payload) - length payload) (encode_datagram payload) @ payload"
    by (simp add: encode_datagram_def encode_datagram_into_def)
  define n where "n = length (encode_datagram payload) - length payload"
  have n: "n + length payload = length (encode_datagram payload)"
    by (simp add: n_def encode_datagram_def encode_datagram_into_def)
  have d: "drop n (encode_datagram payload @ rest) = payload @ rest"
    using e n by (metis (no_types, lifting) add_diff_cancel_right' append_assoc append_eq_conv_conj
        length_append n_def add_right_cancel length_take)
  then have "drop (length payload + n) (encode_datagram payload @ rest) = rest"
    by (metis append_eq_conv_conj drop_drop)
  with d n show ?thesis
    using encode_datagram_header(1)[OF assms, of rest, folded n_def]
      encode_datagram_header(2)[OF assms] assms
    by (simp add: take_capsule_header add.commute)
qed

text \<open>A capsule of a type the tunnel does not carry is consumed whole and reported as nothing,
  and what follows it is left in place: an unknown record does not desynchronise the stream.\<close>

theorem take_capsule_skips_unknown:
  assumes "t \<noteq> DATAGRAM" "t \<le> varint_MAX" "length payload \<le> 65535"
  shows "take_capsule (varint_put (varint_put [] t) (of_nat (length payload)) @ payload @ rest)
    = Ok (Some None, rest)"
proof -
  have u: "unat (of_nat (length payload) :: u64) = length payload"
    using assms by (simp add: unat_of_nat)
  have "varint_put (varint_put [] t) (of_nat (length payload)) @ payload @ rest =
      varint_put [] t @ varint_put [] (of_nat (length payload)) @ payload @ rest"
    by (simp add: varint_put_append[of "varint_put [] t"])
  then show ?thesis
    using capsule_header_encode[of "of_nat (length payload)" t "payload @ rest"] assms u
    by (simp add: take_capsule_header)
qed

theorem take_capsule_skips_unknown_witness:
  "take_capsule (varint_put (varint_put [] 42) (of_nat (length [120 :: u8, 121, 122])) @ [120, 121, 122] @ [0, 1, 7])
    = Ok (Some None, [0, 1, 7 :: u8])"
  by (rule take_capsule_skips_unknown) (simp_all add: DATAGRAM_def varint_MAX_def)

text \<open>A reader that waits has consumed nothing, and never holds more than the two header
  integers and one capsule: what an endpoint can make this side buffer is bounded, whatever length
  it declares.\<close>

theorem take_capsule_waits_bounded:
  assumes "take_capsule buf = Ok (None, buf')"
  shows "buf' = buf \<and> length buf < 16 + 65535"
proof -
  have "length buf < 16 + 65535"
  proof (cases "capsule_header buf")
    case None
    then show ?thesis
      by (auto simp: capsule_header_def split: option.splits
          dest!: varint_get_None varint_get_used(2))
  next
    case (Some h)
    obtain t l n where h: "h = (t, l, n)" by (cases h)
    have "\<not> MAX_CAPSULE < l \<and> length buf < n + unat l"
      using assms Some by (auto simp: h take_capsule_header split: if_splits)
    then show ?thesis using capsule_header_used(2)[of buf t l n] Some
      by (simp add: h)
  qed
  with take_capsule_wait[OF assms] show ?thesis by simp
qed

theorem take_capsule_waits_bounded_witness:
  "([0, 64] :: bytes) = [0, 64] \<and> length ([0, 64] :: bytes) < 16 + 65535"
  by (rule take_capsule_waits_bounded) code_simp

text \<open>A refusal is decided by the header: the declared length is over the ceiling, and the
  sixteen bytes a header can take are enough to see it.\<close>

theorem take_capsule_refuses_on_header:
  assumes "take_capsule buf = Err (TooLong l)"
  shows "MAX_CAPSULE < l \<and> take_capsule (take 16 buf) = Err (TooLong l)"
proof -
  obtain t n where h: "capsule_header buf = Some (t, l, n)" and l: "MAX_CAPSULE < l"
    using assms by (auto simp: take_capsule_header split: option.splits if_splits)
  have "capsule_header (take n buf @ take (16 - n) (drop n buf)) = Some (t, l, n)"
    by (rule capsule_header_append[OF capsule_header_take[OF h]])
  moreover have "take n buf @ take (16 - n) (drop n buf) = take 16 buf"
    using capsule_header_used(2)[OF h] by (metis le_add_diff_inverse take_add)
  ultimately show ?thesis using l by (simp add: take_capsule_header)
qed

theorem take_capsule_refuses_on_header_witness:
  "MAX_CAPSULE < 65536 \<and>
   take_capsule (take 16 (0 # varint_put [] 65536 @ [1, 2, 3])) = Err (TooLong 65536)"
  by (rule take_capsule_refuses_on_header) code_simp

text \<open>C22. Where the stream was cut does not show: two deliveries of the same bytes, in any two
  sequences of chunks, give the same capsules and leave the reader in the same state.\<close>

theorem capsule_stream_chunk_independent:
  assumes "delivers take_capsule (@) [] cs rs z" "delivers take_capsule (@) [] cs' rs' z'"
    and "concat cs = concat cs'"
  shows "rs = rs' \<and> z = z'"
proof -
  have "drains take_capsule [] [] (Inr [])"
    by (rule drains_wait) (simp add: take_capsule_header capsule_header_def varint_get_def)
  then show ?thesis using capsules.delivers_chunk_independent[OF assms] by simp
qed

lemma capsule_example_whole:
  "delivers take_capsule (@) [] [[0, 1, 7]] [Some [7]] (Inr [])"
  by (rule delivers_chunk[where rs' = "[]" and rs = "[Some [7]]" and s' = "[]", simplified])
    (rule drains_take[where s' = "[]"] drains_wait delivers_end | code_simp)+

lemma capsule_example_cut:
  "delivers take_capsule (@) [] [[0], [1, 7]] [Some [7]] (Inr [])"
  by (rule delivers_chunk[where rs' = "[Some [7]]" and rs = "[]" and s' = "[0]", simplified]
      delivers_chunk[where rs' = "[]" and rs = "[Some [7]]" and s' = "[]", simplified]
      drains_take[where s' = "[]"] drains_wait delivers_end | code_simp)+

theorem capsule_stream_chunk_independent_witness:
  "[Some [7]] = [Some [7 :: u8]] \<and> (Inr [] :: too_long + bytes) = Inr []"
  by (rule capsule_stream_chunk_independent[OF capsule_example_whole capsule_example_cut]) simp

end
