(* ===== verification/Huffman.thy ===== *)
theory Huffman
  imports Masqr_Prelude
begin

text \<open>
  The Huffman code of HPACK and QPACK strings, \<open>src/transport/huffman.rs\<close>: the table of codes, the
  two tables derived from it at compile time, and the decoder, a bit at a time over the canonical
  ranges. Shown: the derived tables hand out exactly the listed codes, the decoder never indexes out
  of range or subtracts below zero although it checks no bound, and it returns a string exactly when
  the bits are that string's codes followed by at most seven ones.
\<close>

section \<open>Tables\<close>

text \<open>Code and length in bits, by symbol; 256 is the end-of-string symbol.\<close>

definition CODES :: "(u32 \<times> nat) list" where
  "CODES = [
     (0x1ff8, 13), (0x7fffd8, 23), (0xfffffe2, 28), (0xfffffe3, 28), (0xfffffe4, 28), (0xfffffe5, 28),
     (0xfffffe6, 28), (0xfffffe7, 28), (0xfffffe8, 28), (0xffffea, 24), (0x3ffffffc, 30), (0xfffffe9, 28),
     (0xfffffea, 28), (0x3ffffffd, 30), (0xfffffeb, 28), (0xfffffec, 28), (0xfffffed, 28), (0xfffffee, 28),
     (0xfffffef, 28), (0xffffff0, 28), (0xffffff1, 28), (0xffffff2, 28), (0x3ffffffe, 30), (0xffffff3, 28),
     (0xffffff4, 28), (0xffffff5, 28), (0xffffff6, 28), (0xffffff7, 28), (0xffffff8, 28), (0xffffff9, 28),
     (0xffffffa, 28), (0xffffffb, 28), (0x14, 6), (0x3f8, 10), (0x3f9, 10), (0xffa, 12),
     (0x1ff9, 13), (0x15, 6), (0xf8, 8), (0x7fa, 11), (0x3fa, 10), (0x3fb, 10),
     (0xf9, 8), (0x7fb, 11), (0xfa, 8), (0x16, 6), (0x17, 6), (0x18, 6),
     (0x0, 5), (0x1, 5), (0x2, 5), (0x19, 6), (0x1a, 6), (0x1b, 6),
     (0x1c, 6), (0x1d, 6), (0x1e, 6), (0x1f, 6), (0x5c, 7), (0xfb, 8),
     (0x7ffc, 15), (0x20, 6), (0xffb, 12), (0x3fc, 10), (0x1ffa, 13), (0x21, 6),
     (0x5d, 7), (0x5e, 7), (0x5f, 7), (0x60, 7), (0x61, 7), (0x62, 7),
     (0x63, 7), (0x64, 7), (0x65, 7), (0x66, 7), (0x67, 7), (0x68, 7),
     (0x69, 7), (0x6a, 7), (0x6b, 7), (0x6c, 7), (0x6d, 7), (0x6e, 7),
     (0x6f, 7), (0x70, 7), (0x71, 7), (0x72, 7), (0xfc, 8), (0x73, 7),
     (0xfd, 8), (0x1ffb, 13), (0x7fff0, 19), (0x1ffc, 13), (0x3ffc, 14), (0x22, 6),
     (0x7ffd, 15), (0x3, 5), (0x23, 6), (0x4, 5), (0x24, 6), (0x5, 5),
     (0x25, 6), (0x26, 6), (0x27, 6), (0x6, 5), (0x74, 7), (0x75, 7),
     (0x28, 6), (0x29, 6), (0x2a, 6), (0x7, 5), (0x2b, 6), (0x76, 7),
     (0x2c, 6), (0x8, 5), (0x9, 5), (0x2d, 6), (0x77, 7), (0x78, 7),
     (0x79, 7), (0x7a, 7), (0x7b, 7), (0x7ffe, 15), (0x7fc, 11), (0x3ffd, 14),
     (0x1ffd, 13), (0xffffffc, 28), (0xfffe6, 20), (0x3fffd2, 22), (0xfffe7, 20), (0xfffe8, 20),
     (0x3fffd3, 22), (0x3fffd4, 22), (0x3fffd5, 22), (0x7fffd9, 23), (0x3fffd6, 22), (0x7fffda, 23),
     (0x7fffdb, 23), (0x7fffdc, 23), (0x7fffdd, 23), (0x7fffde, 23), (0xffffeb, 24), (0x7fffdf, 23),
     (0xffffec, 24), (0xffffed, 24), (0x3fffd7, 22), (0x7fffe0, 23), (0xffffee, 24), (0x7fffe1, 23),
     (0x7fffe2, 23), (0x7fffe3, 23), (0x7fffe4, 23), (0x1fffdc, 21), (0x3fffd8, 22), (0x7fffe5, 23),
     (0x3fffd9, 22), (0x7fffe6, 23), (0x7fffe7, 23), (0xffffef, 24), (0x3fffda, 22), (0x1fffdd, 21),
     (0xfffe9, 20), (0x3fffdb, 22), (0x3fffdc, 22), (0x7fffe8, 23), (0x7fffe9, 23), (0x1fffde, 21),
     (0x7fffea, 23), (0x3fffdd, 22), (0x3fffde, 22), (0xfffff0, 24), (0x1fffdf, 21), (0x3fffdf, 22),
     (0x7fffeb, 23), (0x7fffec, 23), (0x1fffe0, 21), (0x1fffe1, 21), (0x3fffe0, 22), (0x1fffe2, 21),
     (0x7fffed, 23), (0x3fffe1, 22), (0x7fffee, 23), (0x7fffef, 23), (0xfffea, 20), (0x3fffe2, 22),
     (0x3fffe3, 22), (0x3fffe4, 22), (0x7ffff0, 23), (0x3fffe5, 22), (0x3fffe6, 22), (0x7ffff1, 23),
     (0x3ffffe0, 26), (0x3ffffe1, 26), (0xfffeb, 20), (0x7fff1, 19), (0x3fffe7, 22), (0x7ffff2, 23),
     (0x3fffe8, 22), (0x1ffffec, 25), (0x3ffffe2, 26), (0x3ffffe3, 26), (0x3ffffe4, 26), (0x7ffffde, 27),
     (0x7ffffdf, 27), (0x3ffffe5, 26), (0xfffff1, 24), (0x1ffffed, 25), (0x7fff2, 19), (0x1fffe3, 21),
     (0x3ffffe6, 26), (0x7ffffe0, 27), (0x7ffffe1, 27), (0x3ffffe7, 26), (0x7ffffe2, 27), (0xfffff2, 24),
     (0x1fffe4, 21), (0x1fffe5, 21), (0x3ffffe8, 26), (0x3ffffe9, 26), (0xffffffd, 28), (0x7ffffe3, 27),
     (0x7ffffe4, 27), (0x7ffffe5, 27), (0xfffec, 20), (0xfffff3, 24), (0xfffed, 20), (0x1fffe6, 21),
     (0x3fffe9, 22), (0x1fffe7, 21), (0x1fffe8, 21), (0x7ffff3, 23), (0x3fffea, 22), (0x3fffeb, 22),
     (0x1ffffee, 25), (0x1ffffef, 25), (0xfffff4, 24), (0xfffff5, 24), (0x3ffffea, 26), (0x7ffff4, 23),
     (0x3ffffeb, 26), (0x7ffffe6, 27), (0x3ffffec, 26), (0x3ffffed, 26), (0x7ffffe7, 27), (0x7ffffe8, 27),
     (0x7ffffe9, 27), (0x7ffffea, 27), (0x7ffffeb, 27), (0xffffffe, 28), (0x7ffffec, 27), (0x7ffffed, 27),
     (0x7ffffee, 27), (0x7ffffef, 27), (0x7fffff0, 27), (0x3ffffee, 26), (0x3fffffff, 30)]"

definition EOS :: u16 where
  "EOS = 256"

definition LONGEST :: nat where
  "LONGEST = 30"

text \<open>How many symbols have a code of each length.\<close>

definition COUNT :: "u16 list" where
  "COUNT = foldl (\<lambda>count (_, l). count[l := count ! l + 1]) (replicate (LONGEST + 1) 0) CODES"

text \<open>The symbols ordered by code length and, within one length, by symbol.\<close>

definition NEXT :: "u16 list" where
  "NEXT = foldl (\<lambda>next l. next[l := next ! (l - 1) + COUNT ! (l - 1)])
     (replicate (LONGEST + 1) 0) [1..<LONGEST + 1]"

definition place_symbol :: "u16 list \<times> u16 list \<times> u16 \<Rightarrow> u32 \<times> nat \<Rightarrow> u16 list \<times> u16 list \<times> u16" where
  "place_symbol = (\<lambda>(symbols, next, symbol) (_, l).
     (symbols[unat (next ! l) := symbol], next[l := next ! l + 1], symbol + 1))"

definition SYMBOLS :: "u16 list" where
  "SYMBOLS = fst (foldl place_symbol (replicate 257 0, NEXT, 0) CODES)"

section \<open>The decoder\<close>

datatype huffman_error = Eos | Padding

record decoder =
  h_out :: bytes
  h_code :: u32
  h_first :: u32
  h_index :: nat
  h_length :: nat
  h_all_ones :: bool

definition decoder_new :: "bytes \<Rightarrow> decoder" where
  "decoder_new out = \<lparr>h_out = out, h_code = 0, h_first = 0, h_index = 0, h_length = 0, h_all_ones = True\<rparr>"

text \<open>The body of the inner loop for one bit. The subtraction \<open>code - first\<close> is checked, and so are
  both table lookups.\<close>

definition huffman_step :: "decoder \<Rightarrow> bool \<Rightarrow> (huffman_error, decoder) outcome" where
  "huffman_step d b =
     (let code = h_code d OR (if b then 1 else 0);
          all_ones = (h_all_ones d \<and> b);
          length = h_length d + 1 in
      and_then (index COUNT length) (\<lambda>count16.
      let count = (ucast count16 :: u32) in
      if code < h_first d then Panic
      else if code - h_first d < count then
        and_then (index SYMBOLS (h_index d + unat (code - h_first d))) (\<lambda>symbol.
          if symbol = EOS then Err Eos
          else Ok (decoder_new (h_out d @ [ucast symbol])))
      else
        Ok \<lparr>h_out = h_out d, h_code = push_bit 1 code, h_first = push_bit 1 (h_first d + count),
            h_index = h_index d + unat count, h_length = length, h_all_ones = all_ones\<rparr>))"

fun huffman_run :: "decoder \<Rightarrow> bool list \<Rightarrow> (huffman_error, decoder) outcome" where
  "huffman_run d [] = Ok d"
| "huffman_run d (b # bs) = and_then (huffman_step d b) (\<lambda>d. huffman_run d bs)"

text \<open>The bits of the input, most significant first: the order the two nested loops read them.\<close>

definition bits_of :: "u8 \<Rightarrow> bool list" where
  "bits_of byte = map (\<lambda>shift. bit byte shift) (rev [0..<8])"

definition huffman_decode :: "bytes \<Rightarrow> (huffman_error, bytes) outcome" where
  "huffman_decode input =
     and_then (huffman_run (decoder_new []) (concat (map bits_of input))) (\<lambda>d.
       if h_length d > 7 \<or> \<not> h_all_ones d then Err Padding else Ok (h_out d))"

section \<open>The tables hand out the listed codes\<close>

lemma COUNT_eq: "COUNT =
    [0,0,0,0,0,10,26,32,6,0,5,3,2,6,2,3,0,0,0,3,8,13,26,29,12,4,15,19,29,0,4]"
  by code_simp

lemma SYMBOLS_eq: "SYMBOLS = [
      48, 49, 50, 97, 99, 101, 105, 111, 115, 116, 32, 37, 45, 46, 47, 51, 52, 53, 54, 55,
      56, 57, 61, 65, 95, 98, 100, 102, 103, 104, 108, 109, 110, 112, 114, 117, 58, 66, 67, 68,
      69, 70, 71, 72, 73, 74, 75, 76, 77, 78, 79, 80, 81, 82, 83, 84, 85, 86, 87, 89,
      106, 107, 113, 118, 119, 120, 121, 122, 38, 42, 44, 59, 88, 90, 33, 34, 40, 41, 63, 39,
      43, 124, 35, 62, 0, 36, 64, 91, 93, 126, 94, 125, 60, 96, 123, 92, 195, 208, 128, 130,
      131, 162, 184, 194, 224, 226, 153, 161, 167, 172, 176, 177, 179, 209, 216, 217, 227, 229, 230, 129,
      132, 133, 134, 136, 146, 154, 156, 160, 163, 164, 169, 170, 173, 178, 181, 185, 186, 187, 189, 190,
      196, 198, 228, 232, 233, 1, 135, 137, 138, 139, 140, 141, 143, 147, 149, 150, 151, 152, 155, 157,
      158, 165, 166, 168, 174, 175, 180, 182, 183, 188, 191, 197, 231, 239, 9, 142, 144, 145, 148, 159,
      171, 206, 215, 225, 236, 237, 199, 207, 234, 235, 192, 193, 200, 201, 202, 205, 210, 213, 218, 219,
      238, 240, 242, 243, 255, 203, 204, 211, 212, 214, 221, 222, 223, 241, 244, 245, 246, 247, 248, 250,
      251, 252, 253, 254, 2, 3, 4, 5, 6, 7, 8, 11, 12, 14, 15, 16, 17, 18, 19, 20,
      21, 23, 24, 25, 26, 27, 28, 29, 30, 31, 127, 220, 249, 10, 13, 22, 256]"
  by code_simp

text \<open>The codes handed out at one length are consecutive, and each length starts where the last one
  ended, shifted.\<close>

fun handed_out :: "nat \<Rightarrow> u32 \<Rightarrow> nat \<Rightarrow> (u32 \<times> nat) list" where
  "handed_out l f 0 = []"
| "handed_out l f (Suc n) = (f, l) # handed_out l (f + 1) n"

fun canonical :: "nat \<Rightarrow> u32 \<Rightarrow> u16 list \<Rightarrow> (u32 \<times> nat) list" where
  "canonical l f [] = []"
| "canonical l f (n # ns) = handed_out l f (unat n) @ canonical (l + 1) (push_bit 1 (f + ucast n)) ns"

lemma codes_canonical: "map (\<lambda>s. CODES ! unat s) SYMBOLS = canonical 0 0 COUNT"
  unfolding SYMBOLS_eq COUNT_eq by code_simp

lemma symbols_small: "list_all (\<lambda>s. s \<le> 256) SYMBOLS"
  unfolding SYMBOLS_eq by code_simp

lemma length_COUNT [simp]: "length COUNT = 31"
  by (simp add: COUNT_eq)

lemma length_SYMBOLS [simp]: "length SYMBOLS = 257"
  by (simp add: SYMBOLS_eq)

lemma length_CODES [simp]: "length CODES = 257"
  by (simp add: CODES_def)

text \<open>The same ranges on naturals: how many codes a length has, the first of them, and the place of
  its symbol.\<close>

definition cnt :: "nat \<Rightarrow> nat" where
  "cnt l = unat (COUNT ! l)"

primrec code_start :: "nat \<Rightarrow> nat" where
  "code_start 0 = 0"
| "code_start (Suc l) = 2 * (code_start l + cnt l)"

primrec code_place :: "nat \<Rightarrow> nat" where
  "code_place 0 = 0"
| "code_place (Suc l) = code_place l + cnt l"

lemma code_start_numeral:
  "code_start (numeral k) = 2 * (code_start (pred_numeral k) + cnt (pred_numeral k))"
  by (simp add: numeral_eq_Suc)

lemma code_place_numeral:
  "code_place (numeral k) = code_place (pred_numeral k) + cnt (pred_numeral k)"
  by (simp add: numeral_eq_Suc)

text \<open>Kraft's sum is one: the thirty-bit codes end at the last thirty-bit number.\<close>

lemma kraft: "code_start 30 + cnt 30 = 2 ^ 30"
  by (simp add: code_start_numeral cnt_def COUNT_eq)

lemma code_start_bound:
  assumes "l \<le> 30" shows "code_start l + cnt l \<le> 2 ^ l"
  using assms
proof (induction "30 - l" arbitrary: l)
  case 0
  then have "l = 30" by simp
  then show ?case using kraft by simp
next
  case (Suc n)
  then have "code_start (Suc l) + cnt (Suc l) \<le> 2 ^ Suc l" by (metis diff_Suc_1 diff_Suc_eq_diff_pred Suc_leI zero_less_Suc zero_less_diff diff_diff_left plus_1_eq_Suc add.commute)
  then show ?case by simp
qed

lemma handed_out_map:
  "handed_out l (of_nat f) n = map (\<lambda>j. (of_nat (f + j), l)) [0..<n]"
proof (induction n arbitrary: f)
  case (Suc n)
  have "handed_out l (of_nat f + 1) n = map (\<lambda>j. (of_nat (f + Suc j), l)) [0..<n]"
    using Suc[of "Suc f"] by (simp add: ac_simps)
  moreover have "[0..<Suc n] = 0 # map Suc [0..<n]"
    by (simp only: upt_conv_Cons[OF zero_less_Suc] map_Suc_upt)
  ultimately show ?case by (simp add: comp_def del: upt_Suc)
qed simp

lemma canonical_concat:
  assumes "l \<le> 31"
  shows "canonical l (of_nat (code_start l)) (drop l COUNT) =
    concat (map (\<lambda>l. map (\<lambda>j. (of_nat (code_start l + j), l)) [0..<cnt l]) [l..<31])"
  using assms
proof (induction "31 - l" arbitrary: l)
  case 0
  then show ?case by (simp add: COUNT_eq)
next
  case (Suc n)
  then have l: "l < 31" by simp
  have d: "drop l COUNT = COUNT ! l # drop (Suc l) COUNT"
    using l by (simp add: Cons_nth_drop_Suc)
  have s: "push_bit 1 (of_nat (code_start l) + ucast (COUNT ! l)) =
      (of_nat (code_start (Suc l)) :: u32)"
    by (simp add: push_bit_eq_mult cnt_def)
  have tail: "canonical (Suc l) (of_nat (code_start (Suc l))) (drop (Suc l) COUNT) =
      concat (map (\<lambda>l. map (\<lambda>j. (of_nat (code_start l + j), l)) [0..<cnt l]) [Suc l..<31])"
    by (rule Suc.hyps(1)) (use Suc.hyps(2) l in auto)
  show ?case
    unfolding d canonical.simps s handed_out_map cnt_def[symmetric]
    by (simp only: tail Suc_eq_plus1[symmetric] upt_conv_Cons[OF l] list.map concat.simps)
qed

lemma nth_concat_upt:
  assumes "l < n" "j < length (g l)"
  shows "concat (map g [0..<n]) ! ((\<Sum>i<l. length (g i)) + j) = g l ! j"
    "(\<Sum>i<l. length (g i)) + j < length (concat (map g [0..<n]))"
proof -
  have len: "length (concat (map g [0..<m])) = (\<Sum>i<m. length (g i))" for m
    by (induction m) auto
  have "[0..<n] = [0..<l] @ l # [Suc l..<n]"
    using assms(1) upt_add_eq_append[of 0 l "n - l"] by (simp add: upt_conv_Cons)
  then have "concat (map g [0..<n]) = concat (map g [0..<l]) @ g l @ concat (map g [Suc l..<n])"
    by simp
  with assms(2) len[of l] show
    "concat (map g [0..<n]) ! ((\<Sum>i<l. length (g i)) + j) = g l ! j"
    "(\<Sum>i<l. length (g i)) + j < length (concat (map g [0..<n]))"
    by (simp_all add: nth_append)
qed

lemma symbol_at:
  assumes "l \<le> 30" "j < cnt l"
  shows "code_place l + j < 257"
    "CODES ! unat (SYMBOLS ! (code_place l + j)) = (of_nat (code_start l + j), l)"
proof -
  define g where "g l = map (\<lambda>j. (of_nat (code_start l + j) :: u32, l)) [0..<cnt l]" for l
  have p: "code_place l = (\<Sum>i<l. length (g i))" for l
    by (induction l) (auto simp: g_def)
  have c: "map (\<lambda>s. CODES ! unat s) SYMBOLS = concat (map g [0..<31])"
    using codes_canonical canonical_concat[of 0] by (simp add: g_def[abs_def])
  have l: "l < 31" "j < length (g l)" using assms by (simp_all add: g_def)
  note nth = nth_concat_upt[OF l(1), of j g, OF l(2), folded p c]
  show r: "code_place l + j < 257" using nth(2) by simp
  with nth(1) show "CODES ! unat (SYMBOLS ! (code_place l + j)) = (of_nat (code_start l + j), l)"
    using assms(2) by (simp add: g_def)
qed

lemma symbol_less: "p < 257 \<Longrightarrow> unat (SYMBOLS ! p) < 257"
  using symbols_small by (fastforce simp: list_all_length word_le_nat_alt)

text \<open>Every symbol has its place: the codes handed out are all different, so the 257 places hold 257
  different symbols.\<close>

lemma of_nat_u32_inj: "a < 2 ^ 32 \<Longrightarrow> b < 2 ^ 32 \<Longrightarrow> (of_nat a :: u32) = of_nat b \<longleftrightarrow> a = b"
  by (auto simp: word_unat_eq_iff unat_of_nat)

lemma code_start_less: "l \<le> 30 \<Longrightarrow> j < cnt l \<Longrightarrow> code_start l + j < 2 ^ l"
  using code_start_bound[of l] by simp

lemma code_start_u32: "l \<le> 30 \<Longrightarrow> j < cnt l \<Longrightarrow> code_start l + j < 2 ^ 32"
  using code_start_less[of l j] power_increasing[of l 32 "2::nat"] by simp

lemma distinct_codes:
  assumes "n \<le> 31"
  shows "distinct (concat (map (\<lambda>l. map (\<lambda>j. (of_nat (code_start l + j) :: u32, l)) [0..<cnt l]) [0..<n]))"
  using assms
proof (induction n)
  case (Suc n)
  have "inj_on (\<lambda>j. (of_nat (code_start n + j) :: u32, n)) {0..<cnt n}"
  proof (rule inj_onI)
    fix x y assume "x \<in> {0..<cnt n}" "y \<in> {0..<cnt n}"
      "(of_nat (code_start n + x) :: u32, n) = (of_nat (code_start n + y), n)"
    then show "x = y"
      using of_nat_u32_inj[OF code_start_u32[of n x] code_start_u32[of n y]] Suc.prems
      by (simp del: of_nat_add)
  qed
  then show ?case using Suc by (auto simp: distinct_map simp del: of_nat_add)
qed simp

lemma symbol_place:
  assumes "s < 257"
  obtains l j where "l \<le> 30" "j < cnt l" "unat (SYMBOLS ! (code_place l + j)) = s"
    "CODES ! s = (of_nat (code_start l + j), l)"
proof -
  define g where "g l = map (\<lambda>j. (of_nat (code_start l + j) :: u32, l)) [0..<cnt l]" for l
  have p: "code_place l = (\<Sum>i<l. length (g i))" for l
    by (induction l) (auto simp: g_def)
  have c: "map (\<lambda>s. CODES ! unat s) SYMBOLS = concat (map g [0..<31])"
    using codes_canonical canonical_concat[of 0] by (simp add: g_def[abs_def])
  have "distinct (map (\<lambda>s. CODES ! unat s) SYMBOLS)"
    unfolding c g_def by (rule distinct_codes) simp
  then have "distinct (map unat SYMBOLS)"
    using distinct_map[of "\<lambda>s. CODES ! unat s" SYMBOLS] by (auto simp: distinct_map intro!: inj_onI word_unat_eq_iff[THEN iffD2])
  then have "card (set (map unat SYMBOLS)) = card {..<257::nat}"
    using distinct_card[of "map unat SYMBOLS"] by simp
  moreover have "set (map unat SYMBOLS) \<subseteq> {..<257}"
    using symbol_less by (auto simp: in_set_conv_nth)
  ultimately have "set (map unat SYMBOLS) = {..<257}"
    by (intro card_subset_eq) auto
  with assms obtain q where q: "q < 257" "unat (SYMBOLS ! q) = s"
    by (metis (no_types, opaque_lifting) in_set_conv_nth length_SYMBOLS length_map lessThan_iff nth_map)
  have total: "length (concat (map g [0..<31])) = 257" unfolding c[symmetric] by simp
  have "\<exists>l<n. \<exists>j<cnt l. q = code_place l + j" if "q < code_place n" for n q
    using that
  proof (induction n)
    case (Suc n)
    show ?case
    proof (cases "q < code_place n")
      case False
      then have "n < Suc n \<and> q - code_place n < cnt n \<and> q = code_place n + (q - code_place n)"
        using Suc.prems by auto
      then show ?thesis by blast
    qed (use Suc less_Suc_eq in blast)
  qed simp
  moreover have "code_place 31 = 257"
    using total unfolding p by (simp add: length_concat comp_def sum_list_sum_nth atLeast0LessThan)
  ultimately obtain l j where l: "l < 31" "j < cnt l" "q = code_place l + j" using q(1) by metis
  then show thesis using that[of l j] symbol_at[of l j] q by simp
qed

section \<open>Bits and codes\<close>

definition bval :: "bool list \<Rightarrow> nat" where
  "bval bs = foldl (\<lambda>v b. 2 * v + of_bool b) 0 bs"

text \<open>The code the table lists for a symbol, as bits, and the code of a string.\<close>

definition code_bits :: "nat \<Rightarrow> bool list" where
  "code_bits s = (case CODES ! s of (c, l) \<Rightarrow> map (bit c) (rev [0..<l]))"

definition string_bits :: "bytes \<Rightarrow> bool list" where
  "string_bits s = concat (map (\<lambda>b. code_bits (unat b)) s)"

lemma bval_Nil [simp]: "bval [] = 0"
  by (simp add: bval_def)

lemma bval_snoc [simp]: "bval (bs @ [b]) = 2 * bval bs + of_bool b"
  by (simp add: bval_def)

lemma bval_less: "bval bs < 2 ^ length bs"
  by (induction bs rule: rev_induct) (auto simp: of_bool_def)

lemma bval_Cons: "bval (b # bs) = of_bool b * 2 ^ length bs + bval bs"
proof (induction bs rule: rev_induct)
  case (snoc x xs)
  have "bval ((b # xs) @ [x]) = 2 * bval (b # xs) + of_bool x" by (rule bval_snoc)
  then show ?case using snoc by simp
qed (simp add: bval_def)

lemma bval_inj: "length p = length q \<Longrightarrow> bval p = bval q \<Longrightarrow> p = q"
proof (induction p arbitrary: q rule: rev_induct)
  case (snoc b p)
  then obtain q' c where q: "q = q' @ [c]" by (cases q rule: rev_cases) auto
  have "bval p = bval q' \<and> b = c"
    using snoc.prems(2) by (cases b; cases c) (simp_all add: q, presburger+)
  then show ?case using snoc q by simp
qed simp

lemma bval_map_bit: "bval (map (bit w) (rev [0..<l])) = take_bit l (unat (w :: u32))"
proof (induction l)
  case (Suc l)
  have "bit (unat w) l = bit w l"
    by (auto simp: bit_unsigned_iff dest: bit_imp_le_length)
  then show ?case using Suc by (simp add: bval_Cons take_bit_Suc_from_most)
qed simp

lemma code_bits_place:
  assumes "l \<le> 30" "j < cnt l" "CODES ! s = (of_nat (code_start l + j), l)"
  shows "length (code_bits s) = l" "bval (code_bits s) = code_start l + j"
proof -
  show "length (code_bits s) = l" by (simp add: code_bits_def assms(3) del: of_nat_add)
  have "unat (of_nat (code_start l + j) :: u32) = code_start l + j"
    using code_start_u32[OF assms(1,2)] by (simp add: unat_of_nat del: of_nat_add)
  then show "bval (code_bits s) = code_start l + j"
    using code_start_less[OF assms(1,2)]
    by (simp add: code_bits_def assms(3) bval_map_bit take_bit_nat_eq_self del: of_nat_add)
qed

text \<open>The bits read since the last symbol: no code ends in them, and one can still.\<close>

definition code_open :: "bool list \<Rightarrow> bool" where
  "code_open p \<longleftrightarrow> length p < 30 \<and> code_start (length p) + cnt (length p) \<le> bval p"

lemma code_open_prefix:
  assumes "code_start (length (p @ r)) \<le> bval (p @ r)" "length (p @ r) \<le> 30" "r \<noteq> []"
  shows "code_open p"
  using assms
proof (induction r rule: rev_induct)
  case (snoc b r)
  then have le: "code_start (length (p @ r)) + cnt (length (p @ r)) \<le> bval (p @ r)"
    by (simp flip: append_assoc) (auto split: if_splits simp: of_bool_def)
  show ?case
  proof (cases "r = []")
    case True
    with le snoc.prems show ?thesis by (simp add: code_open_def)
  next
    case False
    with le snoc show ?thesis by simp
  qed
qed simp

lemma code_open_prefixes: "code_open (p @ r) \<Longrightarrow> code_open p"
  using code_open_prefix[of p r] by (cases "r = []") (auto simp: code_open_def)

lemma code_bits_open:
  assumes "s < 257" "code_bits s = p @ r" "r \<noteq> []" shows "code_open p"
proof -
  from symbol_place[OF assms(1)] obtain l j where l: "l \<le> 30" "j < cnt l"
    "CODES ! s = (of_nat (code_start l + j), l)" by metis
  from code_bits_place[OF l] code_open_prefix[of p r] assms l show ?thesis by simp
qed

lemma cnt_0 [simp]: "cnt 0 = 0"
  by (simp add: cnt_def COUNT_eq)

section \<open>The decoder, bit by bit\<close>

definition huffman_pending :: "bytes \<Rightarrow> bool list \<Rightarrow> decoder" where
  "huffman_pending out p = \<lparr>h_out = out, h_code = of_nat (2 * bval p),
     h_first = of_nat (code_start (Suc (length p))), h_index = code_place (Suc (length p)),
     h_length = length p, h_all_ones = list_all id p\<rparr>"

lemma decoder_new_pending: "decoder_new out = huffman_pending out []"
  by (simp add: decoder_new_def huffman_pending_def)

lemma code_or_bit:
  assumes "v < 2 ^ 30"
  shows "(of_nat (2 * v) OR (if b then 1 else 0) :: u32) = of_nat (2 * v + of_bool b)"
proof -
  have "bit (of_nat (2 * v) :: u32) 0 = False" by (simp add: bit_0)
  then have "(of_nat (2 * v) :: u32) OR 1 = of_nat (2 * v) + 1"
    by (intro disjunctive_add[symmetric]) (auto simp: bit_1_iff intro!: gr0I)
  then show ?thesis by simp
qed

lemma huffman_step_pending:
  assumes p: "code_open p" and q: "q = p @ [b]" "l = length q"
  shows "huffman_step (huffman_pending out p) b =
    (if bval q < code_start l + cnt l then
       let symbol = SYMBOLS ! (code_place l + (bval q - code_start l)) in
       if symbol = EOS then Err Eos else Ok (huffman_pending (out @ [ucast symbol]) [])
     else Ok (huffman_pending out q))"
    "code_start l \<le> bval q" "l \<le> 30"
proof -
  have l: "l \<le> 30" "l = Suc (length p)" using p q by (auto simp: code_open_def)
  show "l \<le> 30" by (rule l(1))
  have c: "bval q < 2 ^ 30"
    using bval_less[of q] l(1) power_increasing[of l 30 "2::nat"] q(2) by simp
  have lo: "code_start l \<le> bval q"
    using p unfolding l(2) q(1) by (auto simp: code_open_def)
  then show "code_start l \<le> bval q" .
  have code: "(of_nat (2 * bval p) OR (if b then 1 else 0) :: u32) = of_nat (bval q)"
    using code_or_bit[of "bval p" b] bval_less[of p] p power_increasing[of "length p" 30 "2::nat"]
    unfolding q(1) by (simp add: code_open_def)
  have first: "unat (of_nat (code_start l) :: u32) = code_start l"
    using code_start_bound[OF l(1)] power_increasing[of l 30 "2::nat"] l(1)
    by (simp add: unat_of_nat)
  have cq: "unat (of_nat (bval q) :: u32) = bval q" using c by (simp add: unat_of_nat)
  have count: "(ucast (COUNT ! l) :: u32) = of_nat (cnt l)" by (simp add: cnt_def)
  have ucount: "unat (of_nat (cnt l) :: u32) = cnt l"
    by (simp add: cnt_def unat_ucast_up)
  have ge: "\<not> (of_nat (bval q) :: u32) < of_nat (code_start l)"
    using lo by (simp add: word_less_nat_alt first cq)
  have diff: "unat ((of_nat (bval q) :: u32) - of_nat (code_start l)) = bval q - code_start l"
    using ge by (simp add: unat_sub not_less first cq)
  have less: "(of_nat (bval q) :: u32) - of_nat (code_start l) < of_nat (cnt l) \<longleftrightarrow>
      bval q < code_start l + cnt l"
    using lo by (auto simp: word_less_nat_alt diff ucount)
  have place: "code_place l + (bval q - code_start l) < 257" if "bval q < code_start l + cnt l"
    using symbol_at(1)[OF l(1), of "bval q - code_start l"] lo that by simp
  have ones: "(list_all id p \<and> b) = list_all id q" by (simp add: q(1))
  have next_code: "push_bit 1 (of_nat (bval q) :: u32) = of_nat (2 * bval q)"
    by (simp add: push_bit_eq_mult)
  have next_first: "push_bit 1 (of_nat (code_start l) + of_nat (cnt l) :: u32) =
      of_nat (code_start (Suc l))"
    by (simp add: push_bit_eq_mult)
  show "huffman_step (huffman_pending out p) b =
    (if bval q < code_start l + cnt l then
       let symbol = SYMBOLS ! (code_place l + (bval q - code_start l)) in
       if symbol = EOS then Err Eos else Ok (huffman_pending (out @ [ucast symbol]) [])
     else Ok (huffman_pending out q))"
    unfolding huffman_step_def Let_def huffman_pending_def decoder.simps code count ones l(2)[symmetric]
      Suc_eq_plus1[symmetric]
    using l(1) ge place
    by (simp add: out_simps less diff ucount next_code next_first decoder_new_pending huffman_pending_def
        q(2)[symmetric] count code_place.simps del: of_nat_mult of_nat_add code_start.simps)
      (simp add: algebra_simps)
qed

lemma huffman_step_open:
  assumes "code_open p" "code_open (p @ [b])"
  shows "huffman_step (huffman_pending out p) b = Ok (huffman_pending out (p @ [b]))"
  using huffman_step_pending(1)[OF assms(1) refl refl] assms(2) by (simp add: code_open_def)

lemma huffman_step_symbol:
  assumes "s < 257" "code_bits s = p @ [b]"
  shows "huffman_step (huffman_pending out p) b =
    (if s = 256 then Err Eos else Ok (huffman_pending (out @ [of_nat s]) []))"
proof -
  have p: "code_open p" using code_bits_open[OF assms] by simp
  from symbol_place[OF assms(1)] obtain l j where l: "l \<le> 30" "j < cnt l"
    "unat (SYMBOLS ! (code_place l + j)) = s" "CODES ! s = (of_nat (code_start l + j), l)" by metis
  note place = code_bits_place[OF l(1,2,4)]
  have sym: "SYMBOLS ! (code_place l + j) = of_nat s" using l(3) by (simp flip: l(3))
  have eos: "(of_nat s :: u16) = EOS \<longleftrightarrow> s = 256"
    using assms(1) by (auto simp: EOS_def word_unat_eq_iff unat_of_nat)
  have "(ucast (of_nat s :: u16) :: u8) = of_nat s"
    by (simp add: word_unat_eq_iff unsigned_ucast_eq unat_of_nat take_bit_eq_mod mod_mod_cancel)
  moreover have "length (p @ [b]) = l" "bval (p @ [b]) = code_start l + j"
    using place assms(2) by simp_all
  ultimately show ?thesis
    using huffman_step_pending(1)[OF p refl refl, of out b] l(2)
    by (simp add: sym eos del: length_append bval_snoc)
qed

lemma string_bits_simps [simp]:
  "string_bits [] = []" "string_bits (b # s) = code_bits (unat b) @ string_bits s"
  "string_bits (s @ t) = string_bits s @ string_bits t"
  by (simp_all add: string_bits_def)

lemma huffman_run_symbol:
  assumes "s < 257" "code_bits s = p @ r" "r \<noteq> []"
  shows "huffman_run (huffman_pending out p) (r @ rest) =
    (if s = 256 then Err Eos else huffman_run (huffman_pending (out @ [of_nat s]) []) rest)"
  using assms(2,3)
proof (induction r arbitrary: p)
  case (Cons b r)
  show ?case
  proof (cases "r = []")
    case True
    with Cons.prems huffman_step_symbol[OF assms(1), of p b out] show ?thesis by simp
  next
    case False
    with Cons.prems have "code_open p" "code_open (p @ [b])"
      using code_bits_open[OF assms(1), of p "b # r"] code_bits_open[OF assms(1), of "p @ [b]" r]
      by simp_all
    then show ?thesis using Cons.IH[of "p @ [b]"] Cons.prems False
      by (simp add: huffman_step_open)
  qed
qed simp

lemma code_bits_not_Nil: "s < 257 \<Longrightarrow> code_bits s \<noteq> []"
  by (metis code_bits_place(1) cnt_0 gr_zeroI list.size(3) not_less_zero symbol_place)

lemma huffman_run_string:
  "huffman_run (huffman_pending out []) (string_bits s @ rest) = huffman_run (huffman_pending (out @ s) []) rest"
proof (induction s arbitrary: out)
  case (Cons b s)
  have "unat b < 257" "unat b \<noteq> 256" using unat_u8_less[of b] by simp_all
  then show ?case
    using huffman_run_symbol[of "unat b" "[]" "code_bits (unat b)" out "string_bits s @ rest"]
      code_bits_not_Nil[of "unat b"] Cons[of "out @ [b]"] by simp
qed simp

lemma huffman_run_open:
  "code_open (p @ r) \<Longrightarrow> huffman_run (huffman_pending out p) r = Ok (huffman_pending out (p @ r))"
proof (induction r arbitrary: p)
  case (Cons b r)
  have "code_open p" "code_open (p @ [b])"
    using Cons.prems code_open_prefixes[of p "b # r"] code_open_prefixes[of "p @ [b]" r] by simp_all
  then show ?case using Cons.IH[of "p @ [b]"] Cons.prems by (simp add: huffman_step_open)
qed simp

text \<open>Every run of bits reads in one way: codes, then either bits no code has ended in, or the code
  of the end-of-string symbol and whatever follows it.\<close>

lemma huffman_parse:
  "code_open p \<Longrightarrow> \<exists>s t. p @ bits = string_bits s @ t \<and> (code_open t \<or> (\<exists>rest. t = code_bits 256 @ rest))"
proof (induction bits arbitrary: p)
  case Nil
  then show ?case by (metis append.right_neutral append_Nil string_bits_simps(1))
next
  case (Cons b bits)
  define q where "q = p @ [b]"
  note step = huffman_step_pending(2,3)[OF Cons.prems q_def refl]
  have empty: "code_open []" using code_open_prefixes[of "[]" p] Cons.prems by simp
  show ?case
  proof (cases "bval q < code_start (length q) + cnt (length q)")
    case True
    define j where "j = bval q - code_start (length q)"
    have j: "j < cnt (length q)" using True step(1) by (simp add: j_def)
    define s where "s = unat (SYMBOLS ! (code_place (length q) + j))"
    have s: "s < 257" using symbol_less symbol_at(1)[OF step(2) j] by (simp add: s_def)
    note place = code_bits_place[OF step(2) j symbol_at(2)[OF step(2) j]]
    have qs: "code_bits s = q"
      by (rule bval_inj) (use place step(1) in \<open>simp_all add: s_def j_def\<close>)
    show ?thesis
    proof (cases "s = 256")
      case True
      then have "p @ b # bits = string_bits [] @ code_bits 256 @ bits" using qs by (simp add: q_def)
      then show ?thesis by blast
    next
      case False
      then have "unat (of_nat s :: u8) = s" using s by (simp add: unat_of_nat)
      moreover obtain s' t where "bits = string_bits s' @ t"
        "code_open t \<or> (\<exists>rest. t = code_bits 256 @ rest)"
        using Cons.IH[OF empty] by auto
      ultimately have "p @ b # bits = string_bits (of_nat s # s') @ t"
        using qs by (simp add: q_def)
      then show ?thesis using \<open>code_open t \<or> _\<close> by blast
    qed
  next
    case False
    then have "code_start (length q) + cnt (length q) \<le> bval q" by simp
    moreover have "length q \<noteq> 30" using calculation kraft bval_less[of q] by auto
    ultimately have "code_open q" using step(2) by (simp add: code_open_def)
    from Cons.IH[OF this] show ?thesis by (simp add: q_def)
  qed
qed

lemma huffman_run_cases:
  obtains (padding) s t where "bits = string_bits s @ t" "code_open t"
    "huffman_run (decoder_new []) bits = Ok (huffman_pending s t)"
  | (eos) s rest where "bits = string_bits s @ code_bits 256 @ rest"
    "huffman_run (decoder_new []) bits = Err Eos"
proof -
  have empty: "code_open []" by (simp add: code_open_def)
  obtain s t where b: "bits = string_bits s @ t" "code_open t \<or> (\<exists>rest. t = code_bits 256 @ rest)"
    using huffman_parse[OF empty, of bits] by auto
  have run: "huffman_run (decoder_new []) bits = huffman_run (huffman_pending s []) t"
    using huffman_run_string[of "[]" s t] by (simp add: b decoder_new_pending)
  show thesis
  proof (cases "code_open t")
    case True
    with run huffman_run_open[of "[]" t s] b padding show ?thesis by simp
  next
    case False
    then obtain rest where t: "t = code_bits 256 @ rest" using b by blast
    have "huffman_run (huffman_pending s []) t = Err Eos"
      using huffman_run_symbol[of 256 "[]" "code_bits 256" s rest] code_bits_not_Nil[of 256] t by simp
    with run b t eos show ?thesis by simp
  qed
qed

lemma eos_ones: "code_bits 256 = replicate 30 True"
  unfolding code_bits_def CODES_def by code_simp

lemma ones_open: "k < 30 \<Longrightarrow> code_open (replicate k True)"
  using code_bits_open[of 256 "replicate k True" "replicate (30 - k) True"]
  by (simp add: eos_ones flip: replicate_add)

section \<open>Properties\<close>

text \<open>C20. The decoder returns a string exactly when the bits of the input are the listed codes of that
  string's bytes followed by at most seven ones: the tables it derives from the lengths alone give
  back the code of the format, and padding is held to the rules.\<close>

theorem huffman_decode_iff:
  "huffman_decode input = Ok s \<longleftrightarrow>
     (\<exists>k\<le>7. concat (map bits_of input) = string_bits s @ replicate k True)"
proof
  assume ok: "huffman_decode input = Ok s"
  show "\<exists>k\<le>7. concat (map bits_of input) = string_bits s @ replicate k True"
  proof (cases rule: huffman_run_cases[of "concat (map bits_of input)"])
    case (padding s' t)
    then have "length t \<le> 7" "list_all id t" "s' = s"
      using ok by (auto simp: huffman_decode_def huffman_pending_def split: if_splits)
    moreover from this have "t = replicate (length t) True"
      by (intro replicate_eqI[symmetric, THEN sym]) (auto simp: list_all_iff)
    ultimately show ?thesis using padding(1) by metis
  next
    case (eos s' rest)
    then show ?thesis using ok by (simp add: huffman_decode_def)
  qed
next
  assume "\<exists>k\<le>7. concat (map bits_of input) = string_bits s @ replicate k True"
  then obtain k where k: "k \<le> 7" "concat (map bits_of input) = string_bits s @ replicate k True"
    by blast
  have "huffman_run (decoder_new []) (concat (map bits_of input)) = Ok (huffman_pending s (replicate k True))"
    using huffman_run_string[of "[]" s] huffman_run_open[of "[]" "replicate k True" s] ones_open[of k] k
    by (simp add: decoder_new_pending)
  then show "huffman_decode input = Ok s"
    using k(1) by (simp add: huffman_decode_def huffman_pending_def list_all_iff)
qed

text \<open>No input makes the decoder index its tables out of range or subtract below zero, although
  it checks neither: the code is complete, so thirty bits always end a symbol.\<close>

theorem huffman_decode_no_panic: "huffman_decode input \<noteq> Panic"
  by (cases rule: huffman_run_cases[of "concat (map bits_of input)"])
    (simp_all add: huffman_decode_def)

end
