(* ===== verification/Qpack.thy ===== *)
theory Qpack
  imports Huffman
begin

text \<open>
  QPACK field sections without a dynamic table, \<open>src/transport/qpack.rs\<close>: the static table, the
  prefixed integers, the string literals and the two codecs. Shown: whatever this side writes is read
  back exactly, a field section of any bytes is read without a panic, an integer never wraps, and a
  section that needs a dynamic table is refused.
\<close>

type_synonym field = "bytes \<times> bytes"

definition STATIC :: "field list" where
  "STATIC = [
     (ascii '':authority'', ascii ''''),
     (ascii '':path'', ascii ''/''),
     (ascii ''age'', ascii ''0''),
     (ascii ''content-disposition'', ascii ''''),
     (ascii ''content-length'', ascii ''0''),
     (ascii ''cookie'', ascii ''''),
     (ascii ''date'', ascii ''''),
     (ascii ''etag'', ascii ''''),
     (ascii ''if-modified-since'', ascii ''''),
     (ascii ''if-none-match'', ascii ''''),
     (ascii ''last-modified'', ascii ''''),
     (ascii ''link'', ascii ''''),
     (ascii ''location'', ascii ''''),
     (ascii ''referer'', ascii ''''),
     (ascii ''set-cookie'', ascii ''''),
     (ascii '':method'', ascii ''CONNECT''),
     (ascii '':method'', ascii ''DELETE''),
     (ascii '':method'', ascii ''GET''),
     (ascii '':method'', ascii ''HEAD''),
     (ascii '':method'', ascii ''OPTIONS''),
     (ascii '':method'', ascii ''POST''),
     (ascii '':method'', ascii ''PUT''),
     (ascii '':scheme'', ascii ''http''),
     (ascii '':scheme'', ascii ''https''),
     (ascii '':status'', ascii ''103''),
     (ascii '':status'', ascii ''200''),
     (ascii '':status'', ascii ''304''),
     (ascii '':status'', ascii ''404''),
     (ascii '':status'', ascii ''503''),
     (ascii ''accept'', ascii ''*/*''),
     (ascii ''accept'', ascii ''application/dns-message''),
     (ascii ''accept-encoding'', ascii ''gzip, deflate, br''),
     (ascii ''accept-ranges'', ascii ''bytes''),
     (ascii ''access-control-allow-headers'', ascii ''cache-control''),
     (ascii ''access-control-allow-headers'', ascii ''content-type''),
     (ascii ''access-control-allow-origin'', ascii ''*''),
     (ascii ''cache-control'', ascii ''max-age=0''),
     (ascii ''cache-control'', ascii ''max-age=2592000''),
     (ascii ''cache-control'', ascii ''max-age=604800''),
     (ascii ''cache-control'', ascii ''no-cache''),
     (ascii ''cache-control'', ascii ''no-store''),
     (ascii ''cache-control'', ascii ''public, max-age=31536000''),
     (ascii ''content-encoding'', ascii ''br''),
     (ascii ''content-encoding'', ascii ''gzip''),
     (ascii ''content-type'', ascii ''application/dns-message''),
     (ascii ''content-type'', ascii ''application/javascript''),
     (ascii ''content-type'', ascii ''application/json''),
     (ascii ''content-type'', ascii ''application/x-www-form-urlencoded''),
     (ascii ''content-type'', ascii ''image/gif''),
     (ascii ''content-type'', ascii ''image/jpeg''),
     (ascii ''content-type'', ascii ''image/png''),
     (ascii ''content-type'', ascii ''text/css''),
     (ascii ''content-type'', ascii ''text/html; charset=utf-8''),
     (ascii ''content-type'', ascii ''text/plain''),
     (ascii ''content-type'', ascii ''text/plain;charset=utf-8''),
     (ascii ''range'', ascii ''bytes=0-''),
     (ascii ''strict-transport-security'', ascii ''max-age=31536000''),
     (ascii ''strict-transport-security'', ascii ''max-age=31536000; includesubdomains''),
     (ascii ''strict-transport-security'', ascii ''max-age=31536000; includesubdomains; preload''),
     (ascii ''vary'', ascii ''accept-encoding''),
     (ascii ''vary'', ascii ''origin''),
     (ascii ''x-content-type-options'', ascii ''nosniff''),
     (ascii ''x-xss-protection'', ascii ''1; mode=block''),
     (ascii '':status'', ascii ''100''),
     (ascii '':status'', ascii ''204''),
     (ascii '':status'', ascii ''206''),
     (ascii '':status'', ascii ''302''),
     (ascii '':status'', ascii ''400''),
     (ascii '':status'', ascii ''403''),
     (ascii '':status'', ascii ''421''),
     (ascii '':status'', ascii ''425''),
     (ascii '':status'', ascii ''500''),
     (ascii ''accept-language'', ascii ''''),
     (ascii ''access-control-allow-credentials'', ascii ''FALSE''),
     (ascii ''access-control-allow-credentials'', ascii ''TRUE''),
     (ascii ''access-control-allow-headers'', ascii ''*''),
     (ascii ''access-control-allow-methods'', ascii ''get''),
     (ascii ''access-control-allow-methods'', ascii ''get, post, options''),
     (ascii ''access-control-allow-methods'', ascii ''options''),
     (ascii ''access-control-expose-headers'', ascii ''content-length''),
     (ascii ''access-control-request-headers'', ascii ''content-type''),
     (ascii ''access-control-request-method'', ascii ''get''),
     (ascii ''access-control-request-method'', ascii ''post''),
     (ascii ''alt-svc'', ascii ''clear''),
     (ascii ''authorization'', ascii ''''),
     (ascii ''content-security-policy'', ascii (''script-src '' @ CHR 0x27 # ''none'' @ CHR 0x27 # ''; object-src '' @ CHR 0x27 # ''none'' @ CHR 0x27 # ''; base-uri '' @ CHR 0x27 # ''none''  @ [CHR 0x27])),
     (ascii ''early-data'', ascii ''1''),
     (ascii ''expect-ct'', ascii ''''),
     (ascii ''forwarded'', ascii ''''),
     (ascii ''if-range'', ascii ''''),
     (ascii ''origin'', ascii ''''),
     (ascii ''purpose'', ascii ''prefetch''),
     (ascii ''server'', ascii ''''),
     (ascii ''timing-allow-origin'', ascii ''*''),
     (ascii ''upgrade-insecure-requests'', ascii ''1''),
     (ascii ''user-agent'', ascii ''''),
     (ascii ''x-forwarded-for'', ascii ''''),
     (ascii ''x-frame-options'', ascii ''deny''),
     (ascii ''x-frame-options'', ascii ''sameorigin'')]"

datatype qpack_error = Truncated | Dynamic | UnknownIndex u64 | Overflow | HuffmanString huffman_error

section \<open>Prefixed integers and string literals\<close>

text \<open>The loop of \<open>put_int\<close> over the seven-bit groups.\<close>

function put_groups :: "bytes \<Rightarrow> u64 \<Rightarrow> bytes" where
  "put_groups out rest =
     (if rest \<ge> 0x80 then put_groups (out @ [0x80 OR ucast (rest AND 0x7f)]) (drop_bit 7 rest)
      else out @ [ucast rest])"
  by pat_completeness auto
termination
proof (relation "measure (\<lambda>(_, rest). unat rest)", goal_cases)
  case (2 out rest)
  then have "128 \<le> unat rest" by (simp add: word_le_nat_alt)
  then show ?case by (simp add: drop_bit_eq_div unat_div)
qed simp

declare put_groups.simps [simp del]

definition int_max :: "nat \<Rightarrow> u64" where
  "int_max prefix = push_bit prefix 1 - 1"

definition put_int :: "bytes \<Rightarrow> nat \<Rightarrow> u8 \<Rightarrow> u64 \<Rightarrow> bytes" where
  "put_int out prefix flags value =
     (let max = int_max prefix in
      if value < max then out @ [flags OR ucast value]
      else put_groups (out @ [flags OR ucast max]) (value - max))"

text \<open>The loop of \<open>get_int\<close>: the remaining bytes, the shift, and the position of the next byte.\<close>

fun get_groups :: "u64 \<Rightarrow> nat \<Rightarrow> nat \<Rightarrow> bytes \<Rightarrow> (qpack_error, u64 \<times> nat) outcome" where
  "get_groups value shift pos [] = Err Truncated"
| "get_groups value shift pos (byte # bytes) =
     (if shift > 56 then Err Overflow
      else
        let value = value + push_bit shift (ucast (byte AND 0x7f)) in
        if byte AND 0x80 = 0 then Ok (value, pos + 1)
        else get_groups value (shift + 7) (pos + 1) bytes)"

definition get_int :: "bytes \<Rightarrow> nat \<Rightarrow> (qpack_error, u64 \<times> nat) outcome" where
  "get_int buf prefix =
     (let max = int_max prefix in
      and_then (ok_or (at buf 0) Truncated) (\<lambda>first.
      let value = ucast first AND max in
      if value < max then Ok (value, 1) else get_groups value 0 1 (tl buf)))"

definition put_string :: "bytes \<Rightarrow> bytes \<Rightarrow> bytes" where
  "put_string out value = put_int out 7 0 (of_nat (length value)) @ value"

definition get_string :: "bytes \<Rightarrow> nat \<Rightarrow> (qpack_error, bytes \<times> nat) outcome" where
  "get_string buf prefix =
     and_then (ok_or (at buf 0) Truncated) (\<lambda>first.
     let huffman = (first AND push_bit prefix 1 \<noteq> 0) in
     and_then (get_int buf prefix) (\<lambda>(length', used).
     and_then (ok_or (Option.bind (checked_add used (unat length'))
         (\<lambda>end'. if end' \<le> length buf then Some end' else None)) Truncated) (\<lambda>end'.
     and_then (slice used end' buf) (\<lambda>raw.
     and_then (if huffman then map_err HuffmanString (huffman_decode raw) else Ok raw) (\<lambda>value.
       Ok (value, end'))))))"

section \<open>Field sections\<close>

definition static_entry :: "u64 \<Rightarrow> (qpack_error, field) outcome" where
  "static_entry i = ok_or (at STATIC (unat i)) (UnknownIndex i)"

definition qpack_encode_field :: "bytes \<Rightarrow> field \<Rightarrow> bytes" where
  "qpack_encode_field out = (\<lambda>(name, value).
     (case position (\<lambda>entry. entry = (name, value)) STATIC of
        Some i \<Rightarrow> put_int out 6 0xc0 (of_nat i)
      | None \<Rightarrow> (case position (\<lambda>(known, _). known = name) STATIC of
            Some i \<Rightarrow> put_string (put_int out 4 0x50 (of_nat i)) value
          | None \<Rightarrow> put_string (put_int out 3 0x20 (of_nat (length name)) @ name) value)))"

definition qpack_encode :: "field list \<Rightarrow> bytes \<Rightarrow> bytes" where
  "qpack_encode fs out = foldl qpack_encode_field (out @ [0x00, 0x00]) fs"

text \<open>The body of the reading loop: one field line off the front.\<close>

definition qpack_decode_field :: "bytes \<Rightarrow> (qpack_error, field \<times> bytes) outcome" where
  "qpack_decode_field rest =
     and_then (index rest 0) (\<lambda>first.
     if first AND 0x80 \<noteq> 0 then
       (if first AND 0x40 = 0 then Err Dynamic
        else
          and_then (get_int rest 6) (\<lambda>(i, used).
          and_then (slice_from used rest) (\<lambda>rest.
          and_then (static_entry i) (\<lambda>(name, value). Ok ((name, value), rest)))))
     else if first AND 0x40 \<noteq> 0 then
       (if first AND 0x10 = 0 then Err Dynamic
        else
          and_then (get_int rest 4) (\<lambda>(i, used).
          and_then (slice_from used rest) (\<lambda>rest.
          and_then (static_entry i) (\<lambda>(name, _).
          and_then (get_string rest 7) (\<lambda>(value, used).
          and_then (slice_from used rest) (\<lambda>rest. Ok ((name, value), rest)))))))
     else if first AND 0x20 \<noteq> 0 then
       and_then (get_string rest 3) (\<lambda>(name, used).
       and_then (slice_from used rest) (\<lambda>rest.
       and_then (get_string rest 7) (\<lambda>(value, used).
       and_then (slice_from used rest) (\<lambda>rest. Ok ((name, value), rest)))))
     else Err Dynamic)"

section \<open>Readers stay in range\<close>

lemma int_max_mask: "int_max prefix = mask prefix"
  by (simp add: int_max_def mask_eq_exp_minus_1 push_bit_eq_mult)

lemma int_max_less: "unat (int_max p) < 2 ^ p"
  by (rule unat_less_bits) (simp add: int_max_mask bit_mask_iff)

lemma get_groups_used:
  "get_groups acc shift pos bytes = Ok (v, n) \<Longrightarrow> pos < n \<and> n \<le> pos + length bytes"
  by (induction acc shift pos bytes rule: get_groups.induct)
    (auto simp: Let_def split: if_splits)

lemma get_groups_no_panic: "get_groups acc shift pos bytes \<noteq> Panic"
  by (induction acc shift pos bytes rule: get_groups.induct) (auto simp: Let_def)

lemma get_int_used:
  "get_int buf prefix = Ok (v, n) \<Longrightarrow> 1 \<le> n \<and> n \<le> length buf"
  by (auto simp: get_int_def Let_def and_then_eq_Ok Suc_le_eq dest!: get_groups_used split: if_splits)

lemma get_int_no_panic: "get_int buf prefix \<noteq> Panic"
  by (auto simp: get_int_def Let_def and_then_eq_Panic get_groups_no_panic)

lemma get_string_used:
  "get_string buf prefix = Ok (s, n) \<Longrightarrow> 1 \<le> n \<and> n \<le> length buf"
  by (auto simp: get_string_def Let_def and_then_eq_Ok checked_add_nat bind_eq_Some_conv
      dest!: get_int_used split: if_splits)

lemma huffman_no_panic: "huffman_decode raw \<noteq> Panic"
  by (cases rule: huffman_run_cases[of "concat (map bits_of raw)"]) (simp_all add: huffman_decode_def)

lemma get_string_no_panic: "get_string buf prefix \<noteq> Panic"
  by (auto simp: get_string_def Let_def and_then_eq_Panic get_int_no_panic huffman_no_panic
      slice_def checked_add_nat bind_eq_Some_conv split: if_splits)

lemma static_entry_no_panic: "static_entry i \<noteq> Panic"
  by (simp add: static_entry_def)

lemma qpack_decode_field_progress:
  "qpack_decode_field rest = Ok (f, rest') \<Longrightarrow> length rest' < length rest"
  by (auto simp: qpack_decode_field_def and_then_eq_Ok slice_from_def index_def
      dest!: get_int_used get_string_used split: if_splits)

lemma qpack_decode_field_no_panic: "rest \<noteq> [] \<Longrightarrow> qpack_decode_field rest \<noteq> Panic"
  by (auto simp: qpack_decode_field_def and_then_eq_Panic and_then_eq_Ok slice_from_def index_def
      get_int_no_panic get_string_no_panic static_entry_no_panic
      dest!: get_int_used get_string_used split: if_splits)

function decode_fields :: "field list \<Rightarrow> bytes \<Rightarrow> (qpack_error, field list) outcome" where
  "decode_fields fs rest =
     (if rest = [] then Ok fs
      else and_then (qpack_decode_field rest) (\<lambda>(f, rest). decode_fields (fs @ [f]) rest))"
  by pat_completeness auto
termination
  by (relation "measure (\<lambda>(_, rest). length rest)") (auto dest: qpack_decode_field_progress)

declare decode_fields.simps [simp del]

definition qpack_decode :: "bytes \<Rightarrow> (qpack_error, field list) outcome" where
  "qpack_decode section =
     and_then (get_int section 8) (\<lambda>(required_insert_count, used).
     and_then (slice_from used section) (\<lambda>rest.
     if required_insert_count \<noteq> 0 then Err Dynamic
     else
       and_then (get_int rest 7) (\<lambda>(_, used).
       and_then (slice_from used rest) (\<lambda>rest. decode_fields [] rest))))"

lemma decode_fields_no_panic: "decode_fields fs rest \<noteq> Panic"
proof (induction fs rest rule: decode_fields.induct)
  case (1 fs rest)
  then show ?case
    by (subst decode_fields.simps) (auto simp: and_then_eq_Panic qpack_decode_field_no_panic)
qed

section \<open>Writing then reading\<close>

lemma drop_7_less: "v \<ge> 0x80 \<Longrightarrow> unat (drop_bit 7 v) < unat (v :: u64)"
  by (simp add: drop_bit_eq_div unat_div word_le_nat_alt)

lemma put_groups_append: "put_groups out v = out @ put_groups [] v"
proof (induction "unat v" arbitrary: out v rule: less_induct)
  case less
  show ?case
  proof (cases "v \<ge> 0x80")
    case True
    define b :: u8 where "b = 0x80 OR ucast (v AND 0x7f)"
    note ih = less[OF drop_7_less[OF True]]
    from ih[of "out @ [b]"] ih[of "[b]"] True show ?thesis
      by (simp add: put_groups.simps[of out v] put_groups.simps[of "[]" v] b_def)
  qed (simp add: put_groups.simps)
qed

lemma put_groups_simps:
  "v \<ge> 0x80 \<Longrightarrow> put_groups [] v = (0x80 OR ucast (v AND 0x7f)) # put_groups [] (drop_bit 7 v)"
  "\<not> v \<ge> 0x80 \<Longrightarrow> put_groups [] v = [ucast v]"
  by (simp_all add: put_groups.simps[of "[]" v] put_groups_append[of "[_]"])

lemma and_7f: "(b :: 'a::len word) AND 0x7f = take_bit 7 b"
  by (simp add: take_bit_eq_mask mask_eq_exp_minus_1)

lemma group_byte:
  fixes v :: u64
  shows "(ucast ((0x80 OR ucast (v AND 0x7f) :: u8) AND 0x7f) :: u64) = take_bit 7 v"
    "(0x80 OR ucast (v AND 0x7f) :: u8) AND 0x80 \<noteq> 0"
proof -
  have b: "bit (0x80 :: u8) j \<longleftrightarrow> j = 7" for j
    using bit_exp_iff[where 'a = "8 word", of 7 j] by (auto simp: bit_simps)
  show "(ucast ((0x80 OR ucast (v AND 0x7f) :: u8) AND 0x7f) :: u64) = take_bit 7 v"
    by (rule bit_word_eqI) (auto simp: and_7f bit_simps b)
  have "bit ((0x80 OR ucast (v AND 0x7f) :: u8) AND 0x80) 7" by (simp add: bit_simps b)
  then show "(0x80 OR ucast (v AND 0x7f) :: u8) AND 0x80 \<noteq> 0" by fastforce
qed

lemma last_byte:
  fixes v :: u64
  assumes "\<not> v \<ge> 0x80"
  shows "(ucast ((ucast v :: u8) AND 0x7f) :: u64) = v" "(ucast v :: u8) AND 0x80 = 0"
proof -
  have v: "unat v < 2 ^ 7" using assms by (simp add: word_le_nat_alt)
  note small = bit_unat_less[OF v]
  show "(ucast ((ucast v :: u8) AND 0x7f) :: u64) = v"
    by (rule bit_word_eqI) (use small in \<open>fastforce simp: and_7f bit_simps\<close>)
  have "\<not> bit (ucast v :: u8) 7" using small[of 7] by (auto simp: bit_simps)
  then show "(ucast v :: u8) AND 0x80 = 0"
    using and_exp_eq_0_iff_not_bit[of "ucast v :: u8" 7] by simp
qed

lemma get_put_groups:
  "unat r < 2 ^ (63 - 7 * i) \<Longrightarrow> i \<le> 8 \<Longrightarrow>
   get_groups acc (7 * i) pos (put_groups [] r @ rest) =
     Ok (acc + push_bit (7 * i) r, pos + length (put_groups [] r))"
proof (induction "unat r" arbitrary: acc i pos r rule: less_induct)
  case less
  show ?case
  proof (cases "r \<ge> 0x80")
    case True
    then have r: "128 \<le> unat r" by (simp add: word_le_nat_alt)
    have i: "i < 8" using less.prems r by (cases "i = 8") auto
    have "unat (drop_bit 7 r) < 2 ^ (63 - 7 * Suc i)"
    proof -
      have "63 - 7 * i = 7 + (63 - 7 * Suc i)" using i by simp
      then have "unat r < 2 ^ 7 * 2 ^ (63 - 7 * Suc i)" using less.prems(1) by (metis power_add)
      then show ?thesis by (simp add: drop_bit_eq_div unat_div less_mult_imp_div_less mult.commute)
    qed
    from less.hyps[OF drop_7_less[OF True] this, of "acc + push_bit (7 * i) (take_bit 7 r)" "pos + 1"] i
    have "get_groups (acc + push_bit (7 * i) (take_bit 7 r)) (7 * i + 7) (pos + 1)
        (put_groups [] (drop_bit 7 r) @ rest) =
      Ok (acc + push_bit (7 * i) (take_bit 7 r) + push_bit (7 * i + 7) (drop_bit 7 r),
        pos + 1 + length (put_groups [] (drop_bit 7 r)))" by (simp add: add.commute)
    moreover have "push_bit (7 * i) (take_bit 7 r) + push_bit (7 * i + 7) (drop_bit 7 r) =
        push_bit (7 * i) r"
    proof -
      have "push_bit 7 (drop_bit 7 r) + take_bit 7 r = r" by (rule bits_ident)
      then have "push_bit (7 * i) (push_bit 7 (drop_bit 7 r) + take_bit 7 r) = push_bit (7 * i) r"
        by simp
      then show ?thesis by (simp add: push_bit_add add.commute)
    qed
    ultimately show ?thesis using True i
      by (simp add: put_groups_simps group_byte add.assoc)
  next
    case False
    then show ?thesis using less.prems(2) by (simp add: put_groups_simps last_byte)
  qed
qed

lemma put_int_append: "put_int out p flags v = out @ put_int [] p flags v"
  by (simp add: put_int_def Let_def put_groups_append[of "out @ _"] put_groups_append[of "[_]"])

text \<open>The first byte of a prefixed integer keeps the flags above the prefix.\<close>

lemma put_int_first:
  obtains x bs where "put_int [] p flags v = (flags OR x) # bs" "\<And>j. p \<le> j \<Longrightarrow> \<not> bit x j"
proof (cases "v < int_max p")
  case True
  have "\<not> bit (ucast v :: u8) j" if "p \<le> j" for j
  proof
    assume "bit (ucast v :: u8) j"
    then have j: "bit v j" "j < 8" by (auto simp: bit_simps)
    have "unat v < 2 ^ p"
      using True int_max_less[of p] by (simp add: word_less_nat_alt)
    then show False using bit_unat_less[of v p j] j that by simp
  qed
  with True that[of "ucast v" "[]"] show ?thesis by (simp add: put_int_def Let_def)
next
  case False
  have "\<not> bit (ucast (int_max p) :: u8) j" if "p \<le> j" for j
    using that by (auto simp: int_max_mask bit_simps)
  with False that show ?thesis
    by (simp add: put_int_def Let_def put_groups_append[of "[_]"])
qed

lemma get_int_put_int:
  assumes p: "1 \<le> p" "p \<le> 8" and flags: "\<And>j. j < p \<Longrightarrow> \<not> bit flags j" and v: "unat v < 2 ^ 63"
  shows "get_int (put_int [] p flags v @ rest) p = Ok (v, length (put_int [] p flags v))"
proof (cases "v < int_max p")
  case True
  have "unat v < 2 ^ p" using True int_max_less[of p] by (simp add: word_less_nat_alt)
  note small = bit_unat_less[OF this]
  have "ucast (flags OR ucast v) AND int_max p = v"
    unfolding int_max_mask
    by (rule bit_word_eqI) (use small flags p in \<open>fastforce simp: bit_simps\<close>)
  with True show ?thesis by (simp add: put_int_def get_int_def Let_def at_def)
next
  case False
  define m where "m = int_max p"
  have m: "ucast (flags OR ucast m) AND m = m"
    unfolding m_def int_max_mask
    by (rule bit_word_eqI) (use flags p in \<open>auto simp: bit_simps\<close>)
  have "m \<le> v" using False by (simp add: m_def)
  then have "unat (v - m) < 2 ^ (63 - 7 * 0)" using v by (simp add: unat_sub)
  from get_put_groups[OF this, of m 1 rest] \<open>m \<le> v\<close> show ?thesis
    using m False
    by (simp add: put_int_def get_int_def Let_def at_def flip: m_def)
      (simp add: put_groups_append[of "[_]"])
qed

text \<open>The flag bits a reader tests are those the writer put above the prefix.\<close>

lemma and_flag: "(b :: u8) AND 0x80 = 0 \<longleftrightarrow> \<not> bit b 7" "b AND 0x40 = 0 \<longleftrightarrow> \<not> bit b 6"
  "b AND 0x20 = 0 \<longleftrightarrow> \<not> bit b 5" "b AND 0x10 = 0 \<longleftrightarrow> \<not> bit b 4"
  "b AND 2 ^ n = 0 \<longleftrightarrow> \<not> bit b n"
  using and_exp_eq_0_iff_not_bit[of b 7] and_exp_eq_0_iff_not_bit[of b 6]
    and_exp_eq_0_iff_not_bit[of b 5] and_exp_eq_0_iff_not_bit[of b 4]
    and_exp_eq_0_iff_not_bit[of b n] by simp_all

lemma get_string_put:
  assumes p: "1 \<le> p" "p \<le> 7" and flags: "\<And>j. j \<le> p \<Longrightarrow> \<not> bit flags j"
    and s: "length s < 2 ^ 62"
  shows "get_string ((put_int [] p flags (of_nat (length s)) @ s) @ rest) p =
    Ok (s, length (put_int [] p flags (of_nat (length s)) @ s))"
proof -
  define h where "h = put_int [] p flags (of_nat (length s))"
  have u: "unat (of_nat (length s) :: u64) = length s" using s by (simp add: unat_of_nat)
  have g: "get_int (h @ s @ rest) p = Ok (of_nat (length s), length h)"
    unfolding h_def by (rule get_int_put_int) (use p flags s u in auto)
  obtain x bs where h: "h = (flags OR x) # bs" "\<And>j. p \<le> j \<Longrightarrow> \<not> bit x j"
    unfolding h_def by (rule put_int_first[of p flags "of_nat (length s)"]) blast
  have "(flags OR x) AND push_bit p 1 = 0"
    using h(2)[of p] flags[of p] by (simp add: and_flag bit_simps)
  moreover have "length h \<le> 11"
  proof -
    have "length (put_groups [] r) \<le> 10" for r :: u64
    proof -
      have "unat r < 2 ^ (7 * n) \<Longrightarrow> 1 \<le> n \<Longrightarrow> length (put_groups [] r) \<le> n" for n
      proof (induction n arbitrary: r)
        case (Suc n)
        show ?case
        proof (cases "r \<ge> 0x80")
          case True
          have "unat (drop_bit 7 r) < 2 ^ (7 * n)"
          proof -
            have "unat r < 2 ^ (7 * n) * 128" using Suc.prems(1) by (simp add: power_add)
            then show ?thesis by (simp add: drop_bit_eq_div unat_div less_mult_imp_div_less)
          qed
          moreover have "n \<noteq> 0" using True Suc.prems(1) by (cases n) (auto simp: word_le_nat_alt)
          ultimately show ?thesis using Suc.IH[of "drop_bit 7 r"] True by (simp add: put_groups_simps)
        qed (simp add: put_groups_simps)
      qed simp
      moreover have "unat r < 2 ^ (7 * 10)"
        using unsigned_less[of r, where 'a = nat] by simp
      ultimately show ?thesis by (metis one_le_numeral)
    qed
    then show ?thesis
      by (simp add: h_def put_int_def Let_def put_groups_append[of "[_]"])
  qed
  ultimately show ?thesis
    using g s h(1) by (simp add: get_string_def checked_add_nat out_simps u at_def flip: h_def)
qed

lemma put_string_nested: "put_string out s = out @ put_string [] s"
  by (simp add: put_string_def put_int_append[of out])

lemma get_string_put_string:
  "length s < 2 ^ 62 \<Longrightarrow> get_string (put_string [] s @ rest) 7 = Ok (s, length (put_string [] s))"
  using get_string_put[of 7 0 s rest] by (simp add: put_string_def)

lemma length_STATIC: "length STATIC = 99"
  by (simp add: STATIC_def)

lemma static_entry_at: "i < 99 \<Longrightarrow> static_entry (of_nat i) = Ok (STATIC ! i)"
  by (simp add: static_entry_def unat_of_nat at_def length_STATIC)

lemma get_int_index:
  assumes "1 \<le> p" "p \<le> 8" "\<And>j. j < p \<Longrightarrow> \<not> bit flags j" "i < 99"
  shows "get_int (put_int [] p flags (of_nat i) @ rest) p = Ok (of_nat i, length (put_int [] p flags (of_nat i)))"
  by (rule get_int_put_int) (use assms in \<open>auto simp: unat_of_nat\<close>)

lemma flag_bits:
  "bit (0xc0 :: u8) j \<longleftrightarrow> j = 6 \<or> j = 7" "bit (0x50 :: u8) j \<longleftrightarrow> j = 4 \<or> j = 6"
  "bit (0x20 :: u8) j \<longleftrightarrow> j = 5"
proof -
  have all8: "P j" if "\<And>j. 8 \<le> j \<Longrightarrow> P j" "P 0" "P 1" "P 2" "P 3" "P 4" "P 5" "P 6" "P 7"
    for P :: "nat \<Rightarrow> bool" and j
    using that by (cases "8 \<le> j") (auto simp: not_le numeral_eq_Suc less_Suc_eq)
  show "bit (0xc0 :: u8) j \<longleftrightarrow> j = 6 \<or> j = 7" "bit (0x50 :: u8) j \<longleftrightarrow> j = 4 \<or> j = 6"
    "bit (0x20 :: u8) j \<longleftrightarrow> j = 5"
    by (rule all8[of _ j]; force dest: bit_imp_le_length)+
qed

lemma flags_low:
  "j < 6 \<Longrightarrow> \<not> bit (0xc0 :: u8) j" "j < 4 \<Longrightarrow> \<not> bit (0x50 :: u8) j"
  "j \<le> 3 \<Longrightarrow> \<not> bit (0x20 :: u8) j"
  unfolding flag_bits by auto

lemma qpack_decode_encode_field:
  assumes "length (fst f) < 2 ^ 62" "length (snd f) < 2 ^ 62"
  shows "qpack_decode_field (qpack_encode_field [] f @ rest) = Ok (f, rest) \<and> qpack_encode_field [] f \<noteq> []"
proof -
  obtain name val where f: "f = (name, val)" by (cases f)
  show ?thesis
  proof (cases "position (\<lambda>entry. entry = (name, val)) STATIC")
    case (Some i)
    then have i: "i < 99" "STATIC ! i = (name, val)"
      using position_Some[OF Some] by (simp_all add: length_STATIC)
    obtain x bs where h: "put_int [] 6 0xc0 (of_nat i) = (0xc0 OR x) # bs"
      by (rule put_int_first[of 6 "0xc0" "of_nat i"]) blast
    have g: "get_int (((0xc0 OR x) # bs) @ rest) 6 = Ok (of_nat i, Suc (length bs))"
      using get_int_index[where p = 6, OF _ _ flags_low(1) i(1), where rest = "rest"] unfolding h by simp
    have "(0xc0 OR x) AND 0x80 \<noteq> 0" "(0xc0 OR x) AND 0x40 \<noteq> 0"
      by (simp_all add: and_flag bit_simps flag_bits)
    then show ?thesis using Some h g i
      by (simp add: f qpack_encode_field_def qpack_decode_field_def out_simps static_entry_at)
  next
    case whole: None
    show ?thesis
    proof (cases "position (\<lambda>(known, _). known = name) STATIC")
      case (Some i)
      then obtain v' where i: "i < 99" "STATIC ! i = (name, v')"
        using position_Some[OF Some] by (auto simp: length_STATIC split: prod.splits)
      obtain x bs where h: "put_int [] 4 0x50 (of_nat i) = (0x50 OR x) # bs"
        and x: "\<And>j. 4 \<le> j \<Longrightarrow> \<not> bit x j"
        by (rule put_int_first[of 4 "0x50" "of_nat i"]) blast
      have g: "get_int (((0x50 OR x) # bs) @ put_string [] val @ rest) 4 = Ok (of_nat i, Suc (length bs))"
        using get_int_index[where p = 4, OF _ _ flags_low(2) i(1), where rest = "put_string [] val @ rest"] unfolding h by simp
      have "(0x50 OR x) AND 0x80 = 0" "(0x50 OR x) AND 0x40 \<noteq> 0" "(0x50 OR x) AND 0x10 \<noteq> 0"
        using x[of 7] by (simp_all add: and_flag bit_simps flag_bits)
      then show ?thesis using whole Some h g i get_string_put_string[of val rest] assms(2)
        by (simp add: f qpack_encode_field_def qpack_decode_field_def out_simps static_entry_at
            put_string_nested[of "(0x50 OR x) # bs"])
    next
      case None
      define h where "h = put_int [] 3 0x20 (of_nat (length name)) @ name"
      obtain x bs where b: "h = (0x20 OR x) # bs" and x: "\<And>j. 3 \<le> j \<Longrightarrow> \<not> bit x j"
        unfolding h_def by (rule put_int_first[of 3 "0x20" "of_nat (length name)"]) (metis append_Cons)
      have g: "get_string (h @ put_string [] val @ rest) 3 = Ok (name, length h)"
        unfolding h_def by (rule get_string_put[OF _ _ flags_low(3)]) (use assms f in auto)
      have "(0x20 OR x) AND 0x80 = 0" "(0x20 OR x) AND 0x40 = 0" "(0x20 OR x) AND 0x20 \<noteq> 0"
        using x[of 7] x[of 6] by (simp_all add: and_flag bit_simps flag_bits)
      moreover have "qpack_encode_field [] f = h @ put_string [] val"
        using whole None by (simp add: f qpack_encode_field_def h_def put_string_nested[of "put_int _ _ _ _ @ _"])
      ultimately show ?thesis using g get_string_put_string[of val rest] assms(2)
        by (simp add: f qpack_decode_field_def out_simps b)
    qed
  qed
qed

lemma qpack_encode_field_append: "qpack_encode_field out f = out @ qpack_encode_field [] f"
proof -
  have "put_string (put_int out p g v) s = out @ put_string (put_int [] p g v) s" for p g v s
    by (subst (1 2) put_string_nested) (subst put_int_append, simp)
  moreover have "put_string (put_int out p g v @ n) s = out @ put_string (put_int [] p g v @ n) s" for p g v n s
    by (subst (1 2) put_string_nested) (subst put_int_append, simp)
  ultimately show ?thesis
    by (cases f) (simp add: qpack_encode_field_def put_int_append[of out] split: option.split)
qed

lemma qpack_encode_concat:
  "foldl qpack_encode_field out fs = out @ concat (map (qpack_encode_field []) fs)"
proof (induction fs arbitrary: out)
  case (Cons f fs)
  from Cons[of "qpack_encode_field out f"] qpack_encode_field_append[of out f] show ?case by simp
qed simp

lemma decode_fields_encode:
  assumes "\<forall>f\<in>set fs. length (fst f) < 2 ^ 62 \<and> length (snd f) < 2 ^ 62"
  shows "decode_fields acc (concat (map (qpack_encode_field []) fs)) = Ok (acc @ fs)"
  using assms
proof (induction fs arbitrary: acc)
  case (Cons f fs)
  then show ?case
    using qpack_decode_encode_field[of f "concat (map (qpack_encode_field []) fs)"]
    by (simp add: decode_fields.simps[of acc])
qed (simp add: decode_fields.simps)

section \<open>Properties\<close>

text \<open>C21. Whatever field section this side writes, static references and literals mixed as the table
  allows, it reads back exactly, names and values byte for byte.\<close>

theorem qpack_decode_encode:
  assumes "\<forall>f\<in>set fs. length (fst f) < 2 ^ 62 \<and> length (snd f) < 2 ^ 62"
  shows "qpack_decode (qpack_encode fs []) = Ok fs"
proof -
  have "get_int (0 # bs) 8 = Ok (0, 1)" "get_int (0 # bs) 7 = Ok (0, 1)" for bs
    by (simp_all add: get_int_def int_max_def at_def)
  then show ?thesis
    using decode_fields_encode[OF assms, of "[]"]
    by (simp add: qpack_encode_def qpack_encode_concat qpack_decode_def out_simps)
qed

theorem qpack_decode_encode_witness:
  "qpack_decode (qpack_encode [(ascii '':method'', ascii ''CONNECT''), (ascii '':authority'', ascii ''a''),
     (ascii ''x-y'', [])] []) =
   Ok [(ascii '':method'', ascii ''CONNECT''), (ascii '':authority'', ascii ''a''), (ascii ''x-y'', [])]"
  by (rule qpack_decode_encode) simp

text \<open>A field section of any bytes is read or refused, never indexed out of range.\<close>

theorem qpack_decode_no_panic: "qpack_decode section \<noteq> Panic"
  by (auto simp: qpack_decode_def and_then_eq_Panic get_int_no_panic decode_fields_no_panic slice_from_def
      dest!: get_int_used split: if_splits)

end
