(* ===== verification/Http3.thy ===== *)
theory Http3
  imports Capsule Qpack
begin

text \<open>
  HTTP/3, \<open>src/transport/http3.rs\<close>: the frame reader, the frames this side writes, the endpoint's
  SETTINGS and the rules of its control stream, the response's status, and the datagram around one
  IP packet. Shown: the reader satisfies the contract of theory Incremental and holds at most one
  frame it has to keep, frames and datagrams come back as they were written, SETTINGS are accepted
  exactly when the identifiers are different and none is reserved, and the control stream yields its
  SETTINGS once, first.
\<close>

section \<open>Constants and errors\<close>

definition frame_DATA :: u64 where "frame_DATA = 0x00"
definition frame_HEADERS :: u64 where "frame_HEADERS = 0x01"
definition frame_CANCEL_PUSH :: u64 where "frame_CANCEL_PUSH = 0x03"
definition frame_SETTINGS :: u64 where "frame_SETTINGS = 0x04"
definition frame_PUSH_PROMISE :: u64 where "frame_PUSH_PROMISE = 0x05"
definition frame_GOAWAY :: u64 where "frame_GOAWAY = 0x07"
definition frame_MAX_PUSH_ID :: u64 where "frame_MAX_PUSH_ID = 0x0d"
definition frame_FROM_HTTP2 :: "u64 list" where "frame_FROM_HTTP2 = [0x02, 0x06, 0x08, 0x09]"

definition stream_CONTROL :: u64 where "stream_CONTROL = 0x00"
definition stream_PUSH :: u64 where "stream_PUSH = 0x01"
definition stream_QPACK_ENCODER :: u64 where "stream_QPACK_ENCODER = 0x02"
definition stream_QPACK_DECODER :: u64 where "stream_QPACK_DECODER = 0x03"

definition ENABLE_CONNECT_PROTOCOL :: u64 where "ENABLE_CONNECT_PROTOCOL = 0x08"
definition H3_DATAGRAM :: u64 where "H3_DATAGRAM = 0x33"
definition H3_DATAGRAM_DRAFT00 :: u64 where "H3_DATAGRAM_DRAFT00 = 0x276"
definition setting_FROM_HTTP2 :: "u64 list" where "setting_FROM_HTTP2 = [0x02, 0x03, 0x04, 0x05]"

definition MAX_FRAME :: u64 where "MAX_FRAME = 65535"

datatype h3_error =
    ControlClosed
  | SecondControl
  | FrameTooLong u64 u64
  | Unexpected u64 string
  | Malformed string
  | MissingSettings
  | BadSettings string
  | Qpack qpack_error
  | Message string

text \<open>The application error code a connection is closed with.\<close>

fun h3_code :: "h3_error \<Rightarrow> u64" where
  "h3_code ControlClosed = 0x104"
| "h3_code SecondControl = 0x103"
| "h3_code (FrameTooLong _ _) = 0x107"
| "h3_code (Unexpected _ _) = 0x105"
| "h3_code (Malformed _) = 0x106"
| "h3_code MissingSettings = 0x10a"
| "h3_code (BadSettings _) = 0x109"
| "h3_code (Qpack _) = 0x200"
| "h3_code (Message _) = 0x10e"

section \<open>Reading frames\<close>

record frame =
  kind :: u64
  payload :: bytes

record frame_reader =
  fr_pending :: bytes
  fr_skipping :: u64

definition frame_reader_new :: frame_reader where
  "frame_reader_new = \<lparr>fr_pending = [], fr_skipping = 0\<rparr>"

definition frame_extend :: "frame_reader \<Rightarrow> bytes \<Rightarrow> frame_reader" where
  "frame_extend r chunk = r\<lparr>fr_pending := fr_pending r @ chunk\<rparr>"

definition take_varint :: "frame_reader \<Rightarrow> (h3_error, u64 option \<times> frame_reader) outcome" where
  "take_varint r =
     (case varint_get (fr_pending r) of
        None \<Rightarrow> Ok (None, r)
      | Some (v, used) \<Rightarrow>
          and_then (slice_from used (fr_pending r)) (\<lambda>p. Ok (Some v, r\<lparr>fr_pending := p\<rparr>)))"

definition is_known :: "u64 \<Rightarrow> bool" where
  "is_known k \<longleftrightarrow>
     k = frame_DATA \<or> k = frame_HEADERS \<or> k = frame_CANCEL_PUSH \<or> k = frame_SETTINGS \<or>
     k = frame_PUSH_PROMISE \<or> k = frame_GOAWAY \<or> k = frame_MAX_PUSH_ID \<or>
     k \<in> set frame_FROM_HTTP2"

text \<open>The opening of the loop: discard what has arrived of an unknown frame.\<close>

definition skip_front :: "frame_reader \<Rightarrow> frame_reader" where
  "skip_front r =
     (if fr_skipping r > 0 then
        let skip = min (length (fr_pending r)) (unat (fr_skipping r)) in
        \<lparr>fr_pending = drop skip (fr_pending r), fr_skipping = fr_skipping r - of_nat skip\<rparr>
      else r)"

function next_frame :: "frame_reader \<Rightarrow> (h3_error, frame option \<times> frame_reader) outcome" where
  "next_frame r0 =
     (let r = skip_front r0 in
      if fr_skipping r > 0 then Ok (None, r)
      else
        (case varint_get (fr_pending r) of
           None \<Rightarrow> Ok (None, r)
         | Some (k, type_len) \<Rightarrow>
             and_then (slice_from type_len (fr_pending r)) (\<lambda>behind.
             (case varint_get behind of
                None \<Rightarrow> Ok (None, r)
              | Some (len, length_len) \<Rightarrow>
                  if \<not> is_known k then
                    and_then (slice_from (type_len + length_len) (fr_pending r)) (\<lambda>p.
                      next_frame \<lparr>fr_pending = p, fr_skipping = len\<rparr>)
                  else if len > MAX_FRAME then Err (FrameTooLong k len)
                  else if length (fr_pending r) < type_len + length_len + unat len then Ok (None, r)
                  else
                    and_then (slice_from (type_len + length_len) (fr_pending r)) (\<lambda>p.
                    and_then (split_to (unat len) p) (\<lambda>(body, p).
                      Ok (Some \<lparr>kind = k, payload = body\<rparr>, r\<lparr>fr_pending := p\<rparr>)))))))"
  by pat_completeness auto
termination
proof (relation "measure (\<lambda>r. length (fr_pending r))", goal_cases)
  case (2 r0 r p x y s q a b t)
  have "length (fr_pending (skip_front r0)) \<le> length (fr_pending r0)"
    by (simp add: skip_front_def Let_def)
  with 2 show ?case
    by (auto simp: slice_from_def dest!: varint_get_used(1) split: if_splits)
qed simp

declare next_frame.simps [simp del]

section \<open>Writing frames\<close>

definition put_frame :: "bytes \<Rightarrow> u64 \<Rightarrow> bytes \<Rightarrow> bytes" where
  "put_frame out k body =
     (let out = varint_put out k;
          out = varint_put out (of_nat (length body))
      in out @ body)"

definition put_setting :: "bytes \<Rightarrow> u64 \<times> u64 \<Rightarrow> bytes" where
  "put_setting out = (\<lambda>(i, v). varint_put (varint_put out i) v)"

definition control_stream_preface :: bytes where
  "control_stream_preface =
     (let settings = foldl put_setting []
            [(ENABLE_CONNECT_PROTOCOL, 1), (H3_DATAGRAM, 1), (H3_DATAGRAM_DRAFT00, 1)];
          out = varint_put [] stream_CONTROL
      in put_frame out frame_SETTINGS settings)"

definition headers_frame :: "field list \<Rightarrow> bytes" where
  "headers_frame fs = put_frame [] frame_HEADERS (qpack_encode fs [])"

section \<open>SETTINGS and the control stream\<close>

record peer_settings =
  h3_datagram :: bool
  extended_connect :: bool

definition no_settings :: peer_settings where
  "no_settings = \<lparr>h3_datagram = False, extended_connect = False\<rparr>"

definition apply_setting :: "u64 \<Rightarrow> u64 \<Rightarrow> peer_settings \<Rightarrow> peer_settings" where
  "apply_setting i v s =
     (if i = H3_DATAGRAM then s\<lparr>h3_datagram := v = 1\<rparr>
      else if i = ENABLE_CONNECT_PROTOCOL then s\<lparr>extended_connect := v = 1\<rparr>
      else s)"

text \<open>The loop of \<open>PeerSettings::parse\<close>: what is left of the payload, the identifiers seen, the
  settings so far.\<close>

function parse_settings ::
    "bytes \<Rightarrow> u64 list \<Rightarrow> peer_settings \<Rightarrow> (h3_error, peer_settings) outcome" where
  "parse_settings body seen s =
     (if body = [] then Ok s
      else
        and_then (ok_or (varint_get body) (Malformed ''SETTINGS'')) (\<lambda>(i, id_len).
        and_then (slice_from id_len body) (\<lambda>behind.
        and_then (ok_or (varint_get behind) (Malformed ''SETTINGS'')) (\<lambda>(v, value_len).
        and_then (slice_from (id_len + value_len) body) (\<lambda>body.
          if i \<in> set setting_FROM_HTTP2 then
            Err (BadSettings ''carry an identifier reserved from HTTP/2'')
          else if i \<in> set seen then Err (BadSettings ''repeat an identifier'')
          else parse_settings body (seen @ [i]) (apply_setting i v s))))))"
  by pat_completeness auto
termination
  by (relation "measure (\<lambda>(body, _). length body)")
    (auto simp: slice_from_def dest!: varint_get_used(1) split: if_splits)

declare parse_settings.simps [simp del]

definition peer_settings_parse :: "bytes \<Rightarrow> (h3_error, peer_settings) outcome" where
  "peer_settings_parse body = parse_settings body [] no_settings"

datatype control_event = Settings peer_settings | GoAway u64

text \<open>The state of \<open>ControlStream\<close> is its one flag, \<open>settled\<close>.\<close>

definition on_frame :: "bool \<Rightarrow> frame \<Rightarrow> (h3_error, control_event option \<times> bool) outcome" where
  "on_frame settled incoming =
     (if \<not> settled then
        (if kind incoming \<noteq> frame_SETTINGS then Err MissingSettings
         else and_then (peer_settings_parse (payload incoming)) (\<lambda>s. Ok (Some (Settings s), True)))
      else if kind incoming = frame_GOAWAY then
        and_then (ok_or (varint_get (payload incoming)) (Malformed ''GOAWAY'')) (\<lambda>(i, used).
          if used \<noteq> length (payload incoming) then Err (Malformed ''GOAWAY'')
          else Ok (Some (GoAway i), settled))
      else if kind incoming = frame_CANCEL_PUSH \<or> kind incoming = frame_MAX_PUSH_ID then
        Ok (None, settled)
      else Err (Unexpected (kind incoming) ''control''))"

section \<open>The response and the datagrams\<close>

text \<open>\<open>http::StatusCode\<close> is of a package: \<open>from_bytes\<close> and \<open>is_informational\<close> are arguments.\<close>

definition response_status ::
    "(bytes \<Rightarrow> 'st option) \<Rightarrow> ('st \<Rightarrow> bool) \<Rightarrow> frame \<Rightarrow> (h3_error, 'st option) outcome" where
  "response_status from_bytes is_informational incoming =
     (if kind incoming \<noteq> frame_HEADERS then Err (Unexpected (kind incoming) ''request'')
      else
        and_then (map_err Qpack (qpack_decode (payload incoming))) (\<lambda>fs.
        let statuses = filter (\<lambda>(name, _). name = ascii '':status'') fs in
        and_then (ok_or (at statuses 0) (Message ''has no :status'')) (\<lambda>(_, status).
        if at statuses 1 \<noteq> None then Err (Message ''has two :status fields'')
        else
          and_then (ok_or (from_bytes status) (Message ''has a :status that is not a status code''))
            (\<lambda>code. Ok (if is_informational code then None else Some code)))))"

definition datagram :: "u64 \<Rightarrow> bytes \<Rightarrow> bytes" where
  "datagram stream_id packet = varint_put [] (stream_id div 4) @ [0] @ packet"

definition datagram_overhead :: "u64 \<Rightarrow> nat" where
  "datagram_overhead stream_id = varint_len (stream_id div 4) + 1"

definition datagram_packet :: "bytes \<Rightarrow> u64 \<Rightarrow> (unit, bytes option) outcome" where
  "datagram_packet d stream_id =
     (case varint_get d of
        None \<Rightarrow> Ok None
      | Some (quarter, used) \<Rightarrow>
          if quarter \<noteq> stream_id div 4 then Ok None
          else
            and_then (slice_from used d) (\<lambda>d.
            (case varint_get d of
               None \<Rightarrow> Ok None
             | Some (ctx, used) \<Rightarrow>
                 if ctx \<noteq> 0 then Ok None
                 else and_then (slice_from used d) (\<lambda>d. Ok (Some d)))))"

section \<open>The shape of one read\<close>

lemma next_frame_header:
  "next_frame r0 =
     (let r = skip_front r0 in
      if fr_skipping r > 0 then Ok (None, r)
      else
        (case capsule_header (fr_pending r) of
           None \<Rightarrow> Ok (None, r)
         | Some (k, len, n) \<Rightarrow>
             if \<not> is_known k then next_frame \<lparr>fr_pending = drop n (fr_pending r), fr_skipping = len\<rparr>
             else if len > MAX_FRAME then Err (FrameTooLong k len)
             else if length (fr_pending r) < n + unat len then Ok (None, r)
             else Ok (Some \<lparr>kind = k, payload = take (unat len) (drop n (fr_pending r))\<rparr>,
                      r\<lparr>fr_pending := drop (n + unat len) (fr_pending r)\<rparr>)))"
proof -
  define r where "r = skip_front r0"
  show ?thesis
  proof (cases "varint_get (fr_pending r)")
    case None
    then show ?thesis by (subst next_frame.simps) (simp add: capsule_header_def flip: r_def)
  next
    case (Some p)
    obtain k a where p: "varint_get (fr_pending r) = Some (k, a)" using Some by (cases p) auto
    note a = varint_get_used[OF p]
    show ?thesis
    proof (cases "varint_get (drop a (fr_pending r))")
      case None
      then show ?thesis using p a
        by (subst next_frame.simps) (simp add: capsule_header_def out_simps flip: r_def)
    next
      case (Some q)
      obtain len b where q: "varint_get (drop a (fr_pending r)) = Some (len, b)"
        using Some by (cases q) auto
      note b = varint_get_used[OF q]
      show ?thesis using p q a b
        by (subst next_frame.simps)
          (simp add: capsule_header_def out_simps Let_def add.commute flip: r_def)
    qed
  qed
qed

lemma next_frame_cong: "skip_front a = skip_front b \<Longrightarrow> next_frame a = next_frame b"
  by (subst (1 2) next_frame_header) simp

lemma skip_front_idle: "fr_skipping r = 0 \<Longrightarrow> skip_front r = r"
  by (simp add: skip_front_def)

lemma unat_minus_min:
  "unat (s - of_nat (min n (unat s)) :: u64) = unat s - n"
proof -
  have "unat (of_nat (min n (unat s)) :: u64) = min n (unat s)"
    using unsigned_less[of s, where 'a = nat] by (simp add: unat_of_nat min_def)
  moreover from this have "of_nat (min n (unat s)) \<le> s" by (simp add: word_le_nat_alt)
  ultimately show ?thesis by (simp add: unat_sub)
qed

lemma skip_front_simps:
  "fr_pending (skip_front r) = drop (unat (fr_skipping r)) (fr_pending r)"
  "unat (fr_skipping (skip_front r)) = unat (fr_skipping r) - length (fr_pending r)"
proof -
  have "drop (min (length p) n) p = drop n p" for p :: bytes and n
    by (cases "length p \<le> n") (simp_all add: min_def)
  then show "fr_pending (skip_front r) = drop (unat (fr_skipping r)) (fr_pending r)"
    by (cases "fr_skipping r = 0") (simp_all add: skip_front_def Let_def word_gt_0)
  show "unat (fr_skipping (skip_front r)) = unat (fr_skipping r) - length (fr_pending r)"
    by (cases "fr_skipping r = 0") (simp_all add: skip_front_def Let_def unat_minus_min word_gt_0)
qed

lemma frame_reader_eqI:
  "fr_pending a = fr_pending b \<Longrightarrow> unat (fr_skipping a) = unat (fr_skipping b) \<Longrightarrow> a = (b :: frame_reader)"
  by (cases a; cases b) (simp add: word_unat_eq_iff)

lemma frame_extend_simps [simp]:
  "fr_pending (frame_extend r x) = fr_pending r @ x" "fr_skipping (frame_extend r x) = fr_skipping r"
  by (simp_all add: frame_extend_def)

lemma skip_front_extend: "skip_front (frame_extend (skip_front r) x) = skip_front (frame_extend r x)"
  by (cases "length (fr_pending r) \<le> unat (fr_skipping r)")
    (auto intro!: frame_reader_eqI simp: skip_front_simps)

lemma skip_front_done:
  "fr_skipping (skip_front r) = 0 \<Longrightarrow> skip_front (frame_extend r x) = frame_extend (skip_front r) x"
  using skip_front_extend[of r x] by (simp add: skip_front_idle)

text \<open>The four ways a read ends, one rule for the properties below.\<close>

lemma next_frame_cases [case_names skip short unknown long wait take]:
  assumes "\<And>r. r = skip_front r0 \<Longrightarrow> 0 < fr_skipping r \<Longrightarrow> next_frame r0 = Ok (None, r) \<Longrightarrow> P"
    and "\<And>r. r = skip_front r0 \<Longrightarrow> fr_skipping r = 0 \<Longrightarrow> capsule_header (fr_pending r) = None \<Longrightarrow>
      next_frame r0 = Ok (None, r) \<Longrightarrow> P"
    and "\<And>r k len n. r = skip_front r0 \<Longrightarrow> fr_skipping r = 0 \<Longrightarrow>
      capsule_header (fr_pending r) = Some (k, len, n) \<Longrightarrow> \<not> is_known k \<Longrightarrow>
      next_frame r0 = next_frame \<lparr>fr_pending = drop n (fr_pending r), fr_skipping = len\<rparr> \<Longrightarrow> P"
    and "\<And>r k len n. r = skip_front r0 \<Longrightarrow> fr_skipping r = 0 \<Longrightarrow>
      capsule_header (fr_pending r) = Some (k, len, n) \<Longrightarrow> is_known k \<Longrightarrow> MAX_FRAME < len \<Longrightarrow>
      next_frame r0 = Err (FrameTooLong k len) \<Longrightarrow> P"
    and "\<And>r k len n. r = skip_front r0 \<Longrightarrow> fr_skipping r = 0 \<Longrightarrow>
      capsule_header (fr_pending r) = Some (k, len, n) \<Longrightarrow> is_known k \<Longrightarrow> \<not> MAX_FRAME < len \<Longrightarrow>
      length (fr_pending r) < n + unat len \<Longrightarrow> next_frame r0 = Ok (None, r) \<Longrightarrow> P"
    and "\<And>r k len n. r = skip_front r0 \<Longrightarrow> fr_skipping r = 0 \<Longrightarrow>
      capsule_header (fr_pending r) = Some (k, len, n) \<Longrightarrow> is_known k \<Longrightarrow> \<not> MAX_FRAME < len \<Longrightarrow>
      n + unat len \<le> length (fr_pending r) \<Longrightarrow>
      next_frame r0 = Ok (Some \<lparr>kind = k, payload = take (unat len) (drop n (fr_pending r))\<rparr>,
        r\<lparr>fr_pending := drop (n + unat len) (fr_pending r)\<rparr>) \<Longrightarrow> P"
  shows P
proof -
  define r where "r = skip_front r0"
  note h = next_frame_header[of r0, folded r_def]
  show P
  proof (cases "fr_skipping r > 0")
    case True
    then show P using assms(1)[OF r_def] h by simp
  next
    case False
    then have z: "fr_skipping r = 0" by (simp add: word_gt_0)
    show P
    proof (cases "capsule_header (fr_pending r)")
      case None
      then show P using assms(2)[OF r_def z] h z by simp
    next
      case (Some p)
      obtain k len n where p: "p = (k, len, n)" by (cases p)
      note s = Some[unfolded p]
      consider "\<not> is_known k" | "is_known k" "MAX_FRAME < len"
        | "is_known k" "\<not> MAX_FRAME < len" "length (fr_pending r) < n + unat len"
        | "is_known k" "\<not> MAX_FRAME < len" "n + unat len \<le> length (fr_pending r)"
        by linarith
      then show P
        by cases (use h z s assms(3-6)[OF r_def z s] in simp_all)
    qed
  qed
qed

lemma unknown_shorter:
  assumes "r = skip_front r0" "capsule_header (fr_pending r) = Some (k, len, n)"
  shows "length (fr_pending \<lparr>fr_pending = drop n (fr_pending r), fr_skipping = len\<rparr>) < length (fr_pending r0)"
  using capsule_header_used[OF assms(2)] assms(1) by (simp add: skip_front_simps)

lemma next_frame_no_panic: "next_frame r0 \<noteq> Panic"
proof (induction "length (fr_pending r0)" arbitrary: r0 rule: less_induct)
  case less
  show ?case
  proof (cases r0 rule: next_frame_cases)
    case (unknown r k len n)
    then show ?thesis using less[OF unknown_shorter[OF unknown(1,3)]] by simp
  qed simp_all
qed

lemma next_frame_take_more:
  "next_frame r0 = Ok (Some f, r') \<Longrightarrow> next_frame (frame_extend r0 x) = Ok (Some f, frame_extend r' x)"
proof (induction "length (fr_pending r0)" arbitrary: r0 rule: less_induct)
  case less
  note header = next_frame_header[of "frame_extend r0 x"]
  from less.prems show ?case
  proof (cases r0 rule: next_frame_cases)
    case (unknown r k len n)
    note u = capsule_header_used[OF unknown(3)]
    have "next_frame (frame_extend r0 x) =
        next_frame (frame_extend \<lparr>fr_pending = drop n (fr_pending r), fr_skipping = len\<rparr> x)"
      using header skip_front_done[of r0 x] unknown u capsule_header_append[OF unknown(3), of x]
      by (simp add: frame_extend_def)
    then show ?thesis using less.hyps[OF unknown_shorter[OF unknown(1,3)]] unknown(5) less.prems
      by simp
  next
    case (take r k len n)
    then show ?thesis
      using header skip_front_done[of r0 x] capsule_header_append[OF take(3), of x]
        capsule_header_used[OF take(3)] less.prems
      by (simp add: frame_extend_def)
  qed auto
qed

lemma next_frame_refuse_more:
  "next_frame r0 = Err e \<Longrightarrow> next_frame (frame_extend r0 x) = Err e"
proof (induction "length (fr_pending r0)" arbitrary: r0 rule: less_induct)
  case less
  note header = next_frame_header[of "frame_extend r0 x"]
  from less.prems show ?case
  proof (cases r0 rule: next_frame_cases)
    case (unknown r k len n)
    note u = capsule_header_used[OF unknown(3)]
    have "next_frame (frame_extend r0 x) =
        next_frame (frame_extend \<lparr>fr_pending = drop n (fr_pending r), fr_skipping = len\<rparr> x)"
      using header skip_front_done[of r0 x] unknown u capsule_header_append[OF unknown(3), of x]
      by (simp add: frame_extend_def)
    then show ?thesis using less.hyps[OF unknown_shorter[OF unknown(1,3)]] unknown(5) less.prems
      by simp
  next
    case (long r k len n)
    then show ?thesis
      using header skip_front_done[of r0 x] capsule_header_append[OF long(3), of x] less.prems
      by simp
  qed auto
qed

lemma next_frame_wait_more:
  "next_frame r0 = Ok (None, r') \<Longrightarrow> next_frame (frame_extend r0 x) = next_frame (frame_extend r' x)"
proof (induction "length (fr_pending r0)" arbitrary: r0 rule: less_induct)
  case less
  note header = next_frame_header[of "frame_extend r0 x"]
  have same: "r' = skip_front r0 \<Longrightarrow> ?case"
    by (rule next_frame_cong) (simp add: skip_front_extend)
  from less.prems show ?case
  proof (cases r0 rule: next_frame_cases)
    case (unknown r k len n)
    note u = capsule_header_used[OF unknown(3)]
    have "next_frame (frame_extend r0 x) =
        next_frame (frame_extend \<lparr>fr_pending = drop n (fr_pending r), fr_skipping = len\<rparr> x)"
      using header skip_front_done[of r0 x] unknown u capsule_header_append[OF unknown(3), of x]
      by (simp add: frame_extend_def)
    then show ?thesis using less.hyps[OF unknown_shorter[OF unknown(1,3)]] unknown(5) less.prems
      by simp
  qed (use same in auto)
qed

lemma next_frame_progress:
  "next_frame r0 = Ok (Some f, r') \<Longrightarrow> length (fr_pending r') < length (fr_pending r0)"
proof (induction "length (fr_pending r0)" arbitrary: r0 rule: less_induct)
  case less
  from less.prems show ?case
  proof (cases r0 rule: next_frame_cases)
    case (unknown r k len n)
    then show ?thesis using less.hyps[OF unknown_shorter[OF unknown(1,3)]] less.prems
        unknown_shorter[OF unknown(1,3)] by simp
  next
    case (take r k len n)
    then show ?thesis using less.prems capsule_header_used[OF take(3)]
      by (auto simp: skip_front_simps)
  qed auto
qed

interpretation frames: incremental next_frame frame_extend "\<lambda>r. length (fr_pending r)"
proof unfold_locales
  fix s :: frame_reader and s' :: frame_reader and x y :: bytes and f :: frame and e :: h3_error
  show "frame_extend (frame_extend s x) y = frame_extend s (x @ y)" by (simp add: frame_extend_def)
  show "next_frame s = Ok (Some f, s') \<Longrightarrow> next_frame (frame_extend s x) = Ok (Some f, frame_extend s' x)"
    by (rule next_frame_take_more)
  show "next_frame s = Ok (None, s') \<Longrightarrow> next_frame (frame_extend s x) = next_frame (frame_extend s' x)"
    by (rule next_frame_wait_more)
  show "next_frame s = Err e \<Longrightarrow> next_frame (frame_extend s x) = Err e"
    by (rule next_frame_refuse_more)
  show "next_frame s \<noteq> Panic" by (rule next_frame_no_panic)
  show "next_frame s = Ok (Some f, s') \<Longrightarrow> length (fr_pending s') < length (fr_pending s)"
    by (rule next_frame_progress)
qed

section \<open>Reading what was written\<close>

lemma header_put:
  assumes "k \<le> varint_MAX" "l \<le> varint_MAX"
  shows "capsule_header (varint_put (varint_put [] k) l @ x) =
    Some (k, l, length (varint_put (varint_put [] k) l))"
proof -
  have "varint_put (varint_put [] k) l @ x = varint_put [] k @ varint_put [] l @ x"
    by (simp add: varint_put_append[of "varint_put [] k"])
  with assms show ?thesis by (simp add: capsule_header_def varint_get_put_Nil)
qed

lemma known_small: "is_known k \<Longrightarrow> k \<le> varint_MAX"
  by (auto simp: is_known_def frame_DATA_def frame_HEADERS_def frame_CANCEL_PUSH_def
      frame_SETTINGS_def frame_PUSH_PROMISE_def frame_GOAWAY_def frame_MAX_PUSH_ID_def
      frame_FROM_HTTP2_def varint_MAX_def)

lemma of_nat_small: "n \<le> 65535 \<Longrightarrow> (of_nat n :: u64) \<le> varint_MAX \<and> unat (of_nat n :: u64) = n"
  by (simp add: varint_MAX_def word_le_nat_alt unat_of_nat)

lemma MAX_FRAME_less: "MAX_FRAME < l \<longleftrightarrow> 65535 < unat l"
  by (simp add: MAX_FRAME_def word_less_nat_alt)

lemma next_frame_put_frame:
  assumes "is_known k" "length body \<le> 65535"
  shows "next_frame \<lparr>fr_pending = put_frame [] k body @ rest, fr_skipping = 0\<rparr> =
    Ok (Some \<lparr>kind = k, payload = body\<rparr>, \<lparr>fr_pending = rest, fr_skipping = 0\<rparr>)"
  using header_put[OF known_small[OF assms(1)] conjunct1[OF of_nat_small[OF assms(2)]], of "body @ rest"]
    of_nat_small[OF assms(2)] assms
  by (subst next_frame_header) (simp add: skip_front_idle put_frame_def MAX_FRAME_less)

lemma next_frame_unknown:
  assumes "\<not> is_known k" "k \<le> varint_MAX" "length body \<le> 65535"
  shows "next_frame \<lparr>fr_pending = put_frame [] k body @ rest, fr_skipping = 0\<rparr> =
    next_frame \<lparr>fr_pending = rest, fr_skipping = 0\<rparr>"
proof -
  have "next_frame \<lparr>fr_pending = put_frame [] k body @ rest, fr_skipping = 0\<rparr> =
      next_frame \<lparr>fr_pending = body @ rest, fr_skipping = of_nat (length body)\<rparr>"
    using header_put[OF assms(2) conjunct1[OF of_nat_small[OF assms(3)]], of "body @ rest"] assms
    by (subst next_frame_header) (simp add: skip_front_idle put_frame_def)
  also have "\<dots> = next_frame \<lparr>fr_pending = rest, fr_skipping = 0\<rparr>"
    using of_nat_small[OF assms(3)]
    by (intro next_frame_cong frame_reader_eqI) (simp_all add: skip_front_simps)
  finally show ?thesis .
qed

lemma drains_frames:
  assumes "\<forall>f\<in>set fs. kind f \<le> varint_MAX \<and> length (payload f) \<le> 65535"
  shows "drains next_frame
    \<lparr>fr_pending = concat (map (\<lambda>f. put_frame [] (kind f) (payload f)) fs), fr_skipping = 0\<rparr>
    (filter (\<lambda>f. is_known (kind f)) fs) (Inr frame_reader_new)"
  using assms
proof (induction fs)
  case Nil
  have "next_frame frame_reader_new = Ok (None, frame_reader_new)"
    by (subst next_frame_header)
      (simp add: frame_reader_new_def skip_front_idle capsule_header_def varint_get_def)
  then show ?case by (simp add: frame_reader_new_def drains_wait)
next
  case (Cons f fs)
  show ?case
  proof (cases "is_known (kind f)")
    case True
    then show ?thesis
      using Cons next_frame_put_frame[OF True, of "payload f"
          "concat (map (\<lambda>f. put_frame [] (kind f) (payload f)) fs)"]
      by (auto intro: drains_take)
  next
    case False
    then show ?thesis
      using Cons drains_cong[of next_frame, OF next_frame_unknown[OF False, of "payload f"
            "concat (map (\<lambda>f. put_frame [] (kind f) (payload f)) fs)", symmetric]]
      by simp
  qed
qed

lemma put_setting_append: "put_setting out p = out @ put_setting [] p"
  by (cases p) (simp add: put_setting_def varint_put_append[of out] varint_put_append[of "_ @ _"]
      varint_put_append[of "varint_put [] _"])

lemma put_settings_concat: "foldl put_setting out ps = out @ concat (map (put_setting []) ps)"
proof (induction ps arbitrary: out)
  case (Cons p ps)
  from Cons[of "put_setting out p"] put_setting_append[of out p] show ?case by simp
qed simp

lemma parse_settings_Cons:
  assumes "i \<le> varint_MAX" "v \<le> varint_MAX"
  shows "parse_settings (put_setting [] (i, v) @ rest) seen s =
    (if i \<in> set setting_FROM_HTTP2 then
       Err (BadSettings ''carry an identifier reserved from HTTP/2'')
     else if i \<in> set seen then Err (BadSettings ''repeat an identifier'')
     else parse_settings rest (seen @ [i]) (apply_setting i v s))"
proof -
  have e: "put_setting [] (i, v) @ rest = varint_put [] i @ varint_put [] v @ rest"
    by (simp add: put_setting_def varint_put_append[of "varint_put [] i"])
  have "varint_put [] i \<noteq> []" by (simp add: varint_put_def flip: length_greater_0_conv)
  then show ?thesis
    using varint_get_put_Nil[OF assms(1), of "varint_put [] v @ rest"] varint_get_put_Nil[OF assms(2), of rest]
    unfolding e by (subst parse_settings.simps) (simp add: out_simps)
qed

lemma parse_settings_list:
  assumes "\<forall>(i, v)\<in>set ps. i \<le> varint_MAX \<and> v \<le> varint_MAX"
  shows "parse_settings (concat (map (put_setting []) ps)) seen s = Ok s' \<longleftrightarrow>
    distinct (map fst ps) \<and> set (map fst ps) \<inter> (set seen \<union> set setting_FROM_HTTP2) = {} \<and>
    s' = foldl (\<lambda>s (i, v). apply_setting i v s) s ps"
  using assms
proof (induction ps arbitrary: seen s)
  case Nil
  show ?case by (subst parse_settings.simps) auto
next
  case (Cons p ps)
  obtain i v where p: "p = (i, v)" by (cases p)
  from Cons.prems have "i \<le> varint_MAX" "v \<le> varint_MAX" by (auto simp: p)
  from parse_settings_Cons[OF this] Cons.IH[of "seen @ [i]" "apply_setting i v s"] Cons.prems
  show ?case by (auto simp: p)
qed

lemma apply_settings_fold:
  assumes "distinct (map fst ps)"
  shows "foldl (\<lambda>s (i, v). apply_setting i v s) s ps =
    \<lparr>h3_datagram = (if H3_DATAGRAM \<in> fst ` set ps then (H3_DATAGRAM, 1) \<in> set ps else h3_datagram s),
     extended_connect = (if ENABLE_CONNECT_PROTOCOL \<in> fst ` set ps
       then (ENABLE_CONNECT_PROTOCOL, 1) \<in> set ps else extended_connect s)\<rparr>"
  using assms
proof (induction ps arbitrary: s)
  case (Cons p ps)
  obtain i v where p: "p = (i, v)" by (cases p)
  have d: "H3_DATAGRAM \<noteq> ENABLE_CONNECT_PROTOCOL"
    by (simp add: H3_DATAGRAM_def ENABLE_CONNECT_PROTOCOL_def)
  have notin: "(i, w) \<notin> set ps" for w using Cons.prems by (force simp: p image_iff)
  show ?case
    using Cons d notin by (auto simp: p apply_setting_def image_iff)
qed simp

lemma apply_settings_first:
  assumes "distinct (map fst ps)"
  shows "foldl (\<lambda>s (i, v). apply_setting i v s) no_settings ps =
    \<lparr>h3_datagram = ((H3_DATAGRAM, 1) \<in> set ps),
     extended_connect = ((ENABLE_CONNECT_PROTOCOL, 1) \<in> set ps)\<rparr>"
proof -
  have "i \<notin> fst ` set ps \<Longrightarrow> (i, 1) \<notin> set ps" for i by force
  then show ?thesis unfolding apply_settings_fold[OF assms] by (auto simp: no_settings_def)
qed

section \<open>Properties\<close>

text \<open>C19. The frames of a stream arrive whole, in order and once, whatever pieces the stream comes in:
  those of a known type are delivered with the payload they were written with, the others are dropped
  without losing the next one, and nothing is left over.\<close>

theorem frames_delivered:
  assumes "\<forall>f\<in>set fs. kind f \<le> varint_MAX \<and> length (payload f) \<le> 65535"
    and "concat cs = concat (map (\<lambda>f. put_frame [] (kind f) (payload f)) fs)"
    and "delivers next_frame frame_extend frame_reader_new cs rs z"
  shows "rs = filter (\<lambda>f. is_known (kind f)) fs \<and> z = Inr frame_reader_new"
proof -
  have nil: "frame_extend s [] = s" for s by (simp add: frame_extend_def)
  have "drains next_frame frame_reader_new [] (Inr frame_reader_new)"
    using drains_frames[of "[]"] by (simp add: frame_reader_new_def)
  then have "drains next_frame (frame_extend frame_reader_new (concat cs)) rs z"
    by (rule frames.delivers_whole[OF nil assms(3)])
  then show ?thesis
    using drains_deterministic[OF _ drains_frames[OF assms(1)]] assms(2)
    by (simp add: frame_extend_def frame_reader_new_def)
qed

lemma frames_example:
  "delivers next_frame frame_extend frame_reader_new [[0x21, 1], [9, 7, 1, 5]]
    [\<lparr>kind = 7, payload = [5]\<rparr>] (Inr frame_reader_new)"
proof -
  have "drains next_frame (frame_extend frame_reader_new [0x21, 1]) [] (Inr \<lparr>fr_pending = [], fr_skipping = 1\<rparr>)"
    by (rule drains_wait) code_simp
  moreover have "drains next_frame (frame_extend \<lparr>fr_pending = [], fr_skipping = 1\<rparr> [9, 7, 1, 5])
      [\<lparr>kind = 7, payload = [5]\<rparr>] (Inr frame_reader_new)"
    by (rule drains_take[OF _ drains_wait]) code_simp+
  ultimately show ?thesis
    using delivers_chunk[OF _ delivers_chunk[OF _ delivers_end]] by fastforce
qed

theorem frames_delivered_witness:
  "[\<lparr>kind = 7, payload = [5]\<rparr>] =
    filter (\<lambda>f. is_known (kind f)) [\<lparr>kind = 0x21, payload = [9]\<rparr>, \<lparr>kind = 7, payload = [5 :: u8]\<rparr>] \<and>
    (Inr frame_reader_new :: h3_error + frame_reader) = Inr frame_reader_new"
  by (rule frames_delivered[OF _ _ frames_example])
    (simp_all add: varint_MAX_def put_frame_def varint_put_def)

text \<open>A reader that waits holds less than a header and one frame of the largest size it keeps,
  whatever it held before and whatever lengths the endpoint declared: an unknown frame of any length
  is discarded as it arrives.\<close>

theorem next_frame_waits_bounded:
  "next_frame r0 = Ok (None, r') \<Longrightarrow> length (fr_pending r') < 16 + 65535"
proof (induction "length (fr_pending r0)" arbitrary: r0 rule: less_induct)
  case less
  from less.prems show ?case
  proof (cases r0 rule: next_frame_cases)
    case (skip r)
    then have "0 < unat (fr_skipping r)" by (simp add: word_less_nat_alt)
    with skip less.prems show ?thesis by (auto simp: skip_front_simps)
  next
    case (short r)
    then show ?thesis using less.prems
      by (auto simp: capsule_header_def split: option.splits
          dest!: varint_get_None varint_get_used(2))
  next
    case (unknown r k len n)
    then show ?thesis using less.hyps[OF unknown_shorter[OF unknown(1,3)]] less.prems by simp
  next
    case (wait r k len n)
    then show ?thesis using less.prems capsule_header_used[OF wait(3)] by (simp add: MAX_FRAME_less)
  qed auto
qed

theorem next_frame_waits_bounded_witness: "length (fr_pending frame_reader_new) < 16 + 65535"
  by (rule next_frame_waits_bounded[of "\<lparr>fr_pending = [0x21, 0, 0x21, 0x40, 2, 1, 1], fr_skipping = 0\<rparr>"])
    code_simp

text \<open>SETTINGS are accepted exactly when no identifier repeats and none is one HTTP/2 reserved; what
  is then reported is what the two identifiers the tunnel needs were set to.\<close>

theorem peer_settings_parse_iff:
  assumes "\<forall>(i, v)\<in>set ps. i \<le> varint_MAX \<and> v \<le> varint_MAX"
  shows "peer_settings_parse (foldl put_setting [] ps) = Ok s \<longleftrightarrow>
    distinct (map fst ps) \<and> set (map fst ps) \<inter> set setting_FROM_HTTP2 = {} \<and>
    s = \<lparr>h3_datagram = ((H3_DATAGRAM, 1) \<in> set ps),
         extended_connect = ((ENABLE_CONNECT_PROTOCOL, 1) \<in> set ps)\<rparr>"
  unfolding peer_settings_parse_def put_settings_concat append_Nil parse_settings_list[OF assms]
  using apply_settings_first[of ps] by auto

theorem peer_settings_parse_iff_witness:
  "peer_settings_parse (foldl put_setting [] [(0x33, 1), (0x08, 0), (0x1f, 5)]) =
    Ok \<lparr>h3_datagram = True, extended_connect = False\<rparr>"
  using peer_settings_parse_iff[of "[(0x33, 1), (0x08, 0), (0x1f, 5)]"]
  by (simp add: varint_MAX_def H3_DATAGRAM_def ENABLE_CONNECT_PROTOCOL_def setting_FROM_HTTP2_def)

text \<open>What this side opens its control stream with is read, by the same rules, as SETTINGS that offer
  both HTTP datagrams and extended CONNECT.\<close>

theorem control_stream_preface_settles:
  "\<exists>r body. take_varint (frame_extend frame_reader_new control_stream_preface) = Ok (Some stream_CONTROL, r) \<and>
     next_frame r = Ok (Some \<lparr>kind = frame_SETTINGS, payload = body\<rparr>, frame_reader_new) \<and>
     on_frame False \<lparr>kind = frame_SETTINGS, payload = body\<rparr> =
       Ok (Some (Settings \<lparr>h3_datagram = True, extended_connect = True\<rparr>), True)"
  by (rule exI[of _ "\<lparr>fr_pending = drop 1 control_stream_preface, fr_skipping = 0\<rparr>"],
      rule exI[of _ "drop 3 control_stream_preface"]) code_simp

text \<open>A datagram written for a request is read back as the same packet for that request, and for
  any other request it is dropped.\<close>

theorem datagram_packet_datagram:
  "datagram_packet (datagram s packet) s' = Ok (if s div 4 = s' div 4 then Some packet else None)"
proof -
  have "unat (s div 4) < 2 ^ 62" using unsigned_less[of s, where 'a = nat] by (simp add: unat_div)
  then have "s div 4 \<le> varint_MAX" by (simp add: varint_MAX_def word_le_nat_alt)
  note quarter = varint_get_put_Nil[OF this, of "0 # packet"]
  have "varint_get (0 # packet) = Some (0, 1)"
    by (simp add: varint_get_def Let_def)
  with quarter show ?thesis by (simp add: datagram_packet_def datagram_def out_simps)
qed

text \<open>A response header block with one \<open>:status\<close> is read to that status, and only such a block:
  none, two, or a status the HTTP library does not take are refused with the matching error.\<close>

theorem response_status_encoded:
  assumes "\<forall>f\<in>set fs. length (fst f) < 2 ^ 62 \<and> length (snd f) < 2 ^ 62"
  shows "response_status from_bytes interim \<lparr>kind = frame_HEADERS, payload = qpack_encode fs []\<rparr> =
    (case filter (\<lambda>(name, _). name = ascii '':status'') fs of
       [] \<Rightarrow> Err (Message ''has no :status'')
     | [(_, v)] \<Rightarrow> (case from_bytes v of
           None \<Rightarrow> Err (Message ''has a :status that is not a status code'')
         | Some st \<Rightarrow> Ok (if interim st then None else Some st))
     | _ \<Rightarrow> Err (Message ''has two :status fields''))"
proof -
  have decoded: "qpack_decode (qpack_encode fs []) = Ok fs"
  proof -
    have "get_int (0 # bs) 8 = Ok (0, 1)" "get_int (0 # bs) 7 = Ok (0, 1)" for bs
      by (simp_all add: get_int_def int_max_def at_def)
    then show ?thesis
      using decode_fields_encode[OF assms, of "[]"]
      by (simp add: qpack_encode_def qpack_encode_concat qpack_decode_def out_simps)
  qed
  show ?thesis
    by (auto simp: response_status_def decoded at_def Let_def ok_or.simps split: list.split option.split)
qed

theorem response_status_encoded_witness:
  "response_status (\<lambda>b. if length b = 3 then Some b else None) (\<lambda>b. hd b = 49)
     \<lparr>kind = frame_HEADERS, payload = qpack_encode [(ascii '':status'', ascii ''200''), (ascii ''server'', ascii ''x'')] []\<rparr>
   = Ok (Some (ascii ''200''))"
proof -
  have "ascii '':status'' \<noteq> ascii ''server''" "hd (ascii ''200'') \<noteq> 49" by code_simp+
  then show ?thesis by (subst response_status_encoded) simp_all
qed

end
