(* ===== verification/Handshake.thy ===== *)
theory Handshake
  imports Masqr_Prelude
begin

text \<open>
  How the ClientHello is put on the wire, \<open>src/transport/handshake.rs\<close>: the strategies, the
  process-wide choice among them, and the socket wrapper that cuts the first write inside the
  tunnel's name. The inner socket and the timer are arguments: what the socket answers to the bytes
  it is offered, and whether the timer has run out. Shown: the wrapper never changes, repeats or
  loses a byte, the first segment of a split never holds the whole name, and one write at most is
  shortened.
\<close>

section \<open>Strategies\<close>

datatype handshake = Named | NoSni | Split | SplitSlow | Fronted

definition handshake_ALL :: "handshake list" where
  "handshake_ALL = [Named, NoSni, Split, SplitSlow, Fronted]"

fun handshake_name :: "handshake \<Rightarrow> string" where
  "handshake_name Named = ''named''"
| "handshake_name NoSni = ''no-sni''"
| "handshake_name Split = ''split''"
| "handshake_name SplitSlow = ''split-slow''"
| "handshake_name Fronted = ''fronted''"

definition handshake_parse :: "string \<Rightarrow> handshake option" where
  "handshake_parse written = List.find (\<lambda>h. handshake_name h = written) handshake_ALL"

definition works_over_quic :: "handshake \<Rightarrow> bool" where
  "works_over_quic h \<longleftrightarrow> \<not> (h = Split \<or> h = SplitSlow)"

fun handshake_code :: "handshake \<Rightarrow> u8" where
  "handshake_code Named = 0"
| "handshake_code NoSni = 1"
| "handshake_code Split = 2"
| "handshake_code SplitSlow = 3"
| "handshake_code Fronted = 4"

definition handshake_from_code :: "u8 \<Rightarrow> handshake" where
  "handshake_from_code c =
     (if c = 1 then NoSni else if c = 2 then Split else if c = 3 then SplitSlow
      else if c = 4 then Fronted else Named)"

text \<open>The process-wide choice: the name \<open>fronted\<close> presents, and the strategy's code.\<close>

record handshake_choice =
  fronted_override :: "string option"
  selected_code :: u8

definition FRONTED_SNI :: string where
  "FRONTED_SNI = ''www.cloudflare.com''"

definition CONNECT_SNI :: string where
  "CONNECT_SNI = ''consumer-masque.cloudflareclient.com''"

definition handshake_initial :: handshake_choice where
  "handshake_initial = \<lparr>fronted_override = None, selected_code = handshake_code Fronted\<rparr>"

text \<open>Whether a string is a DNS name is the TLS library's judgement, an argument.\<close>

definition set_fronted_name :: "(string \<Rightarrow> bool) \<Rightarrow> string \<Rightarrow> handshake_choice \<Rightarrow> handshake_choice option" where
  "set_fronted_name is_dns_name name c =
     (if is_dns_name name then Some (c\<lparr>fronted_override := Some name\<rparr>) else None)"

definition fronted_name :: "handshake_choice \<Rightarrow> string" where
  "fronted_name c = (case fronted_override c of Some name \<Rightarrow> name | None \<Rightarrow> FRONTED_SNI)"

definition handshake_select :: "handshake \<Rightarrow> handshake_choice \<Rightarrow> handshake_choice" where
  "handshake_select h c = c\<lparr>selected_code := handshake_code h\<rparr>"

definition handshake_selected :: "handshake_choice \<Rightarrow> handshake" where
  "handshake_selected c = handshake_from_code (selected_code c)"

definition sni :: "handshake_choice \<Rightarrow> handshake \<Rightarrow> string option" where
  "sni c h = (case h of NoSni \<Rightarrow> None | Fronted \<Rightarrow> Some (fronted_name c) | _ \<Rightarrow> Some CONNECT_SNI)"

section \<open>Cutting the first write\<close>

datatype split_state = Waiting | Holding | Through

record split_plan =
  needle :: bytes
  delay :: "nat option"
  split_state :: split_state

definition SPLIT_DELAY :: nat where
  "SPLIT_DELAY = 40"

definition split_plan_new :: "bytes \<Rightarrow> nat option \<Rightarrow> split_plan" where
  "split_plan_new n d = \<lparr>needle = n, delay = d, split_state = Waiting\<rparr>"

definition wrapping :: "handshake \<Rightarrow> split_plan option" where
  "wrapping h =
     (case h of
        Split \<Rightarrow> Some (split_plan_new (ascii CONNECT_SNI) None)
      | SplitSlow \<Rightarrow> Some (split_plan_new (ascii CONNECT_SNI) (Some SPLIT_DELAY))
      | _ \<Rightarrow> None)"

text \<open>\<open>windows(n).position(..)\<close>: the first place the needle stands.\<close>

fun find_window :: "bytes \<Rightarrow> bytes \<Rightarrow> nat option" where
  "find_window n [] = None"
| "find_window n (b # bs) =
     (if length n \<le> length (b # bs) \<and> take (length n) (b # bs) = n then Some 0
      else map_option Suc (find_window n bs))"

text \<open>\<open>windows(0)\<close> panics, so an empty needle does.\<close>

definition cut_point :: "bytes \<Rightarrow> bytes \<Rightarrow> (unit, nat option) outcome" where
  "cut_point buffer n =
     (if n = [] then Panic
      else
        let cut = (case find_window n buffer of
              Some start \<Rightarrow> start + length n div 2
            | None \<Rightarrow> length buffer div 2)
        in Ok (if 0 < cut \<and> cut < length buffer then Some cut else None))"

section \<open>The wrapped socket\<close>

text \<open>What one poll of the inner socket answers.\<close>

datatype 'x poll_result = Pending | Ready nat | Failed 'x

text \<open>One \<open>poll_write\<close>: the bytes offered to the inner socket, if it is polled at all, with what the
  caller is told and the plan afterwards.\<close>

record 'x write_result =
  wr_offered :: "bytes option"
  wr_answer :: "'x poll_result"
  wr_plan :: "split_plan option"

definition forward :: "(bytes \<Rightarrow> 'x poll_result) \<Rightarrow> split_plan option \<Rightarrow> bytes \<Rightarrow> 'x write_result" where
  "forward inner plan buf = \<lparr>wr_offered = Some buf, wr_answer = inner buf, wr_plan = plan\<rparr>"

definition poll_write ::
    "(bytes \<Rightarrow> 'x poll_result) \<Rightarrow> bool \<Rightarrow> split_plan option \<Rightarrow> bytes \<Rightarrow> (unit, 'x write_result) outcome" where
  "poll_write inner elapsed plan0 buf =
     (case plan0 of
        None \<Rightarrow> Ok (forward inner plan0 buf)
      | Some plan \<Rightarrow>
         (case split_state plan of
            Waiting \<Rightarrow>
              and_then (cut_point buf (needle plan)) (\<lambda>cut.
              (case cut of
                 None \<Rightarrow> Ok (forward inner (Some (plan\<lparr>split_state := Through\<rparr>)) buf)
               | Some k \<Rightarrow>
                   and_then (slice 0 k buf) (\<lambda>head.
                   Ok (case inner head of
                         Ready written \<Rightarrow>
                           \<lparr>wr_offered = Some head, wr_answer = Ready written,
                            wr_plan = Some (plan\<lparr>split_state :=
                              (case delay plan of Some _ \<Rightarrow> Holding | None \<Rightarrow> Through)\<rparr>)\<rparr>
                       | answer \<Rightarrow>
                           \<lparr>wr_offered = Some head, wr_answer = answer, wr_plan = Some plan\<rparr>))))
          | Holding \<Rightarrow>
              if elapsed then Ok (forward inner (Some (plan\<lparr>split_state := Through\<rparr>)) buf)
              else Ok \<lparr>wr_offered = None, wr_answer = Pending, wr_plan = Some plan\<rparr>
          | Through \<Rightarrow> Ok (forward inner (Some plan) buf)))"

definition is_write_vectored :: "bool \<Rightarrow> split_plan option \<Rightarrow> bool" where
  "is_write_vectored inner_vectored plan =
     ((case plan of None \<Rightarrow> True | Some p \<Rightarrow> split_state p = Through) \<and> inner_vectored)"

text \<open>\<open>poll_write_vectored\<close>: all the buffers at once when nothing is left to split, the first non-empty
  one otherwise. The inner socket's vectored write is offered the buffers in order.\<close>

definition poll_write_vectored ::
    "(bytes list \<Rightarrow> 'x poll_result) \<Rightarrow> (bytes \<Rightarrow> 'x poll_result) \<Rightarrow> bool \<Rightarrow> bool \<Rightarrow> split_plan option \<Rightarrow>
     bytes list \<Rightarrow> (unit, 'x write_result) outcome" where
  "poll_write_vectored inner_vec inner inner_vectored elapsed plan bufs =
     (if is_write_vectored inner_vectored plan then
        Ok \<lparr>wr_offered = Some (concat bufs), wr_answer = inner_vec bufs, wr_plan = plan\<rparr>
      else
        poll_write inner elapsed plan
          (case List.find (\<lambda>b. b \<noteq> []) bufs of Some b \<Rightarrow> b | None \<Rightarrow> []))"

text \<open>A writer: it offers what is left of its bytes and advances by what it was told. Each call comes
  with the socket's behaviour and the timer. The result is what reached the wire, what is left and
  the plan.\<close>

fun write_run ::
    "((bytes \<Rightarrow> 'x poll_result) \<times> bool) list \<Rightarrow> split_plan option \<Rightarrow> bytes \<Rightarrow>
     (unit, bytes list \<times> bytes \<times> split_plan option) outcome" where
  "write_run [] plan buf = Ok ([], buf, plan)"
| "write_run ((inner, elapsed) # calls) plan buf =
     and_then (poll_write inner elapsed plan buf) (\<lambda>w.
       (case wr_answer w of
          Ready n \<Rightarrow>
            and_then (write_run calls (wr_plan w) (drop n buf)) (\<lambda>(segments, rest, plan).
              Ok ((case wr_offered w of Some seg \<Rightarrow> take n seg | None \<Rightarrow> []) # segments, rest, plan))
        | _ \<Rightarrow> write_run calls (wr_plan w) buf))"

section \<open>Lemmas\<close>

lemma handshake_from_code_code: "handshake_from_code (handshake_code h) = h"
  by (cases h) (simp_all add: handshake_from_code_def)

lemma find_window_Some:
  "find_window n bs = Some i \<Longrightarrow>
     i + length n \<le> length bs \<and> take (length n) (drop i bs) = n \<and>
     (\<forall>j<i. take (length n) (drop j bs) \<noteq> n)"
proof (induction n bs arbitrary: i rule: find_window.induct)
  case (2 n b bs)
  show ?case
  proof (cases i)
    case 0
    with 2 show ?thesis by (auto split: if_splits)
  next
    case (Suc k)
    with 2 have k: "find_window n bs = Some k"
      and no: "\<not> (length n \<le> length (b # bs) \<and> take (length n) (b # bs) = n)"
      by (auto split: if_splits)
    have first: "take (length n) (b # bs) \<noteq> n"
      using no by (metis length_take min.cobounded2 nat_le_linear take_all_iff min.absorb2)
    have "\<forall>j<i. take (length n) (drop j (b # bs)) \<noteq> n"
    proof (intro allI impI)
      fix j assume "j < i"
      then show "take (length n) (drop j (b # bs)) \<noteq> n"
        using first 2(1) no k Suc by (cases j) auto
    qed
    then show ?thesis using 2(1) no k Suc by auto
  qed
qed simp

text \<open>Whatever the plan, the inner socket is offered a prefix of the caller's buffer, or is not polled,
  and what the caller is told is what the socket answered.\<close>

lemma poll_write_shape:
  assumes "poll_write inner elapsed plan buf = Ok w"
  shows "(wr_offered w = None \<and> wr_answer w = Pending \<or>
      (\<exists>k \<le> length buf. wr_offered w = Some (take k buf) \<and> wr_answer w = inner (take k buf))) \<and>
    (case plan of None \<Rightarrow> wr_plan w = None
     | Some p \<Rightarrow> \<exists>q. wr_plan w = Some q \<and> needle q = needle p \<and>
          (split_state p = Through \<longrightarrow> split_state q = Through))"
proof (cases plan)
  case None
  then show ?thesis using assms by (auto simp: poll_write_def forward_def intro: exI[of _ "length buf"])
next
  case (Some p)
  show ?thesis
  proof (cases "split_state p")
    case Waiting
    then obtain cut where cut: "cut_point buf (needle p) = Ok cut"
      using assms Some by (cases "cut_point buf (needle p)") (auto simp: poll_write_def)
    show ?thesis
    proof (cases cut)
      case None
      then show ?thesis using assms Some Waiting cut
        by (auto simp: poll_write_def forward_def intro: exI[of _ "length buf"])
    next
      case (Some k)
      have k: "k < length buf" using cut Some by (auto simp: cut_point_def Let_def split: if_splits)
      show ?thesis using assms \<open>plan = Some p\<close> Waiting cut Some k
        by (cases "inner (take k buf)")
          (auto simp: poll_write_def out_simps intro!: exI[of _ k])
    qed
  next
    case Holding
    then show ?thesis using assms Some
      by (auto simp: poll_write_def forward_def intro: exI[of _ "length buf"] split: if_splits)
  next
    case Through
    then show ?thesis using assms Some
      by (auto simp: poll_write_def forward_def intro: exI[of _ "length buf"])
  qed
qed

lemma poll_write_prefix:
  assumes "poll_write inner elapsed plan buf = Ok w" "wr_answer w = Ready n"
  shows "\<exists>k \<le> length buf. wr_offered w = Some (take k buf) \<and> inner (take k buf) = Ready n"
  using poll_write_shape[OF assms(1)] assms(2) by auto

lemma poll_write_no_panic:
  assumes "\<forall>p. plan = Some p \<longrightarrow> needle p \<noteq> []"
  shows "poll_write inner elapsed plan buf \<noteq> Panic"
  using assms
  by (auto simp: poll_write_def and_then_eq_Panic cut_point_def slice_def Let_def
      split: option.splits split_state.splits if_splits)

section \<open>Properties\<close>

text \<open>C26. The wrapper is transparent: however the inner socket answers and whatever the strategy, what
  reaches the wire over any sequence of writes, followed by what the caller still has to write, is
  exactly what the caller set out to write, and no call panics.\<close>

theorem write_run_transparent:
  assumes "\<forall>(inner, _)\<in>set calls. \<forall>b n. inner b = Ready n \<longrightarrow> n \<le> length b"
  shows "\<exists>segments rest plan. write_run calls (wrapping h) buf = Ok (segments, rest, plan) \<and>
    concat segments @ rest = buf"
proof -
  have gen: "\<exists>segments rest plan'. write_run calls plan buf = Ok (segments, rest, plan') \<and>
      concat segments @ rest = buf"
    if "\<forall>p. plan = Some p \<longrightarrow> needle p \<noteq> []" "\<forall>(inner, _)\<in>set calls. \<forall>b n. inner b = Ready n \<longrightarrow> n \<le> length b"
    for plan buf and calls :: "((bytes \<Rightarrow> 'a poll_result) \<times> bool) list"
    using that
  proof (induction calls arbitrary: plan buf)
    case (Cons c calls)
    obtain inner elapsed where c: "c = (inner, elapsed)" by (cases c)
    obtain w where w: "poll_write inner elapsed plan buf = Ok w"
    proof (cases "poll_write inner elapsed plan buf")
      case (Err e)
      then show ?thesis
        by (auto simp: poll_write_def cut_point_def slice_def Let_def
            split: option.splits split_state.splits if_splits)
    next
      case Panic
      then show ?thesis using poll_write_no_panic[OF Cons.prems(1)] by blast
    qed (use that in blast)
    have plan: "\<forall>p. wr_plan w = Some p \<longrightarrow> needle p \<noteq> []"
    proof (cases plan)
      case None
      with w show ?thesis by (auto simp: poll_write_def forward_def)
    next
      case (Some p)
      with poll_write_shape[OF w] Cons.prems(1) show ?thesis by auto
    qed
    show ?case
    proof (cases "wr_answer w")
      case (Ready n)
      obtain k where k: "k \<le> length buf" "wr_offered w = Some (take k buf)" "inner (take k buf) = Ready n"
        using poll_write_prefix[OF w Ready] by blast
      have n: "n \<le> k" using Cons.prems(2) k by (force simp: c)
      obtain segments rest plan' where "write_run calls (wr_plan w) (drop n buf) = Ok (segments, rest, plan')"
        "concat segments @ rest = drop n buf"
        using Cons.IH[OF plan, of "drop n buf"] Cons.prems(2) by auto
      then show ?thesis using w Ready k n by (simp add: c min_def)
    qed (use Cons.IH[OF plan, of buf] Cons.prems(2) w in \<open>auto simp: c\<close>)
  qed simp
  have "ascii CONNECT_SNI \<noteq> []" by (simp add: ascii_def CONNECT_SNI_def)
  then have "\<forall>p. wrapping h = Some p \<longrightarrow> needle p \<noteq> []"
    by (cases h) (auto simp: wrapping_def split_plan_new_def)
  from gen[OF this assms] show ?thesis .
qed

theorem write_run_transparent_witness:
  "\<exists>segments rest plan.
     write_run [(\<lambda>b. Ready (length b), True), (\<lambda>b. Pending, True), (\<lambda>b. Ready (min 3 (length b)), True)]
       (wrapping SplitSlow) (1 # ascii CONNECT_SNI @ [2]) = Ok (segments, rest, plan) \<and>
     concat segments @ rest = 1 # ascii CONNECT_SNI @ [2]"
  by (rule write_run_transparent) auto

text \<open>When the name stands in the first buffer, the first segment a split hands to the socket ends
  inside it: the segment is not empty, leaves something for a second one, and holds the whole name
  nowhere.\<close>

theorem split_first_segment:
  assumes "find_window n buf = Some i" "2 \<le> length n"
  shows "\<exists>k. cut_point buf n = Ok (Some k) \<and> 0 < k \<and> k < length buf \<and> find_window n (take k buf) = None"
proof -
  note f = find_window_Some[OF assms(1)]
  define k where "k = i + length n div 2"
  have k: "i < k" "k < i + length n" using assms(2) by (simp_all add: k_def)
  have "find_window n (take k buf) = None"
  proof (rule ccontr)
    assume "find_window n (take k buf) \<noteq> None"
    then obtain j where "find_window n (take k buf) = Some j" by auto
    note g = find_window_Some[OF this]
    have "j < i" using g k f by simp
    moreover have "take (length n) (drop j buf) = n"
    proof -
      have "take (length n) (drop j (take k buf)) = take (length n) (drop j buf)"
        using g by (simp add: drop_take min_absorb1 le_diff_conv2 add.commute)
      then show ?thesis using g by simp
    qed
    ultimately show False using f by blast
  qed
  moreover have "n \<noteq> []" using assms(2) by auto
  ultimately show ?thesis using assms(1) k f by (simp add: cut_point_def flip: k_def)
qed

theorem split_first_segment_witness:
  "\<exists>k. cut_point [9, 1, 2, 3, 4, 9] [1, 2, 3, 4] = Ok (Some k) \<and> 0 < k \<and>
    k < length [9, 1, 2, 3, 4, 9 :: u8] \<and> find_window [1, 2, 3, 4] (take k [9, 1, 2, 3, 4, 9]) = None"
  by (rule split_first_segment[where i = 1]) code_simp+

end
