(* ===== verification/Carrier.thy ===== *)
theory Carrier
  imports Handshake
begin

text \<open>
  Which carrier a tunnel rides, \<open>src/transport/carrier.rs\<close>: the choice and its written names, the
  parking of HTTP/3, the plan of one attempt, and the attempt itself as \<open>connect\<close> of
  \<open>src/transport/connect_ip.rs\<close> runs it, with the two carriers' own connections as arguments. Shown:
  the plan follows the handshake, the choice and the parking; a failed HTTP/3 attempt costs its
  timeout once, not again until the parking ends or is lifted.
\<close>

datatype carrier = H2 | H3

fun carrier_name :: "carrier \<Rightarrow> string" where
  "carrier_name H2 = ''h2''"
| "carrier_name H3 = ''h3''"

datatype choice = Auto | ChoiceH3 | ChoiceH2

definition choice_ALL :: "choice list" where
  "choice_ALL = [Auto, ChoiceH3, ChoiceH2]"

fun choice_name :: "choice \<Rightarrow> string" where
  "choice_name Auto = ''auto''"
| "choice_name ChoiceH3 = ''h3''"
| "choice_name ChoiceH2 = ''h2''"

definition choice_parse :: "string \<Rightarrow> choice option" where
  "choice_parse written = List.find (\<lambda>c. choice_name c = written) choice_ALL"

fun choice_code :: "choice \<Rightarrow> u8" where
  "choice_code Auto = 0"
| "choice_code ChoiceH3 = 1"
| "choice_code ChoiceH2 = 2"

definition choice_from_code :: "u8 \<Rightarrow> choice" where
  "choice_from_code c = (if c = 1 then ChoiceH3 else if c = 2 then ChoiceH2 else Auto)"

definition PARK_FOR :: duration where
  "PARK_FOR = from_secs 600"

text \<open>The process-wide state: the choice's code, the adapter's largest packet, and when HTTP/3 may be
  tried again.\<close>

record carrier_state =
  carrier_choice :: u8
  largest_packet :: nat
  parked_until :: "instant option"

definition carrier_initial :: carrier_state where
  "carrier_initial = \<lparr>carrier_choice = choice_code Auto, largest_packet = 1280, parked_until = None\<rparr>"

definition carrier_select :: "choice \<Rightarrow> carrier_state \<Rightarrow> carrier_state" where
  "carrier_select c st = st\<lparr>carrier_choice := choice_code c\<rparr>"

definition carrier_selected :: "carrier_state \<Rightarrow> choice" where
  "carrier_selected st = choice_from_code (carrier_choice st)"

definition set_largest_packet :: "nat \<Rightarrow> carrier_state \<Rightarrow> carrier_state" where
  "set_largest_packet n st = st\<lparr>largest_packet := n\<rparr>"

definition park :: "instant \<Rightarrow> carrier_state \<Rightarrow> carrier_state" where
  "park now st = st\<lparr>parked_until := Some (now + PARK_FOR)\<rparr>"

definition unpark :: "carrier_state \<Rightarrow> carrier_state" where
  "unpark st = st\<lparr>parked_until := None\<rparr>"

definition parked :: "instant \<Rightarrow> carrier_state \<Rightarrow> bool" where
  "parked now st = (case parked_until st of Some until \<Rightarrow> now < until | None \<Rightarrow> False)"

datatype plan = Only carrier | H3ThenH2

definition plan :: "choice \<Rightarrow> handshake \<Rightarrow> bool \<Rightarrow> plan" where
  "plan choice h is_parked =
     (if \<not> works_over_quic h then Only H2
      else
        (case choice of
           ChoiceH2 \<Rightarrow> Only H2
         | ChoiceH3 \<Rightarrow> Only H3
         | Auto \<Rightarrow> if is_parked then Only H2 else H3ThenH2))"

text \<open>One attempt. \<open>over\<close> is what opening the tunnel over a carrier gives; \<open>now\<close> is when the attempt
  starts and \<open>later\<close> when HTTP/3's failure is known. The result also lists the carriers tried.\<close>

definition connect ::
    "(carrier \<Rightarrow> 'e + 't) \<Rightarrow> handshake_choice \<Rightarrow> instant \<Rightarrow> instant \<Rightarrow> carrier_state \<Rightarrow>
     ('e + 't) \<times> carrier list \<times> carrier_state" where
  "connect over hs now later st =
     (case plan (carrier_selected st) (handshake_selected hs) (parked now st) of
        Only c \<Rightarrow> (over c, [c], st)
      | H3ThenH2 \<Rightarrow>
         (case over H3 of
            Inr opened \<Rightarrow> (Inr opened, [H3], st)
          | Inl problem \<Rightarrow> (over H2, [H3, H2], park later st)))"

section \<open>Lemmas\<close>

lemma choice_from_code_code: "choice_from_code (choice_code c) = c"
  by (cases c) (simp_all add: choice_from_code_def)

lemma carrier_selected_select: "carrier_selected (carrier_select c st) = c"
  by (simp add: carrier_selected_def carrier_select_def choice_from_code_code)

lemma choice_parse_name: "choice_parse written = Some c \<longleftrightarrow> choice_name c = written"
  by (cases c) (auto simp: choice_parse_def choice_ALL_def)

lemma handshake_parse_name: "handshake_parse written = Some h \<longleftrightarrow> handshake_name h = written"
  by (cases h) (auto simp: handshake_parse_def handshake_ALL_def)

lemma parked_park: "parked t (park now st) \<longleftrightarrow> t < now + PARK_FOR"
  by (simp add: parked_def park_def)

lemma connect_keeps_choice: "connect over hs now later st = (r, tried, st') \<Longrightarrow> carrier_choice st' = carrier_choice st"
  by (auto simp: connect_def park_def split: plan.splits sum.splits)

lemma H2_tried: "connect over hs now later st = (r, tried, st') \<Longrightarrow> parked now st \<Longrightarrow>
    carrier_selected st = Auto \<Longrightarrow> tried = [H2] \<and> r = over H2 \<and> st' = st"
  by (auto simp: connect_def plan_def split: if_splits)

section \<open>Properties\<close>

text \<open>Under the automatic choice a link that drops QUIC pays HTTP/3's timeout once: after an attempt
  in which HTTP/3 failed, every attempt within the parking time goes to HTTP/2 alone, and the first
  one after it, or after the parking is lifted, tries HTTP/3 again.\<close>

theorem h3_failure_paid_once:
  assumes "carrier_selected st = Auto" "works_over_quic (handshake_selected hs)" "\<not> parked now st"
    and "over H3 = Inl e" "connect over hs now later st = (r, tried, st')"
  shows "tried = [H3, H2] \<and> r = over H2 \<and>
    (\<forall>t < later + PARK_FOR. connect over' hs t t' st' = (over' H2, [H2], st')) \<and>
    (\<forall>t \<ge> later + PARK_FOR. hd (fst (snd (connect over' hs t t' st'))) = H3) \<and>
    hd (fst (snd (connect over' hs t t' (unpark st')))) = H3"
proof -
  have st': "tried = [H3, H2]" "r = over H2" "st' = park later st"
    using assms by (auto simp: connect_def plan_def)
  have auto: "carrier_selected st' = Auto" "carrier_selected (unpark st') = Auto"
    using assms(1) by (simp_all add: st' park_def unpark_def carrier_selected_def)
  have free: "\<not> parked t (unpark st')" for t by (simp add: parked_def unpark_def)
  show ?thesis
    using auto free assms(2)
    by (auto simp: st'(1,2) connect_def plan_def parked_park[of _ later st, folded st'(3)] split: sum.split)
qed

theorem h3_failure_paid_once_witness:
  "connect (\<lambda>c. Inl ()) handshake_initial (from_secs 300) (from_secs 304)
      (park 0 carrier_initial) = (Inl () :: unit + unit, [H2], park 0 carrier_initial)"
proof -
  have c: "carrier_selected carrier_initial = Auto" "works_over_quic (handshake_selected handshake_initial)"
    "\<not> parked 0 carrier_initial"
    by (simp_all add: carrier_initial_def handshake_initial_def carrier_selected_def
        choice_from_code_def handshake_selected_def handshake_from_code_def works_over_quic_def parked_def)
  then have "connect (\<lambda>c. Inl () :: unit + unit) handshake_initial 0 0 carrier_initial =
      (Inl (), [H3, H2], park 0 carrier_initial)"
    by (simp add: connect_def plan_def)
  note once = h3_failure_paid_once[OF c _ this, of "()"]
  have "from_secs 300 < 0 + PARK_FOR" by (simp add: from_secs_def PARK_FOR_def)
  with once show ?thesis by blast
qed

end
