(* ===== verification/Connect_Ip.thy ===== *)
theory Connect_Ip
  imports Hop_Limit Http3 Carrier
begin

text \<open>
  The tunnel as the engine sees it, \<open>src/transport/connect_ip.rs\<close>: why one could not be opened or
  stopped carrying, and the stages of bringing it up. Errors of packages are opaque values of the
  type \<open>'x\<close>, statuses of the type \<open>'st\<close>.
\<close>

datatype ('x, 'st) connect_error =
    TlsSetup 'x
  | Io 'x
  | H2Failed 'x
  | Request 'x
  | Refused 'st
  | BadEndpoint string
  | Closed
  | Framing too_long
  | HandshakeCut string string
  | QuicUnavailable string
  | H3Unanswered string string
  | H3Refused 'st
  | H3Unfit string
  | Quic 'x
  | QuicWrite 'x
  | QuicRead 'x
  | H3Broken h3_error
  | GoingAway

definition is_blocked :: "('x, 'st) connect_error \<Rightarrow> bool" where
  "is_blocked e = (case e of HandshakeCut _ _ \<Rightarrow> True | H3Unanswered _ _ \<Rightarrow> True | _ \<Rightarrow> False)"

datatype stages =
    StagesH2 (tcp_ms: nat) (tls_ms: nat) (http2_ms: nat) (connect_ms: nat)
  | StagesH3 (quic_ms: nat) (settings_ms: nat) (connect_ms: nat)

fun stages_carrier :: "stages \<Rightarrow> carrier" where
  "stages_carrier (StagesH2 _ _ _ _) = H2"
| "stages_carrier (StagesH3 _ _ _) = H3"

fun stages_steps :: "stages \<Rightarrow> (string \<times> nat) list" where
  "stages_steps (StagesH2 tcp tls http2 con) =
     [(''tcp'', tcp), (''tls'', tls), (''http2'', http2), (''connect'', con)]"
| "stages_steps (StagesH3 quic settings con) =
     [(''quic'', quic), (''settings'', settings), (''connect'', con)]"

text \<open>What a run of packets becomes on the way out: those a router would forward, each with its hop
  limit lowered, in the order given.\<close>

definition forwarded :: "bytes list \<Rightarrow> bytes list" where
  "forwarded packets = concat (map (\<lambda>p.
     (case decrement_hop_limit p of Ok (True, q) \<Rightarrow> [q] | _ \<Rightarrow> [])) packets)"

lemma decrement_shape:
  obtains ok q where "decrement_hop_limit p = Ok (ok, q)" "length q = length p"
proof (cases "(version p = Some 4 \<and> 20 \<le> ihl p \<and> ihl p \<le> length p \<and> 1 < p ! 8) \<or>
    (version p = Some 6 \<and> 40 \<le> length p \<and> 1 < p ! 7)")
  case True
  then show ?thesis
  proof
    assume v4: "version p = Some 4 \<and> 20 \<le> ihl p \<and> ihl p \<le> length p \<and> 1 < p ! 8"
    then have "Suc (Suc (length p - 2)) = length p" by linarith
    with v4 show ?thesis using that decrement_v4[of p] by (simp add: Let_def del: be_bytes.simps)
  next
    assume "version p = Some 6 \<and> 40 \<le> length p \<and> 1 < p ! 7"
    then show ?thesis using that decrement_v6[of p] by simp
  qed
next
  case False
  then show ?thesis using that decrement_refused[of p] by blast
qed

lemma forwarded_simps:
  "forwarded [] = []"
  "decrement_hop_limit p = Ok (ok, q) \<Longrightarrow>
     forwarded (p # ps) = (if ok then q # forwarded ps else forwarded ps)"
  by (simp_all add: forwarded_def)

lemma forwarded_length:
  "\<forall>p\<in>set ps. length p \<le> n \<Longrightarrow> \<forall>q\<in>set (forwarded ps). length q \<le> n"
proof (induction ps)
  case (Cons p ps)
  obtain ok q where "decrement_hop_limit p = Ok (ok, q)" "length q = length p" by (rule decrement_shape)
  with Cons show ?case by (auto simp: forwarded_simps)
qed (simp add: forwarded_simps)

end
