(* ===== verification/H2_Tunnel.thy ===== *)
theory H2_Tunnel
  imports Connect_Ip
begin

text \<open>
  The HTTP/2 carrier's two halves, \<open>send\<close> and \<open>recv\<close> of \<open>src/transport/tcp.rs\<close>: a run of packets
  staged as capsules and written as one frame once the stream has room, and packets taken from the
  chunks the response body delivers. The HTTP/2 library is the script of what its calls answer.
  Shown: what is sent is what a router would forward, in order, and it arrives whole at the other end
  of the stream however the stream was cut; nothing is written before the stream has the room; a
  failed send leaves nothing staged.
\<close>

section \<open>Sending\<close>

text \<open>What \<open>poll_capacity\<close> resolves to: more room (the capacity afterwards), an error, or the end of
  the stream.\<close>

datatype 'x capacity_poll = Room nat | RoomError 'x | NoRoom

text \<open>The loop that fills the staging buffer.\<close>

fun h2_stage :: "bytes \<Rightarrow> bytes list \<Rightarrow> (('x, 'st) connect_error, bytes) outcome" where
  "h2_stage staging [] = Ok staging"
| "h2_stage staging (packet # packets) =
     and_then (infallible (decrement_hop_limit packet)) (\<lambda>(ok, packet).
       h2_stage (if ok then encode_datagram_into staging packet else staging) packets)"

text \<open>The loop that waits for room; \<open>None\<close> while the script has not resolved it.\<close>

fun h2_wait_room :: "nat \<Rightarrow> nat \<Rightarrow> 'x capacity_poll list \<Rightarrow> (('x, 'st) connect_error, unit) outcome option" where
  "h2_wait_room need capacity [] = (if capacity < need then None else Some (Ok ()))"
| "h2_wait_room need capacity (poll # polls) =
     (if capacity < need then
        (case poll of
           Room c \<Rightarrow> h2_wait_room need c polls
         | RoomError e \<Rightarrow> Some (Err (H2Failed e))
         | NoRoom \<Rightarrow> Some (Err Closed))
      else Some (Ok ()))"

text \<open>One send: the staging buffer it starts from and leaves, the frames handed to the stream, and the
  result once there is one. \<open>accept\<close> is what \<open>send_data\<close> answers.\<close>

definition h2_send ::
    "(bytes \<Rightarrow> 'x option) \<Rightarrow> nat \<Rightarrow> 'x capacity_poll list \<Rightarrow> bytes \<Rightarrow> bytes list \<Rightarrow>
     bytes \<times> bytes list \<times> (('x, 'st) connect_error, unit) outcome option" where
  "h2_send accept capacity polls staging packets =
     (case h2_stage staging packets of
        Ok staging \<Rightarrow>
          if staging = [] then ([], [], Some (Ok ()))
          else
            (let frame = staging; staging = [] in
             (case h2_wait_room (length frame) capacity polls of
                Some (Ok _) \<Rightarrow>
                  (case accept frame of
                     None \<Rightarrow> (staging, [frame], Some (Ok ()))
                   | Some e \<Rightarrow> (staging, [], Some (Err (H2Failed e))))
              | result \<Rightarrow> (staging, [], result)))
      | Err e \<Rightarrow> (staging, [], Some (Err e))
      | Panic \<Rightarrow> (staging, [], Some Panic))"

section \<open>Receiving\<close>

text \<open>What the response body yields: a chunk and whether reopening the window failed, an error, or the
  end. A script that has run out is a read that has not resolved.\<close>

datatype 'x body_event = Data bytes "'x option" | DataError 'x | DataEnd

function h2_recv ::
    "bytes \<Rightarrow> 'x body_event list \<Rightarrow>
     bytes \<times> 'x body_event list \<times> (('x, 'st) connect_error, bytes option) outcome option" where
  "h2_recv pending inbound =
     (case take_capsule pending of
        Ok (Some (Some body), pending) \<Rightarrow> (pending, inbound, Some (Ok (Some body)))
      | Ok (Some None, pending') \<Rightarrow>
          h2_recv pending' inbound
      | Err e \<Rightarrow> (pending, inbound, Some (Err (Framing e)))
      | Panic \<Rightarrow> (pending, inbound, Some Panic)
      | Ok (None, pending) \<Rightarrow>
         (case inbound of
            [] \<Rightarrow> (pending, [], None)
          | DataEnd # inbound \<Rightarrow> (pending, inbound, Some (Ok None))
          | DataError e # inbound \<Rightarrow> (pending, inbound, Some (Err (H2Failed e)))
          | Data chunk (Some e) # inbound \<Rightarrow> (pending, inbound, Some (Err (H2Failed e)))
          | Data chunk None # inbound \<Rightarrow> h2_recv (pending @ chunk) inbound))"
  by pat_completeness auto
termination
  by (relation "measures [\<lambda>(_, inbound). length inbound, \<lambda>(pending, _). length pending]")
    (auto dest: take_capsule_progress)

declare h2_recv.simps [simp del]

text \<open>The packets a reader gets by calling \<open>recv\<close> again and again, with what the last call gave.\<close>

definition h2_left :: "bytes \<Rightarrow> 'x body_event list \<Rightarrow> nat" where
  "h2_left pending inbound =
     length pending + sum_list (map (\<lambda>ev. case ev of Data chunk _ \<Rightarrow> length chunk | _ \<Rightarrow> 0) inbound)"

lemma h2_recv_left:
  "h2_recv pending inbound = (pending', inbound', r) \<Longrightarrow>
     h2_left pending' inbound' \<le> h2_left pending inbound \<and>
     (r = Some (Ok (Some body)) \<longrightarrow> h2_left pending' inbound' < h2_left pending inbound)"
proof (induction pending inbound rule: h2_recv.induct)
  case (1 pending inbound)
  show ?case
  proof (cases "take_capsule pending")
    case (Ok x)
    obtain ro p' where x: "x = (ro, p')" by (cases x)
    show ?thesis
    proof (cases ro)
      case None
      then have p': "p' = pending" using Ok take_capsule_wait by (simp add: x)
      show ?thesis
      proof (cases inbound)
        case (Cons ev evs)
        show ?thesis
        proof (cases ev)
          case (Data chunk e)
          show ?thesis
          proof (cases e)
            case None
            with Data Cons Ok x \<open>ro = None\<close> p' 1(1)[OF Ok[unfolded x \<open>ro = None\<close>] refl refl Cons Data None] 1(3)
            show ?thesis by (simp add: h2_recv.simps[of pending] h2_left_def add.assoc)
          qed (use 1(3) Data Cons Ok x \<open>ro = None\<close> p' in \<open>auto simp: h2_recv.simps[of pending] h2_left_def\<close>)
        qed (use 1(3) Cons Ok x \<open>ro = None\<close> p' in \<open>auto simp: h2_recv.simps[of pending] h2_left_def\<close>)
      qed (use 1(3) Ok x None p' in \<open>auto simp: h2_recv.simps[of pending] h2_left_def\<close>)
    next
      case (Some c)
      have less: "length p' < length pending" using Ok Some x take_capsule_progress by blast
      show ?thesis
      proof (cases c)
        case None
        with 1(2)[OF Ok[unfolded x Some None] refl refl refl] 1(3) Ok x Some less show ?thesis
          by (simp add: h2_recv.simps[of pending] h2_left_def)
      next
        case (Some b)
        with 1(3) Ok x \<open>ro = Some c\<close> less show ?thesis
          by (auto simp: h2_recv.simps[of pending] h2_left_def)
      qed
    qed
  qed (use 1(3) in \<open>auto simp: h2_recv.simps[of pending]\<close>)
qed

function h2_receive_all ::
    "bytes \<Rightarrow> 'x body_event list \<Rightarrow>
     bytes list \<times> bytes \<times> (('x, 'st) connect_error, bytes option) outcome option" where
  "h2_receive_all pending inbound =
     (case h2_recv pending inbound of
        (pending, inbound, Some (Ok (Some body))) \<Rightarrow>
          (case h2_receive_all pending inbound of (bodies, pending, r) \<Rightarrow> (body # bodies, pending, r))
      | (pending, _, r) \<Rightarrow> ([], pending, r))"
  by pat_completeness auto
termination
  by (relation "measure (\<lambda>(pending, inbound). h2_left pending inbound)")
    (auto dest!: sym[of "(_, _, _)"] h2_recv_left)

declare h2_receive_all.simps [simp del]

section \<open>Lemmas\<close>

lemma encode_datagram_into_append: "encode_datagram_into out p = out @ encode_datagram p"
  using varint_put_append[of "varint_put out DATAGRAM" "of_nat (length p)"]
    varint_put_append[of out DATAGRAM] varint_put_append[of "varint_put [] DATAGRAM" "of_nat (length p)"]
  by (simp add: encode_datagram_into_def encode_datagram_def)

lemma h2_stage_eq:
  "h2_stage staging packets = Ok (staging @ concat (map encode_datagram (forwarded packets)))"
proof (induction packets arbitrary: staging)
  case (Cons p ps)
  obtain ok q where "decrement_hop_limit p = Ok (ok, q)" by (rule decrement_shape)
  with Cons show ?case by (simp add: forwarded_simps encode_datagram_into_append)
qed (simp add: forwarded_simps)

lemma h2_wait_room_enough:
  "h2_wait_room need capacity polls = Some (Ok u) \<Longrightarrow>
     need \<le> capacity \<or> (\<exists>c. Room c \<in> set polls \<and> need \<le> c)"
  by (induction need capacity polls rule: h2_wait_room.induct)
    (auto split: if_splits capacity_poll.splits)

lemma h2_send_cases:
  fixes polls :: "'x capacity_poll list" and result :: "(('x, 'st) connect_error, unit) outcome option"
  assumes "h2_send accept capacity polls staging packets = (staging', frames, result)"
    and "frame = staging @ concat (map encode_datagram (forwarded packets))"
  shows "staging' = [] \<and>
    (frames = [frame] \<and> result = Some (Ok ()) \<and> result = h2_wait_room (length frame) capacity polls \<or>
     frames = [] \<and> (result = Some (Ok ()) \<longrightarrow> frame = []))"
proof (cases "frame = []")
  case True
  then show ?thesis using assms(1) by (simp add: h2_send_def h2_stage_eq flip: assms(2))
next
  case False
  note eq = assms(1)[unfolded h2_send_def h2_stage_eq, folded assms(2)]
  show ?thesis
  proof (cases "h2_wait_room (length frame) capacity polls :: (('x, 'st) connect_error, unit) outcome option")
    case None
    then show ?thesis using eq False by simp
  next
    case (Some r)
    then show ?thesis using eq False by (cases r; cases "accept frame") auto
  qed
qed

text \<open>One \<open>recv\<close> over what is left of a stream of framed packets gives the next packet, or waits when
  there is none.\<close>

lemma h2_recv_framed:
  assumes "\<forall>q\<in>set qs. length q \<le> 65535"
    and "pending @ concat cs = concat (map encode_datagram qs)"
  shows "\<exists>pending' cs'. h2_recv pending (map (\<lambda>c. Data c None) cs) =
      (pending', map (\<lambda>c. Data c None) cs', case qs of [] \<Rightarrow> None | q # _ \<Rightarrow> Some (Ok (Some q))) \<and>
    pending' @ concat cs' = concat (map encode_datagram (tl qs))"
  using assms
proof (induction cs arbitrary: pending)
  case Nil
  show ?case
  proof (cases qs)
    case Nil
    then have "take_capsule pending = Ok (None, [])" using \<open>pending @ concat [] = _\<close>
      by (simp add: take_capsule_header capsule_header_def varint_get_def)
    then show ?thesis using Nil by (intro exI[of _ "[]"]) (simp add: h2_recv.simps)
  next
    case (Cons q qs')
    then have "take_capsule pending = Ok (Some (Some q), concat (map encode_datagram qs'))"
      using Nil.prems take_encode_datagram[of q "concat (map encode_datagram qs')"] by simp
    then show ?thesis using Cons
      by (intro exI[of _ "concat (map encode_datagram qs')"] exI[of _ "[]"]) (simp add: h2_recv.simps)
  qed
next
  case (Cons c cs)
  show ?case
  proof (cases "take_capsule pending")
    case (Ok x)
    obtain ro p' where x: "x = (ro, p')" by (cases x)
    show ?thesis
    proof (cases ro)
      case None
      have "p' = pending" using Ok x None take_capsule_wait by simp
      then show ?thesis using Cons.IH[OF Cons.prems(1), of "pending @ c"] Cons.prems(2) Ok x None
        by (simp add: h2_recv.simps[of pending])
    next
      case (Some r)
      then have more: "take_capsule (pending @ concat (c # cs)) = Ok (Some r, p' @ concat (c # cs))"
        using Ok x take_capsule_more by simp
      show ?thesis
      proof (cases qs)
        case Nil
        then have "pending = []" using Cons.prems(2) by simp
        then show ?thesis using Ok x Some
          by (simp add: take_capsule_header capsule_header_def varint_get_def)
      next
        case (Cons q qs')
        then have "take_capsule (pending @ concat (c # cs)) = Ok (Some (Some q), concat (map encode_datagram qs'))"
          using Cons.prems take_encode_datagram[of q "concat (map encode_datagram qs')"] by simp
        then show ?thesis using more Ok x Some Cons
          by (intro exI[of _ p'] exI[of _ "c # cs"]) (auto simp: h2_recv.simps[of pending])
      qed
    qed
  next
    case (Err e)
    from take_capsule_refuse_more[OF this, of "concat (c # cs)"]
    have "take_capsule (concat (map encode_datagram qs)) = Err e" using Cons.prems(2) by simp
    then show ?thesis using take_encode_datagram[of "hd qs" "concat (map encode_datagram (tl qs))"] Cons.prems(1)
      by (cases qs) (auto simp: take_capsule_header capsule_header_def varint_get_def)
  next
    case Panic
    then show ?thesis using take_capsule_no_panic by blast
  qed
qed

lemma h2_receive_all_framed:
  assumes "\<forall>q\<in>set qs. length q \<le> 65535"
    and "pending @ concat cs = concat (map encode_datagram qs)"
  shows "h2_receive_all pending (map (\<lambda>c. Data c None) cs :: 'x body_event list) =
    (qs, [], None :: (('x, 'st) connect_error, bytes option) outcome option)"
  using assms
proof (induction qs arbitrary: pending cs)
  case Nil
  from h2_recv_framed[OF Nil] obtain p' cs' where
    "h2_recv pending (map (\<lambda>c. Data c None) cs :: 'x body_event list) =
      (p', map (\<lambda>c. Data c None) cs', None :: (('x, 'st) connect_error, bytes option) outcome option)"
    "p' @ concat cs' = []" by auto
  then show ?case by (subst h2_receive_all.simps) simp
next
  case (Cons q qs)
  from h2_recv_framed[OF Cons.prems] obtain p' cs' where
    "h2_recv pending (map (\<lambda>c. Data c None) cs :: 'x body_event list) = (p', map (\<lambda>c. Data c None) cs',
      Some (Ok (Some q)) :: (('x, 'st) connect_error, bytes option) outcome option)"
    "p' @ concat cs' = concat (map encode_datagram qs)" by auto
  with Cons.IH[of p' cs'] Cons.prems(1) show ?case by (subst h2_receive_all.simps) simp
qed

section \<open>Properties\<close>

text \<open>End to end over HTTP/2: whatever run of packets is sent, the one frame handed to the stream,
  cut into any chunks on the way, is read at the other end as exactly the packets a router would
  forward, each with its hop limit lowered, in the order they were given, with nothing left over.\<close>

theorem h2_tunnel_carries:
  assumes "\<forall>p\<in>set packets. length p \<le> 65535"
    and "h2_send accept capacity polls [] packets = (staging, frames, result)"
    and "result = Some (Ok ())" "concat cs = concat frames"
  shows "h2_receive_all [] (map (\<lambda>c. Data c None) cs) = (forwarded packets, [], None) \<and> staging = []"
proof -
  have "concat frames = concat (map encode_datagram (forwarded packets)) \<and> staging = []"
    using h2_send_cases[OF assms(2) refl] assms(3) by auto
  then show ?thesis
    using h2_receive_all_framed[OF forwarded_length[OF assms(1)], of "[]" cs] assms(4) by simp
qed

theorem h2_tunnel_carries_witness:
  "h2_receive_all [] [Data [0, 40, 0x60, 0, 0, 0, 0, 0, 0] None, Data (63 # replicate 32 0) None] =
    ([0x60 # replicate 6 0 @ 63 # replicate 32 0], [], None :: ((unit, unit) connect_error, _) outcome option)"
proof -
  define p :: bytes where "p = 0x60 # replicate 6 0 @ 64 # replicate 32 0"
  define q :: bytes where "q = 0x60 # replicate 6 0 @ 63 # replicate 32 0"
  have f: "forwarded [p, [1, 2]] = [q]" unfolding p_def q_def by code_simp
  have e: "encode_datagram q = [0, 40] @ q" unfolding q_def by code_simp
  have s: "h2_send (\<lambda>_. None :: unit option) 10 [Room 50] [] [p, [1, 2]] =
      ([], [encode_datagram q], Some (Ok () :: ((unit, unit) connect_error, unit) outcome))"
    by (simp add: h2_send_def h2_stage_eq f e Let_def) (simp add: q_def)
  have l: "\<forall>p'\<in>set [p, [1, 2]]. length p' \<le> 65535" by (simp add: p_def)
  have c: "concat [[0, 40, 0x60, 0, 0, 0, 0, 0, 0], 63 # replicate 32 0] = concat [encode_datagram q]"
    unfolding e q_def by code_simp
  from h2_tunnel_carries[OF l s refl c] show ?thesis unfolding f q_def[symmetric] by simp
qed

text \<open>A send writes at most one frame, and only once the stream has room for all of it; whatever
  happens, nothing stays staged, so a run that failed is never sent after the next one.\<close>

theorem h2_send_room:
  assumes "h2_send accept capacity polls staging packets = (staging', frames, result)"
  shows "staging' = [] \<and> length frames \<le> 1 \<and>
    (\<forall>frame\<in>set frames. result = Some (Ok ()) \<and>
       (length frame \<le> capacity \<or> (\<exists>c. Room c \<in> set polls \<and> length frame \<le> c)))"
proof -
  define frame where "frame = staging @ concat (map encode_datagram (forwarded packets))"
  from h2_send_cases[OF assms frame_def] consider
      "staging' = []" "frames = [frame]" "result = Some (Ok ())"
      "h2_wait_room (length frame) capacity polls = result"
    | "staging' = []" "frames = []" by metis
  then show ?thesis
  proof cases
    case 1
    with h2_wait_room_enough[of "length frame" capacity polls "()"] show ?thesis by simp
  qed simp
qed

theorem h2_send_room_witness:
  "([] :: bytes) = [] \<and> length ([] :: bytes list) \<le> 1"
proof -
  have "h2_send (\<lambda>_. None :: unit option) 0 [NoRoom] [1] [] =
      ([], [], Some (Err Closed :: ((unit, unit) connect_error, unit) outcome))"
    by (simp add: h2_send_def Let_def)
  from h2_send_room[OF this] show ?thesis by simp
qed

end
