(* ===== verification/Quic.thy ===== *)
theory Quic
  imports Connect_Ip
begin

text \<open>
  The HTTP/3 carrier's two halves and the tasks that read the endpoint's streams,
  \<open>src/transport/quic.rs\<close>. The QUIC library is the script of what its calls answer: each read, each
  datagram, each send. The tasks run concurrently over one shared state, so they are a step relation:
  one step is what one task does between two awaits. Shown: a sent datagram is one forwarded packet
  and reads back as it, whatever subset arrives in whatever order; only one task ever serves the
  control stream; SETTINGS are handed over once; and the reason recorded for a broken rule is the one
  the connection was closed with and is never replaced by a goodbye.
\<close>

section \<open>The halves of the tunnel\<close>

datatype ended = EndedGoingAway | Broke h3_error

fun ended_error :: "ended \<Rightarrow> ('x, 'st) connect_error" where
  "ended_error EndedGoingAway = GoingAway"
| "ended_error (Broke e) = H3Broken e"

definition gone :: "ended option \<Rightarrow> 'x \<Rightarrow> ('x, 'st) connect_error" where
  "gone ended lost = (case ended of Some e \<Rightarrow> ended_error e | None \<Rightarrow> Quic lost)"

text \<open>What \<open>send_datagram_wait\<close> answers; a path too small comes with what it takes now, a loss with
  what the endpoint's streams had recorded.\<close>

datatype 'x send_answer = Sent | TooLarge "nat option" | Unsupported | SendLost 'x "ended option"

definition too_large_message :: "nat \<Rightarrow> nat option \<Rightarrow> string" where
  "too_large_message len room =
     ''a '' @ decimal len @ ''-byte packet no longer fits the path, which now takes '' @
     decimal (case room of Some n \<Rightarrow> n | None \<Rightarrow> 0) @ '' bytes''"

text \<open>The datagrams handed to QUIC, and the result once there is one.\<close>

fun quic_send ::
    "u64 \<Rightarrow> bytes list \<Rightarrow> 'x send_answer list \<Rightarrow> bytes list \<times> (('x, 'st) connect_error, unit) outcome option" where
  "quic_send stream_id [] answers = ([], Some (Ok ()))"
| "quic_send stream_id (packet # packets) answers =
     (case decrement_hop_limit packet of
        Ok (ok, packet) \<Rightarrow>
          if \<not> ok then quic_send stream_id packets answers
          else
            (let d = datagram stream_id packet in
             (case answers of
                [] \<Rightarrow> ([], None)
              | answer # answers \<Rightarrow>
                 (case answer of
                    Sent \<Rightarrow> (case quic_send stream_id packets answers of (ds, r) \<Rightarrow> (d # ds, r))
                  | TooLarge room \<Rightarrow> ([], Some (Err (H3Unfit (too_large_message (length packet) room))))
                  | Unsupported \<Rightarrow> ([], Some (Err (H3Unfit ''the endpoint stopped taking datagrams'')))
                  | SendLost lost ended \<Rightarrow> ([], Some (Err (gone ended lost))))))
      | _ \<Rightarrow> ([], Some Panic))"

text \<open>What one turn of the receiver's \<open>select\<close> yields.\<close>

datatype 'x recv_event =
    Datagram bytes
  | DatagramLost 'x "ended option"
  | ResponseChunk
  | ResponseEnd
  | ResponseError 'x
  | EndedChanged "ended option"

fun quic_recv ::
    "u64 \<Rightarrow> 'x recv_event list \<Rightarrow> 'x recv_event list \<times> (('x, 'st) connect_error, bytes option) outcome option" where
  "quic_recv stream_id [] = ([], None)"
| "quic_recv stream_id (Datagram d # events) =
     (case datagram_packet d stream_id of
        Ok (Some packet) \<Rightarrow> (events, Some (Ok (Some packet)))
      | Ok None \<Rightarrow> quic_recv stream_id events
      | _ \<Rightarrow> (events, Some Panic))"
| "quic_recv stream_id (DatagramLost lost ended # events) = (events, Some (Err (gone ended lost)))"
| "quic_recv stream_id (ResponseChunk # events) = quic_recv stream_id events"
| "quic_recv stream_id (ResponseEnd # events) = (events, Some (Ok None))"
| "quic_recv stream_id (ResponseError problem # events) = (events, Some (Err (QuicRead problem)))"
| "quic_recv stream_id (EndedChanged ended # events) =
     (case ended of
        Some e \<Rightarrow> (events, Some (Err (ended_error e)))
      | None \<Rightarrow> quic_recv stream_id events)"

section \<open>The endpoint's streams\<close>

text \<open>What the tasks share: whether a control stream was seen, whether someone still waits for SETTINGS
  and what they were handed, why the tunnel ended, and the codes the connection was closed with.\<close>

record peer =
  control_seen :: bool
  settings_waiting :: bool
  settings_given :: "peer_settings list"
  peer_ended :: "ended option"
  peer_closes :: "u64 list"

definition peer_new :: peer where
  "peer_new = \<lparr>control_seen = False, settings_waiting = True, settings_given = [],
     peer_ended = None, peer_closes = []\<rparr>"

definition peer_fail :: "h3_error \<Rightarrow> peer \<Rightarrow> peer" where
  "peer_fail e p = p\<lparr>peer_ended := Some (Broke e), peer_closes := peer_closes p @ [h3_code e]\<rparr>"

definition on_control_event :: "control_event option \<Rightarrow> peer \<Rightarrow> peer" where
  "on_control_event ev p =
     (case ev of
        Some (Settings s) \<Rightarrow>
          if settings_waiting p
          then p\<lparr>settings_waiting := False, settings_given := settings_given p @ [s]\<rparr> else p
      | Some (GoAway _) \<Rightarrow>
          (case peer_ended p of None \<Rightarrow> p\<lparr>peer_ended := Some EndedGoingAway\<rparr> | Some _ \<Rightarrow> p)
      | None \<Rightarrow> p)"

text \<open>The inner loop of \<open>serve_control\<close>: every whole frame the reader holds. The result is the error
  the loop ends with, or the state it waits in.\<close>

function serve_frames ::
    "peer \<Rightarrow> bool \<Rightarrow> frame_reader \<Rightarrow> peer \<times> (h3_error, bool \<times> frame_reader) outcome" where
  "serve_frames p settled reader =
     (case next_frame reader of
        Ok (Some f, reader) \<Rightarrow>
          (case on_frame settled f of
             Ok (ev, settled) \<Rightarrow> serve_frames (on_control_event ev p) settled reader
           | Err e \<Rightarrow> (p, Err e)
           | Panic \<Rightarrow> (p, Panic))
      | Ok (None, reader) \<Rightarrow> (p, Ok (settled, reader))
      | Err e \<Rightarrow> (p, Err e)
      | Panic \<Rightarrow> (p, Panic))"
  by pat_completeness auto
termination
  by (relation "measure (\<lambda>(_, _, reader). length (fr_pending reader))") (auto dest: next_frame_progress)

declare serve_frames.simps [simp del]

text \<open>One task: reading the stream's type, serving the control stream, draining a QPACK stream, or
  finished.\<close>

datatype stream_task =
    Opening frame_reader
  | Control bool frame_reader
  | Draining
  | Finished

datatype stream_event = Chunk bytes | StreamEnd | StreamReset | StreamError

text \<open>What \<open>serve_control\<close> came to: it waits for the next read, or its error closes the connection.\<close>

definition control_result :: "peer \<times> (h3_error, bool \<times> frame_reader) outcome \<Rightarrow> peer \<times> stream_task" where
  "control_result = (\<lambda>(p, r).
     (case r of
        Ok (settled, reader) \<Rightarrow> (p, Control settled reader)
      | Err e \<Rightarrow> (peer_fail e p, Finished)
      | Panic \<Rightarrow> (p, Finished)))"

definition on_stream_kind :: "u64 \<Rightarrow> frame_reader \<Rightarrow> peer \<Rightarrow> peer \<times> stream_task" where
  "on_stream_kind k reader p =
     (if k = stream_CONTROL then
        (if control_seen p then (peer_fail SecondControl p, Finished)
         else control_result (serve_frames (p\<lparr>control_seen := True\<rparr>) False reader))
      else if k = stream_QPACK_ENCODER \<or> k = stream_QPACK_DECODER then (p, Draining)
      else (p, Finished))"

fun serve_stream :: "stream_event \<Rightarrow> peer \<Rightarrow> stream_task \<Rightarrow> peer \<times> stream_task" where
  "serve_stream (Chunk c) p (Opening reader) =
     (case take_varint (frame_extend reader c) of
        Ok (Some k, reader) \<Rightarrow> on_stream_kind k reader p
      | Ok (None, reader) \<Rightarrow> (p, Opening reader)
      | _ \<Rightarrow> (p, Finished))"
| "serve_stream _ p (Opening reader) = (p, Finished)"
| "serve_stream (Chunk c) p (Control settled reader) =
     control_result (serve_frames p settled (frame_extend reader c))"
| "serve_stream StreamError p (Control settled reader) = (p, Finished)"
| "serve_stream _ p (Control settled reader) = (peer_fail ControlClosed p, Finished)"
| "serve_stream (Chunk c) p Draining = (p, Draining)"
| "serve_stream _ p Draining = (p, Finished)"
| "serve_stream _ p Finished = (p, Finished)"

text \<open>The tasks of one connection, interleaved: the endpoint opens a stream, or one task takes a step.\<close>

inductive streams_reach :: "peer \<Rightarrow> stream_task list \<Rightarrow> bool" where
  streams_start: "streams_reach peer_new []"
| streams_accept: "streams_reach p tasks \<Longrightarrow> streams_reach p (tasks @ [Opening frame_reader_new])"
| streams_step: "streams_reach p tasks \<Longrightarrow> i < length tasks \<Longrightarrow>
    serve_stream ev p (tasks ! i) = (p', task) \<Longrightarrow> streams_reach p' (tasks[i := task])"

section \<open>Opening\<close>

text \<open>\<open>read_response\<close>: the reader, and what the reads of the response answer; \<open>None\<close> while unresolved.\<close>

datatype 'x response_read = ResponseData bytes | ResponseClosed | ResponseFailed 'x

function response_frames ::
    "(bytes \<Rightarrow> 'st option) \<Rightarrow> ('st \<Rightarrow> bool) \<Rightarrow> frame_reader \<Rightarrow> (h3_error, 'st option \<times> frame_reader) outcome" where
  "response_frames from_bytes interim reader =
     and_then (next_frame reader) (\<lambda>(f, reader').
       (case f of
          None \<Rightarrow> Ok (None, reader')
        | Some f \<Rightarrow>
            and_then (response_status from_bytes interim f) (\<lambda>status.
              (case status of
                 Some st \<Rightarrow> Ok (Some st, reader')
               | None \<Rightarrow> response_frames from_bytes interim reader'))))"
  by pat_completeness auto
termination
  by (relation "measure (\<lambda>(_, _, reader). length (fr_pending reader))") (auto dest: next_frame_progress)

declare response_frames.simps [simp del]

fun read_response ::
    "(bytes \<Rightarrow> 'st option) \<Rightarrow> ('st \<Rightarrow> bool) \<Rightarrow> frame_reader \<Rightarrow> 'x response_read list \<Rightarrow>
     (('x, 'st) connect_error, 'st) outcome option" where
  "read_response from_bytes interim reader reads =
     (case response_frames from_bytes interim reader of
        Err e \<Rightarrow> Some (Err (H3Broken e))
      | Panic \<Rightarrow> Some Panic
      | Ok (Some st, _) \<Rightarrow> Some (Ok st)
      | Ok (None, reader) \<Rightarrow>
         (case reads of
            [] \<Rightarrow> None
          | ResponseData c # reads \<Rightarrow> read_response from_bytes interim (frame_extend reader c) reads
          | ResponseClosed # _ \<Rightarrow> Some (Err (H3Broken (Message ''ended before it began'')))
          | ResponseFailed e # _ \<Rightarrow> Some (Err (QuicRead e))))"

declare read_response.simps [simp del]

text \<open>\<open>wait_for_room\<close>: each turn sees the path's datagram size, the close reason and the clock.\<close>

fun wait_for_room ::
    "nat \<Rightarrow> instant \<Rightarrow> (nat option \<times> 'x option \<times> instant) list \<Rightarrow> (('x, 'st) connect_error, unit) outcome option" where
  "wait_for_room needed deadline [] = None"
| "wait_for_room needed deadline ((room, lost, now) # turns) =
     (case room of
        None \<Rightarrow> Some (Err (H3Unfit ''the endpoint takes no datagrams''))
      | Some room \<Rightarrow>
          if room \<ge> needed then Some (Ok ())
          else
            (case lost of
               Some l \<Rightarrow> Some (Err (Quic l))
             | None \<Rightarrow>
                 if now \<ge> deadline then
                   Some (Err (H3Unfit (''the path takes '' @ decimal room @
                     ''-byte datagrams, and a full packet needs '' @ decimal needed)))
                 else wait_for_room needed deadline turns))"

section \<open>The halves\<close>

lemma datagram_read:
  "datagram_packet (datagram s packet) s = Ok (Some packet)"
proof -
  have "unat (s div 4) < 2 ^ 62" using unsigned_less[of s, where 'a = nat] by (simp add: unat_div)
  then have "s div 4 \<le> varint_MAX" by (simp add: varint_MAX_def word_le_nat_alt)
  from varint_get_put_Nil[OF this, of "0 # packet"] show ?thesis
    by (simp add: datagram_packet_def datagram_def out_simps varint_get_Cons Let_def)
qed

lemma quic_send_shape:
  "quic_send stream_id packets answers = (ds, r) \<Longrightarrow>
     ds = map (datagram stream_id) (take (length ds) (forwarded packets)) \<and>
     (r = Some (Ok ()) \<longrightarrow> ds = map (datagram stream_id) (forwarded packets))"
proof (induction stream_id packets answers arbitrary: ds r rule: quic_send.induct)
  case (1 stream_id answers)
  then show ?case by (simp add: forwarded_simps)
next
  case (2 stream_id packet packets answers)
  obtain ok q where q: "decrement_hop_limit packet = Ok (ok, q)" by (rule decrement_shape)
  show ?case
  proof (cases ok)
    case False
    with 2(1)[OF q refl, of ds] 2(3) q show ?thesis by (simp add: forwarded_simps)
  next
    case True
    show ?thesis
    proof (cases answers)
      case Nil
      then show ?thesis using 2(3) q True by (simp add: forwarded_simps Let_def)
    next
      case (Cons a as)
      show ?thesis
      proof (cases a)
        case Sent
        obtain ds' where s: "quic_send stream_id packets as = (ds', r)"
          and ds: "ds = datagram stream_id q # ds'"
          using 2(3) q True Cons Sent by (auto simp: Let_def split: prod.splits)
        from 2(2)[OF q refl _ refl Cons Sent s] True show ?thesis
          using q by (auto simp: forwarded_simps ds)
      qed (use 2(3) q True Cons in \<open>auto simp: forwarded_simps Let_def\<close>)
    qed
  qed
qed

lemma quic_recv_shorter:
  "quic_recv stream_id events = (events', Some r) \<Longrightarrow> length events' < length events"
  by (induction stream_id events rule: quic_recv.induct)
    (auto split: outcome.splits option.splits intro: less_SucI)

function quic_receive_all ::
    "u64 \<Rightarrow> 'x recv_event list \<Rightarrow> bytes list \<times> (('x, 'st) connect_error, bytes option) outcome option" where
  "quic_receive_all stream_id events =
     (case quic_recv stream_id events of
        (events, Some (Ok (Some packet))) \<Rightarrow>
          (case quic_receive_all stream_id events of (packets, r) \<Rightarrow> (packet # packets, r))
      | (_, r) \<Rightarrow> ([], r))"
  by pat_completeness auto
termination
  by (relation "measure (\<lambda>(_, events). length events)") (auto dest!: sym[of "(_, _)"] quic_recv_shorter)

declare quic_receive_all.simps [simp del]

lemma quic_receive_all_datagrams:
  "quic_receive_all stream_id (map Datagram (map (datagram stream_id) qs)) = (qs, None)"
proof (induction qs)
  case Nil
  show ?case by (subst quic_receive_all.simps) simp
next
  case (Cons q qs)
  then show ?case by (subst quic_receive_all.simps) (simp add: datagram_read)
qed

section \<open>The endpoint's streams\<close>

lemma parse_settings_no_panic: "parse_settings body seen s \<noteq> Panic"
proof (induction body seen s rule: parse_settings.induct)
  case (1 body seen s)
  then show ?case
    by (subst parse_settings.simps)
      (auto simp: and_then_eq_Panic slice_from_def dest!: varint_get_used(3) split: if_splits)
qed

lemma on_frame_no_panic: "on_frame settled f \<noteq> Panic"
  by (auto simp: on_frame_def peer_settings_parse_def and_then_eq_Panic parse_settings_no_panic
      split: if_splits)

lemma serve_frames_no_panic: "snd (serve_frames p settled reader) \<noteq> Panic"
proof (induction p settled reader rule: serve_frames.induct)
  case (1 p settled reader)
  then show ?case using next_frame_no_panic[of reader] on_frame_no_panic
    by (subst serve_frames.simps) (auto split: outcome.splits option.splits prod.splits)
qed

text \<open>What one peer state promises: SETTINGS handed over once at most, and the reason recorded for a
  broken rule is the code the connection was last closed with.\<close>

definition peer_ok :: "peer \<Rightarrow> bool" where
  "peer_ok p \<longleftrightarrow>
     (settings_waiting p \<longleftrightarrow> settings_given p = []) \<and> length (settings_given p) \<le> 1 \<and>
     (peer_closes p \<noteq> [] \<longrightarrow> (\<exists>e. peer_ended p = Some (Broke e) \<and> last (peer_closes p) = h3_code e)) \<and>
     (peer_closes p = [] \<longrightarrow> (\<forall>e. peer_ended p \<noteq> Some (Broke e)))"

lemma peer_ok_new: "peer_ok peer_new"
  by (simp add: peer_ok_def peer_new_def)

lemma peer_ok_fail: "peer_ok p \<Longrightarrow> peer_ok (peer_fail e p)"
  by (simp add: peer_ok_def peer_fail_def)

lemma control_seen_fail [simp]: "control_seen (peer_fail e p) = control_seen p"
  by (simp add: peer_fail_def)

lemma peer_ok_control_event: "peer_ok p \<Longrightarrow> peer_ok (on_control_event ev p)"
  by (auto simp: peer_ok_def on_control_event_def split: option.splits control_event.splits)

lemma control_seen_event: "control_seen (on_control_event ev p) = control_seen p"
  by (auto simp: on_control_event_def split: option.splits control_event.splits)

lemma peer_ok_seen: "peer_ok (p\<lparr>control_seen := b\<rparr>) = peer_ok p"
  by (simp add: peer_ok_def)

lemma serve_frames_ok:
  "serve_frames p settled reader = (p', r) \<Longrightarrow>
     (peer_ok p \<longrightarrow> peer_ok p') \<and> control_seen p' = control_seen p"
proof (induction p settled reader arbitrary: p' rule: serve_frames.induct)
  case (1 p settled reader)
  show ?case
  proof (cases "\<exists>f reader' ev settled'. next_frame reader = Ok (Some f, reader') \<and> on_frame settled f = Ok (ev, settled')")
    case True
    then obtain f reader' ev settled' where n: "next_frame reader = Ok (Some f, reader')"
      "on_frame settled f = Ok (ev, settled')" by blast
    with 1(2) have "serve_frames (on_control_event ev p) settled' reader' = (p', r)"
      by (subst (asm) serve_frames.simps) simp
    from 1(1)[OF n(1) refl refl n(2) refl this] show ?thesis
      using peer_ok_control_event[of p ev] by (simp add: control_seen_event)
  next
    case False
    then have "p' = p" using 1(2)
      by (subst (asm) serve_frames.simps) (auto split: outcome.splits option.splits prod.splits)
    then show ?thesis by simp
  qed
qed

fun is_control :: "stream_task \<Rightarrow> bool" where
  "is_control (Control _ _) = True"
| "is_control _ = False"

lemma control_result_ok:
  "control_result (serve_frames p settled reader) = (p', task) \<Longrightarrow>
     (peer_ok p \<longrightarrow> peer_ok p') \<and> control_seen p' = control_seen p"
  using serve_frames_ok[of p settled reader] peer_ok_fail
  by (cases "serve_frames p settled reader")
    (auto simp: control_result_def split: outcome.splits)

lemma serve_stream_ok:
  assumes "serve_stream ev p task = (p', task')"
  shows "(peer_ok p \<longrightarrow> peer_ok p') \<and> (control_seen p \<longrightarrow> control_seen p') \<and>
    (is_control task' \<longrightarrow> control_seen p' \<and> (is_control task \<or> \<not> control_seen p) \<or> is_control task)"
  using assms
proof (cases rule: serve_stream.cases[of "(ev, p, task)"])
  case (1 c q reader)
  then show ?thesis using assms
    by (auto simp: on_stream_kind_def peer_ok_fail peer_ok_seen
        dest!: control_result_ok split: outcome.splits option.splits if_splits)
qed (auto simp: peer_ok_fail dest: control_result_ok)

definition streams_ok :: "peer \<Rightarrow> stream_task list \<Rightarrow> bool" where
  "streams_ok p tasks \<longleftrightarrow> peer_ok p \<and>
     (\<forall>i < length tasks. is_control (tasks ! i) \<longrightarrow> control_seen p) \<and>
     (\<forall>i < length tasks. \<forall>j < length tasks. is_control (tasks ! i) \<and> is_control (tasks ! j) \<longrightarrow> i = j)"

lemma streams_ok_step:
  assumes "streams_ok p tasks" "i < length tasks" "serve_stream ev p (tasks ! i) = (p', task)"
  shows "streams_ok p' (tasks[i := task])"
  using serve_stream_ok[OF assms(3)] assms(1,2)
  by (auto simp: streams_ok_def nth_list_update)

section \<open>Properties\<close>

text \<open>C24. End to end over HTTP/3: every datagram handed to QUIC is one packet a router would forward, in
  the order given, all of them when the send succeeds; and whichever of them arrive, lost, repeated or
  out of order as datagrams may be, are read as exactly those packets.\<close>

theorem quic_tunnel_carries:
  assumes "quic_send stream_id packets answers = (ds, r)" "set arrived \<subseteq> set ds"
  shows "(\<exists>qs. ds = map (datagram stream_id) (take (length ds) (forwarded packets)) \<and>
      (r = Some (Ok ()) \<longrightarrow> length ds = length (forwarded packets)) \<and>
      set qs \<subseteq> set (forwarded packets) \<and> arrived = map (datagram stream_id) qs \<and>
      quic_receive_all stream_id (map Datagram arrived) = (qs, None))"
proof -
  note shape = quic_send_shape[OF assms(1)]
  have "set ds \<subseteq> datagram stream_id ` set (forwarded packets)"
    using shape by (metis image_mono list.set_map set_take_subset)
  then have "\<forall>d\<in>set arrived. \<exists>q. q \<in> set (forwarded packets) \<and> d = datagram stream_id q"
    using assms(2) by blast
  from bchoice[OF this] obtain f where
    f: "\<forall>d\<in>set arrived. f d \<in> set (forwarded packets) \<and> d = datagram stream_id (f d)" by blast
  have "map (\<lambda>d. datagram stream_id (f d)) arrived = map (\<lambda>d. d) arrived"
    by (rule map_cong) (use f in auto)
  then have a: "arrived = map (datagram stream_id) (map f arrived)" by (simp add: comp_def)
  have "quic_receive_all stream_id (map Datagram arrived) = (map f arrived, None)"
    using quic_receive_all_datagrams[of stream_id "map f arrived"] by (simp only: a[symmetric])
  moreover have "r = Some (Ok ()) \<longrightarrow> length ds = length (forwarded packets)"
    using shape by (metis length_map)
  moreover have "set (map f arrived) \<subseteq> set (forwarded packets)" using f by auto
  ultimately show ?thesis using shape a by blast
qed

theorem quic_tunnel_carries_witness:
  "\<exists>qs. set qs \<subseteq> set (forwarded [0x60 # replicate 6 0 @ 64 # replicate 32 0]) \<and>
    [datagram 4 (0x60 # replicate 6 0 @ 63 # replicate 32 0)] = map (datagram 4) qs"
proof -
  have "quic_send 4 [0x60 # replicate 6 0 @ 64 # replicate 32 0] [Sent :: unit send_answer] =
      ([datagram 4 (0x60 # replicate 6 0 @ 63 # replicate 32 0)],
        Some (Ok () :: ((unit, unit) connect_error, unit) outcome))"
    by code_simp
  from quic_tunnel_carries[OF this, of "[datagram 4 (0x60 # replicate 6 0 @ 63 # replicate 32 0)]"]
  show ?thesis by auto
qed

text \<open>C25. However the endpoint opens its streams and however the tasks reading them interleave: one task
  at most serves a control stream, SETTINGS reach the connection being opened at most once, and when a
  rule was broken the recorded reason is the one the connection was closed with, never a goodbye.\<close>

theorem streams_reach_ok:
  assumes "streams_reach p tasks"
  shows "(\<forall>i < length tasks. \<forall>j < length tasks. is_control (tasks ! i) \<and> is_control (tasks ! j) \<longrightarrow> i = j) \<and>
    length (settings_given p) \<le> 1 \<and>
    (peer_closes p \<noteq> [] \<longrightarrow> (\<exists>e. peer_ended p = Some (Broke e) \<and> last (peer_closes p) = h3_code e))"
proof -
  have "streams_ok p tasks"
    using assms
  proof induction
    case streams_start
    show ?case by (simp add: streams_ok_def peer_ok_new)
  next
    case (streams_accept p tasks)
    then show ?case by (auto simp: streams_ok_def nth_append less_Suc_eq)
  next
    case (streams_step p tasks i ev p' task)
    then show ?case by (intro streams_ok_step)
  qed
  then show ?thesis by (simp add: streams_ok_def peer_ok_def)
qed

lemma streams_example:
  "streams_reach (peer_fail MissingSettings (peer_new\<lparr>control_seen := True\<rparr>)) [Finished]"
proof -
  have "streams_reach peer_new ([] @ [Opening frame_reader_new])"
    by (rule streams_accept[OF streams_start])
  moreover have "serve_stream (Chunk [0, 7, 1, 0]) peer_new ([Opening frame_reader_new] ! 0) =
      (peer_fail MissingSettings (peer_new\<lparr>control_seen := True\<rparr>), Finished)" by code_simp
  ultimately show ?thesis using streams_step[of peer_new "[Opening frame_reader_new]" 0] by fastforce
qed

theorem streams_reach_ok_witness:
  "\<exists>e. peer_ended (peer_fail MissingSettings (peer_new\<lparr>control_seen := True\<rparr>)) = Some (Broke e) \<and>
    last (peer_closes (peer_fail MissingSettings (peer_new\<lparr>control_seen := True\<rparr>))) = h3_code e"
  using streams_reach_ok[OF streams_example] by (simp add: peer_fail_def)

end
