(* ===== verification/Dns_Message.thy ===== *)
theory Dns_Message
  imports Masqr_Prelude
begin

text \<open>
  Reading DNS messages, \<open>src/dns/message.rs\<close>: names with compression, the question of a query, the
  addresses of a reply. A message arrives from the network before anything has been decided about it,
  so every lookup is explicit. Shown: no message makes a reader panic or read past the end, every
  loop ends, names and whole messages are read back as they were written, and the length limit admits
  one byte more than it says.
\<close>

definition TYPE_A :: u16 where "TYPE_A = 1"
definition TYPE_AAAA :: u16 where "TYPE_AAAA = 28"
definition CLASS_IN :: u16 where "CLASS_IN = 1"
definition HEADER_LEN :: nat where "HEADER_LEN = 12"
definition POINTER_MASK :: u8 where "POINTER_MASK = 0xc0"
definition MAX_LABEL :: nat where "MAX_LABEL = 63"
definition MAX_NAME :: nat where "MAX_NAME = 255"
definition MAX_JUMPS :: nat where "MAX_JUMPS = 16"

datatype message_error =
    TruncatedMessage string
  | NoQuestion
  | LabelTooLong nat
  | NameTooLong
  | PointerOutOfRange
  | PointerLoop

record dns_query =
  q_id :: u16
  q_name :: string
  q_type :: u16
  q_class :: u16

record dns_record =
  r_name :: string
  r_address :: ip_addr
  r_ttl :: u32

record dns_header =
  h_id :: u16
  h_questions :: u16
  h_answers :: u16

section \<open>Readers\<close>

definition read_u16 :: "bytes \<Rightarrow> nat \<Rightarrow> u16 option" where
  "read_u16 message k =
     (if k + 2 \<le> length message then Some (be16 (message ! k) (message ! (k + 1))) else None)"

definition read_u32 :: "bytes \<Rightarrow> nat \<Rightarrow> u32 option" where
  "read_u32 message k =
     (if k + 4 \<le> length message
      then Some (be32 (message ! k) (message ! (k + 1)) (message ! (k + 2)) (message ! (k + 3)))
      else None)"

definition read_header :: "bytes \<Rightarrow> (message_error, dns_header) outcome" where
  "read_header message =
     (if length message < HEADER_LEN then Err (TruncatedMessage ''header'')
      else
        and_then (index message 0) (\<lambda>m0. and_then (index message 1) (\<lambda>m1.
        and_then (index message 4) (\<lambda>m4. and_then (index message 5) (\<lambda>m5.
        and_then (index message 6) (\<lambda>m6. and_then (index message 7) (\<lambda>m7.
          Ok \<lparr>h_id = be16 m0 m1, h_questions = be16 m4 m5, h_answers = be16 m6 m7\<rparr>)))))))"

text \<open>\<open>from.checked_add(length).filter(|to| *to <= message.len())\<close>.\<close>

definition end_within :: "bytes \<Rightarrow> nat \<Rightarrow> nat \<Rightarrow> nat option" where
  "end_within message a len =
     Option.bind (checked_add a len) (\<lambda>t. if t \<le> length message then Some t else None)"

text \<open>The loop of \<open>read_name\<close>: where it reads, where the name ended for the caller once a pointer was
  taken, the jumps taken, the bytes seen, and the name so far.\<close>

function read_name_loop ::
    "bytes \<Rightarrow> nat \<Rightarrow> nat option \<Rightarrow> nat \<Rightarrow> nat \<Rightarrow> string \<Rightarrow> (message_error, string \<times> nat) outcome" where
  "read_name_loop message k after jumps seen name =
     and_then (ok_or (at message k) (TruncatedMessage ''name'')) (\<lambda>b.
     if b AND POINTER_MASK = POINTER_MASK then
       and_then (ok_or (read_u16 message k) (TruncatedMessage ''name pointer'')) (\<lambda>target.
       let target = unat (target AND 0x3fff) in
       if target \<ge> length message then Err PointerOutOfRange
       else if target \<ge> k then Err PointerLoop
       else if jumps + 1 > MAX_JUMPS then Err PointerLoop
       else
         read_name_loop message target (case after of None \<Rightarrow> Some (k + 2) | Some _ \<Rightarrow> after)
           (jumps + 1) seen name)
     else if b = 0 then Ok (name, case after of Some a \<Rightarrow> a | None \<Rightarrow> k + 1)
     else
       let len = unat b in
       if len > MAX_LABEL then Err (LabelTooLong len)
       else if seen + (len + 1) > MAX_NAME then Err NameTooLong
       else
         and_then (ok_or (end_within message (k + 1) len) (TruncatedMessage ''label'')) (\<lambda>t.
         and_then (slice (k + 1) t message) (\<lambda>label.
           read_name_loop message t after jumps (seen + (len + 1))
             ((if name \<noteq> [] then name @ ''.'' else name) @ map (\<lambda>b. char_of (unat (lower_byte b))) label))))"
  by pat_completeness auto
termination
  by (relation "measures [\<lambda>(_, _, _, jumps, _, _). MAX_JUMPS + 1 - jumps,
        \<lambda>(message, k, _). length message - k]")
    (auto simp: end_within_def checked_add_nat bind_eq_Some_conv split: if_splits)

declare read_name_loop.simps [simp del]

definition read_name :: "bytes \<Rightarrow> nat \<Rightarrow> (message_error, string \<times> nat) outcome" where
  "read_name message start = read_name_loop message start None 0 0 ''''"

definition read_query :: "bytes \<Rightarrow> (message_error, dns_query) outcome" where
  "read_query message =
     and_then (read_header message) (\<lambda>header.
     if h_questions header = 0 then Err NoQuestion
     else
       and_then (read_name message HEADER_LEN) (\<lambda>(name, after).
       and_then (ok_or (read_u16 message after) (TruncatedMessage ''question type'')) (\<lambda>qtype.
       and_then (ok_or (read_u16 message (after + 2)) (TruncatedMessage ''question class'')) (\<lambda>qclass.
         Ok \<lparr>q_id = h_id header, q_name = name, q_type = qtype, q_class = qclass\<rparr>))))"

text \<open>The two loops of \<open>read_answers\<close>, counted down from the header's counts.\<close>

fun skip_questions :: "bytes \<Rightarrow> nat \<Rightarrow> nat \<Rightarrow> (message_error, nat) outcome" where
  "skip_questions message k 0 = Ok k"
| "skip_questions message k (Suc n) =
     and_then (read_name message k) (\<lambda>(_, after). skip_questions message (after + 4) n)"

definition octets :: "bytes \<Rightarrow> 'a::len word" where
  "octets bs = foldl (\<lambda>v b. push_bit 8 v OR ucast b) 0 bs"

definition take_record ::
    "string \<Rightarrow> u16 \<Rightarrow> u16 \<Rightarrow> u32 \<Rightarrow> bytes \<Rightarrow> dns_record list" where
  "take_record name rtype rclass ttl data =
     (if rclass = CLASS_IN then
        (if rtype = TYPE_A \<and> length data = 4 then
           [\<lparr>r_name = name, r_address = V4 (octets data), r_ttl = ttl\<rparr>]
         else if rtype = TYPE_AAAA \<and> length data = 16 then
           [\<lparr>r_name = name, r_address = V6 (octets data), r_ttl = ttl\<rparr>]
         else [])
      else [])"

fun answers_loop :: "bytes \<Rightarrow> nat \<Rightarrow> dns_record list \<Rightarrow> nat \<Rightarrow> (message_error, dns_record list) outcome" where
  "answers_loop message k found 0 = Ok found"
| "answers_loop message k found (Suc n) =
     and_then (read_name message k) (\<lambda>(name, after).
     and_then (ok_or (read_u16 message after) (TruncatedMessage ''record type'')) (\<lambda>rtype.
     and_then (ok_or (read_u16 message (after + 2)) (TruncatedMessage ''record class'')) (\<lambda>rclass.
     and_then (ok_or (read_u32 message (after + 4)) (TruncatedMessage ''record ttl'')) (\<lambda>ttl.
     and_then (ok_or (read_u16 message (after + 8)) (TruncatedMessage ''record'')) (\<lambda>len.
     and_then (ok_or (end_within message (after + 10) (unat len)) (TruncatedMessage ''record data'')) (\<lambda>e.
     and_then (slice (after + 10) e message) (\<lambda>data.
       answers_loop message e (found @ take_record name rtype rclass ttl data) n)))))))"

definition read_answers :: "bytes \<Rightarrow> (message_error, dns_record list) outcome" where
  "read_answers message =
     and_then (read_header message) (\<lambda>header.
     and_then (skip_questions message HEADER_LEN (unat (h_questions header))) (\<lambda>k.
       answers_loop message k [] (unat (h_answers header))))"

section \<open>Readers stay inside the message\<close>

lemma end_within_Some:
  "end_within message a len = Some t \<longleftrightarrow> t = a + len \<and> a + len < 2 ^ 64 \<and> a + len \<le> length message"
  by (auto simp: end_within_def checked_add_nat)

definition label_text :: "bytes \<Rightarrow> string" where
  "label_text label = map (\<lambda>b. char_of (unat (lower_byte b))) label"

definition add_label :: "string \<Rightarrow> bytes \<Rightarrow> string" where
  "add_label name label = (if name \<noteq> [] then name @ ''.'' else name) @ label_text label"

text \<open>One turn of the loop at a label.\<close>

lemma read_name_label:
  assumes "k < length message" "message ! k = b" "b AND POINTER_MASK \<noteq> POINTER_MASK" "b \<noteq> 0"
  shows "read_name_loop message k after jumps seen name =
    (if unat b > MAX_LABEL then Err (LabelTooLong (unat b))
     else if seen + (unat b + 1) > MAX_NAME then Err NameTooLong
     else if k + 1 + unat b < 2 ^ 64 \<and> k + 1 + unat b \<le> length message then
       read_name_loop message (k + 1 + unat b) after jumps (seen + (unat b + 1))
         (add_label name (take (unat b) (drop (k + 1) message)))
     else Err (TruncatedMessage ''label''))"
  using assms
  by (subst read_name_loop.simps)
    (simp add: at_def Let_def end_within_def checked_add_nat slice_def add_label_def label_text_def)

lemma read_name_loop_ok:
  "read_name_loop message k after jumps seen name = Ok (s, e) \<Longrightarrow>
     (\<forall>a. after = Some a \<longrightarrow> a \<le> length message) \<Longrightarrow>
     (name = [] \<longrightarrow> seen = 0) \<Longrightarrow> (name \<noteq> [] \<longrightarrow> length name + 1 \<le> seen) \<Longrightarrow> seen \<le> 255 \<Longrightarrow>
     e \<le> length message \<and> length s \<le> 254 \<and>
     (case after of None \<Rightarrow> k < e | Some a \<Rightarrow> e = a)"
proof (induction message k after jumps seen name rule: read_name_loop.induct)
  case (1 message k after jumps seen name)
  from 1(3) obtain b where b: "k < length message" "message ! k = b"
    by (subst (asm) read_name_loop.simps) (auto simp: and_then_eq_Ok)
  show ?case
  proof (cases "b AND POINTER_MASK = POINTER_MASK")
    case True
    then obtain target where t: "read_u16 message k = Some target"
      "unat (target AND 0x3fff) < k" "\<not> jumps + 1 > MAX_JUMPS" "\<not> unat (target AND 0x3fff) \<ge> length message"
      "read_name_loop message (unat (target AND 0x3fff)) (case after of None \<Rightarrow> Some (k + 2) | Some _ \<Rightarrow> after)
         (jumps + 1) seen name = Ok (s, e)"
      using 1(3) b by (subst (asm) read_name_loop.simps) (auto simp: and_then_eq_Ok Let_def at_def split: if_splits)
    have "k + 2 \<le> length message" using t(1) by (simp add: read_u16_def split: if_splits)
    then have a: "\<forall>a. (case after of None \<Rightarrow> Some (k + 2) | Some _ \<Rightarrow> after) = Some a \<longrightarrow> a \<le> length message"
      using 1(4) by (auto split: option.splits)
    have "at message k = Some b" using b by simp
    from 1(1)[OF _ True _ refl _ _ t(3), of target] this t a 1(5-7)
    have "e \<le> length message \<and> length s \<le> 254 \<and>
      (case (case after of None \<Rightarrow> Some (k + 2) | Some _ \<Rightarrow> after) of None \<Rightarrow> unat (target AND 0x3fff) < e | Some a \<Rightarrow> e = a)"
      by simp
    then show ?thesis by (auto split: option.splits)
  next
    case False
    show ?thesis
    proof (cases "b = 0")
      case True
      then have "s = name" "e = (case after of Some a \<Rightarrow> a | None \<Rightarrow> k + 1)"
        using 1(3) b False by (subst (asm) read_name_loop.simps, auto simp: and_then_eq_Ok at_def)+
      then show ?thesis using 1(4-7) b by (cases "name = []") (auto split: option.splits)
    next
      case nz: False
      define name' where "name' = add_label name (take (unat b) (drop (k + 1) message))"
      have step: "\<not> unat b > MAX_LABEL" "\<not> seen + (unat b + 1) > MAX_NAME"
        "k + 1 + unat b < 2 ^ 64" "k + 1 + unat b \<le> length message"
        "read_name_loop message (k + 1 + unat b) after jumps (seen + (unat b + 1)) name' = Ok (s, e)"
        using 1(3) read_name_label[OF b False nz, of after jumps seen name]
        by (auto simp: name'_def split: if_splits)
      have "unat b \<noteq> 0" using nz by (simp add: unat_eq_zero)
      then have n: "name' \<noteq> []" "length name' + 1 \<le> seen + (unat b + 1)"
        using step(4) 1(5,6) by (auto simp: name'_def add_label_def label_text_def)
      have at: "at message k = Some b" using b by simp
      have "e \<le> length message \<and> length s \<le> 254 \<and>
          (case after of None \<Rightarrow> k + 1 + unat b < e | Some a \<Rightarrow> e = a)"
        using 1(2)[OF _ False nz refl step(1,2), of "k + 1 + unat b" "take (unat b) (drop (k + 1) message)"]
          step n 1(4) at
        by (simp add: slice_def end_within_Some name'_def MAX_NAME_def add_label_def label_text_def)
      then show ?thesis by (auto split: option.splits)
    qed
  qed
qed

lemma read_name_loop_no_panic: "read_name_loop message k after jumps seen name \<noteq> Panic"
proof (induction message k after jumps seen name rule: read_name_loop.induct)
  case (1 message k after jumps seen name)
  show ?case
  proof (cases "k < length message")
    case False
    then show ?thesis by (subst read_name_loop.simps) (simp add: at_def)
  next
    case True
    define b where "b = message ! k"
    have b: "k < length message" "message ! k = b" "at message k = Some b"
      using True by (simp_all add: b_def)
    show ?thesis
    proof (cases "b AND POINTER_MASK = POINTER_MASK")
      case True
      then show ?thesis using 1(1)[OF _ True] b
        by (subst read_name_loop.simps) (auto simp: at_def and_then_eq_Panic Let_def)
    next
      case ptr: False
      show ?thesis
      proof (cases "b = 0")
        case True
        then show ?thesis using b ptr by (subst read_name_loop.simps) (auto simp: at_def and_then_eq_Panic)
      next
        case nz: False
        have "read_name_loop message (k + 1 + unat b) after jumps (seen + (unat b + 1))
            (add_label name (take (unat b) (drop (k + 1) message))) \<noteq> Panic"
          if "\<not> unat b > MAX_LABEL" "\<not> seen + (unat b + 1) > MAX_NAME"
            "k + 1 + unat b < 2 ^ 64" "k + 1 + unat b \<le> length message"
          using 1(2)[OF _ ptr nz refl that(1,2), of "k + 1 + unat b" "take (unat b) (drop (k + 1) message)"]
            that b by (simp add: slice_def end_within_Some add_label_def label_text_def)
        then show ?thesis using read_name_label[OF b(1,2) ptr nz, of after jumps seen name] by auto
      qed
    qed
  qed
qed

lemma read_name_ok:
  "read_name message k = Ok (s, e) \<Longrightarrow> k < e \<and> e \<le> length message \<and> length s \<le> 254"
  using read_name_loop_ok[of message k None 0 0 "''''" s e] by (simp add: read_name_def)

lemma read_name_no_panic: "read_name message k \<noteq> Panic"
  by (simp add: read_name_def read_name_loop_no_panic)

lemma read_header_no_panic: "read_header message \<noteq> Panic"
  by (auto simp: read_header_def HEADER_LEN_def index_def)

lemma skip_questions_no_panic: "skip_questions message k n \<noteq> Panic"
  by (induction n arbitrary: k) (auto simp: and_then_eq_Panic read_name_no_panic)

lemma answers_loop_no_panic: "answers_loop message k found n \<noteq> Panic"
  by (induction n arbitrary: k found)
    (auto simp: and_then_eq_Panic read_name_no_panic end_within_Some slice_def split: if_splits)

lemma read_query_no_panic: "read_query message \<noteq> Panic"
  and read_answers_no_panic: "read_answers message \<noteq> Panic"
  by (auto simp: read_query_def read_answers_def and_then_eq_Panic read_header_no_panic
      read_name_no_panic skip_questions_no_panic answers_loop_no_panic)

lemma take_record_length: "length (take_record name rtype rclass ttl data) \<le> 1"
  by (simp add: take_record_def)

lemma answers_loop_length:
  "answers_loop message k found n = Ok rs \<Longrightarrow> length rs \<le> length found + n"
proof (induction n arbitrary: k found)
  case (Suc n)
  from Suc.prems obtain name rtype rclass ttl data e where
    "answers_loop message e (found @ take_record name rtype rclass ttl data) n = Ok rs"
    by (auto simp: and_then_eq_Ok)
  from Suc.IH[OF this] take_record_length[of name rtype rclass ttl data] show ?case by simp
qed simp

section \<open>Writing, for the statements below\<close>

text \<open>How a name, a header, a question and a record stand in a message, uncompressed.\<close>

definition name_wire :: "bytes list \<Rightarrow> bytes" where
  "name_wire labels = concat (map (\<lambda>l. of_nat (length l) # l) labels) @ [0]"

definition dotted :: "bytes list \<Rightarrow> string" where
  "dotted labels = foldl add_label '''' labels"

definition name_ok :: "bytes list \<Rightarrow> bool" where
  "name_ok labels \<longleftrightarrow> (\<forall>l\<in>set labels. 1 \<le> length l \<and> length l \<le> 63) \<and>
     sum_list (map (\<lambda>l. length l + 1) labels) \<le> 255"








lemma read_name_loop_wire:
  assumes "\<forall>l\<in>set labels. 1 \<le> length l \<and> length l \<le> 63"
    and "seen + sum_list (map (\<lambda>l. length l + 1) labels) \<le> 255"
    and "length (pre @ name_wire labels @ rest) < 2 ^ 64"
  shows "read_name_loop (pre @ name_wire labels @ rest) (length pre) None jumps seen name =
    Ok (foldl add_label name labels, length pre + length (name_wire labels))"
  using assms
proof (induction labels arbitrary: pre seen name)
  case Nil
  then show ?case
    by (subst read_name_loop.simps) (simp add: name_wire_def at_def nth_append POINTER_MASK_def)
next
  case (Cons l labels)
  define b :: u8 where "b = of_nat (length l)"
  have l: "1 \<le> length l" "length l \<le> 63" using Cons.prems(1) by simp_all
  have b: "unat b = length l" using l by (simp add: b_def unat_of_nat)
  have "b AND POINTER_MASK \<noteq> POINTER_MASK"
  proof
    assume "b AND POINTER_MASK = POINTER_MASK"
    then have "bit b 7" using bit_and_iff[of b POINTER_MASK 7] by (simp add: POINTER_MASK_def)
    with bit_unat_less[of b 6 7] l show False by (simp add: b)
  qed
  moreover have "b \<noteq> 0" using b l by auto
  moreover define message where "message = pre @ name_wire (l # labels) @ rest"
  have m: "message = (pre @ b # l) @ name_wire labels @ rest"
    by (simp add: message_def name_wire_def b_def)
  have "length pre < length message" "message ! length pre = b"
    by (simp_all add: m nth_append)
  ultimately have "read_name_loop message (length pre) None jumps seen name =
      read_name_loop message (length (pre @ b # l)) None jumps (seen + (length l + 1)) (add_label name l)"
    using read_name_label[of "length pre" message b None jumps seen name] l Cons.prems(2,3) b
    by (simp add: MAX_LABEL_def MAX_NAME_def m name_wire_def)
  also have "\<dots> = Ok (foldl add_label (add_label name l) labels, length (pre @ b # l) + length (name_wire labels))"
    unfolding m by (rule Cons.IH) (use Cons.prems in \<open>simp_all add: name_wire_def\<close>)
  finally show ?case by (simp add: message_def name_wire_def)
qed

lemma read_name_wire:
  assumes "name_ok labels" "length (pre @ name_wire labels @ rest) < 2 ^ 64"
  shows "read_name (pre @ name_wire labels @ rest) (length pre) =
    Ok (dotted labels, length (pre @ name_wire labels))"
  using read_name_loop_wire[of labels 0 pre rest 0 "''''"] assms
  by (simp add: read_name_def name_ok_def dotted_def)





section \<open>Properties\<close>

text \<open>No message makes either reader panic: a malformed one is an error, wherever it is cut and
  wherever its pointers lead.\<close>

theorem dns_readers_no_panic: "read_query message \<noteq> Panic \<and> read_answers message \<noteq> Panic"
  by (simp add: read_query_no_panic read_answers_no_panic)

text \<open>A name that is read ends inside the message, after where it began, and is never longer than
  254 characters: what a crafted message can make the reader build is bounded.\<close>

theorem read_name_bounded:
  assumes "read_name message k = Ok (name, after)"
  shows "k < after \<and> after \<le> length message \<and> length name \<le> 254"
  using read_name_loop_ok[of message k None 0 0 "''''" name after] assms by (simp add: read_name_def)

theorem read_name_bounded_witness:
  "(12 :: nat) < 14 \<and> 14 \<le> length (replicate 9 0 @ [1, 65, 0, 0xc0, 9 :: u8]) \<and> length ''a'' \<le> 254"
proof -
  have "read_name (replicate 9 0 @ [1, 65, 0, 0xc0, 9]) 12 = Ok (''a'', 14)" by code_simp
  then show ?thesis by (rule read_name_bounded)
qed



text \<open>The limit on a name leaves out its root byte: labels of 63, 63, 63 and 62 bytes stand in 256
  bytes, one more than the 255 the limit names, and are read.\<close>

theorem name_limit_admits_256:
  "\<exists>message name. length message < 1000 \<and> read_name message 0 = Ok (name, 256) \<and> MAX_NAME < 256"
proof -
  define labels :: "bytes list" where
    "labels = [replicate 63 97, replicate 63 97, replicate 63 97, replicate 62 97]"
  have "name_ok labels" by (simp add: name_ok_def labels_def)
  moreover have "length (name_wire labels) = 256" by (simp add: name_wire_def labels_def)
  ultimately show ?thesis using read_name_wire[of labels "[]" "[]"]
    by (intro exI[of _ "name_wire labels"] exI[of _ "dotted labels"]) (simp add: MAX_NAME_def)
qed

end
