(* ===== verification/Dns_Policy.thy ===== *)
theory Dns_Policy
  imports Masqr_Prelude
begin

text \<open>
  Which upstream answers a name, \<open>src/dns/policy.rs\<close>: checking a policy and arranging it for lookup,
  and the decision. Shown: a policy is installed exactly when it is complete, and the arranged lookup
  gives what walking the rules in order would, so the first rule that matches by label and admits the
  asker decides; neither the indexing nor the \<open>expect\<close> of the lookup can fail.
\<close>

datatype policy_error =
    UnknownResolver nat string
  | DuplicateResolver string
  | EmptyMatch nat
  | MissingUrl string

datatype resolver_kind = Doh | Plain
datatype via = Tunnel | Direct

record resolver =
  rs_id :: string
  rs_kind :: resolver_kind
  rs_address :: ip_addr
  rs_url :: "string option"
  rs_via :: via

datatype matcher = Exact string | Suffix string | Any

record asker =
  a_path :: string
  a_name :: string

record rule =
  ru_match :: matcher
  ru_resolver :: string
  ru_programs :: "string list"
  ru_route :: bool

record policy_input =
  in_resolvers :: "resolver list"
  in_rules :: "rule list"

record decision =
  d_resolver :: resolver
  d_route :: bool
  d_rule :: nat

text \<open>The hash map of resolvers is a list of its entries, in an order nothing below depends on; the two
  indexes are finite maps.\<close>

record policy =
  p_resolvers :: "(string \<times> resolver) list"
  p_rules :: "rule list"
  p_exact :: "string \<Rightarrow> nat list option"
  p_suffix :: "string \<Rightarrow> nat list option"
  p_any :: "nat list"

section \<open>Building\<close>

definition trim_end_dots :: "string \<Rightarrow> string" where
  "trim_end_dots s = rev (dropWhile (\<lambda>c. c = CHR ''.'') (rev s))"

definition normalise :: "string \<Rightarrow> string" where
  "normalise name = lowercase (trim_end_dots name)"

definition normalise_program :: "string \<Rightarrow> string" where
  "normalise_program s = map (\<lambda>c. if c = CHR ''/'' then CHR 0x5c else c) (lowercase s)"

definition normalise_rule :: "rule \<Rightarrow> rule" where
  "normalise_rule r =
     r\<lparr>ru_match := (case ru_match r of
          Exact name \<Rightarrow> Exact (normalise name)
        | Suffix name \<Rightarrow> Suffix (normalise name)
        | Any \<Rightarrow> Any),
       ru_programs := map normalise_program (ru_programs r)\<rparr>"

fun build_resolvers ::
    "(string \<times> resolver) list \<Rightarrow> resolver list \<Rightarrow> (policy_error, (string \<times> resolver) list) outcome" where
  "build_resolvers resolvers [] = Ok resolvers"
| "build_resolvers resolvers (r # rest) =
     (if rs_kind r = Doh \<and> rs_url r = None then Err (MissingUrl (rs_id r))
      else if map_of resolvers (rs_id r) \<noteq> None then Err (DuplicateResolver (rs_id r))
      else build_resolvers (resolvers @ [(rs_id r, r)]) rest)"

text \<open>\<open>entry(name).or_default().push(index)\<close>.\<close>

definition push_index :: "(string \<Rightarrow> nat list option) \<Rightarrow> string \<Rightarrow> nat \<Rightarrow> (string \<Rightarrow> nat list option)" where
  "push_index m name i = m(name \<mapsto> (case m name of Some is \<Rightarrow> is @ [i] | None \<Rightarrow> [i]))"

fun build_rules :: "policy \<Rightarrow> nat \<Rightarrow> rule list \<Rightarrow> (policy_error, policy) outcome" where
  "build_rules p i [] = Ok p"
| "build_rules p i (r # rest) =
     (if map_of (p_resolvers p) (ru_resolver r) = None then Err (UnknownResolver i (ru_resolver r))
      else
        let r = normalise_rule r in
        and_then
          (case ru_match r of
             Exact name \<Rightarrow>
               if name = [] then Err (EmptyMatch i) else Ok (p\<lparr>p_exact := push_index (p_exact p) name i\<rparr>)
           | Suffix name \<Rightarrow>
               if name = [] then Err (EmptyMatch i) else Ok (p\<lparr>p_suffix := push_index (p_suffix p) name i\<rparr>)
           | Any \<Rightarrow> Ok (p\<lparr>p_any := p_any p @ [i]\<rparr>))
          (\<lambda>p. build_rules (p\<lparr>p_rules := p_rules p @ [r]\<rparr>) (i + 1) rest))"

definition policy_build :: "policy_input \<Rightarrow> (policy_error, policy) outcome" where
  "policy_build input =
     and_then (build_resolvers [] (in_resolvers input)) (\<lambda>resolvers.
       build_rules \<lparr>p_resolvers = resolvers, p_rules = [], p_exact = (\<lambda>_. None),
           p_suffix = (\<lambda>_. None), p_any = []\<rparr> 0 (in_rules input))"

section \<open>Deciding\<close>

definition applies_to :: "string list \<Rightarrow> asker option \<Rightarrow> bool" where
  "applies_to programs asker \<longleftrightarrow>
     (if programs = [] then True
      else case asker of
          None \<Rightarrow> False
        | Some a \<Rightarrow> list_ex (\<lambda>program. program = a_path a \<or> program = a_name a) programs)"

text \<open>\<open>split_once('.')\<close>: what follows the first dot.\<close>

definition after_dot :: "string \<Rightarrow> string option" where
  "after_dot s = (case dropWhile (\<lambda>c. c \<noteq> CHR ''.'') s of [] \<Rightarrow> None | _ # tail \<Rightarrow> Some tail)"

lemma after_dot_shorter: "after_dot s = Some t \<Longrightarrow> length t < length s"
proof -
  assume "after_dot s = Some t"
  then have "length t < length (dropWhile (\<lambda>c. c \<noteq> CHR ''.'') s)"
    by (auto simp: after_dot_def split: list.splits)
  then show ?thesis using length_dropWhile_le order_less_le_trans by blast
qed

definition get_indexes :: "(string \<Rightarrow> nat list option) \<Rightarrow> string \<Rightarrow> nat list" where
  "get_indexes m name = (case m name of Some is \<Rightarrow> is | None \<Rightarrow> [])"

text \<open>The loop over the name and the tails after its dots.\<close>

function suffix_candidates :: "(string \<Rightarrow> nat list option) \<Rightarrow> string \<Rightarrow> nat list" where
  "suffix_candidates m rest =
     get_indexes m rest @
     (case after_dot rest of
        Some tail \<Rightarrow> if tail \<noteq> [] then suffix_candidates m tail else []
      | None \<Rightarrow> [])"
  by pat_completeness auto
termination
  by (relation "measure (\<lambda>(_, rest). length rest)") (auto dest: after_dot_shorter)

declare suffix_candidates.simps [simp del]

definition candidates :: "policy \<Rightarrow> string \<Rightarrow> nat list" where
  "candidates p name =
     sort (get_indexes (p_exact p) name @ suffix_candidates (p_suffix p) name @ p_any p)"

text \<open>The walk over the candidates; indexing the rules is checked.\<close>

fun find_applying :: "rule list \<Rightarrow> asker option \<Rightarrow> nat list \<Rightarrow> (unit, nat option) outcome" where
  "find_applying rs asker [] = Ok None"
| "find_applying rs asker (i # is) =
     and_then (index rs i) (\<lambda>r.
       if applies_to (ru_programs r) asker then Ok (Some i) else find_applying rs asker is)"

definition decide :: "policy \<Rightarrow> string \<Rightarrow> asker option \<Rightarrow> (unit, decision option) outcome" where
  "decide p name asker =
     and_then (find_applying (p_rules p) asker (candidates p name)) (\<lambda>found.
     (case found of
        None \<Rightarrow> Ok None
      | Some i \<Rightarrow>
          and_then (index (p_rules p) i) (\<lambda>rule.
          (case map_of (p_resolvers p) (ru_resolver rule) of
             None \<Rightarrow> Panic
           | Some r \<Rightarrow> Ok (Some \<lparr>d_resolver = r, d_route = ru_route rule, d_rule = i\<rparr>)))))"

definition tunnelled_resolvers :: "policy \<Rightarrow> ip_addr list" where
  "tunnelled_resolvers p = map rs_address (filter (\<lambda>r. rs_via r = Tunnel) (map snd (p_resolvers p)))"

definition decides_everything :: "policy \<Rightarrow> bool" where
  "decides_everything p \<longleftrightarrow> list_ex (\<lambda>i. ru_programs (p_rules p ! i) = []) (p_any p)"

definition rule_count :: "policy \<Rightarrow> nat" where
  "rule_count p = length (p_rules p)"

definition resolver_count :: "policy \<Rightarrow> nat" where
  "resolver_count p = length (p_resolvers p)"

section \<open>What the rules mean\<close>

text \<open>A rule matches by label: a suffix is the whole name, or what follows one of its dots.\<close>

definition under :: "string \<Rightarrow> string \<Rightarrow> bool" where
  "under n name \<longleftrightarrow> name = n \<or> (n \<noteq> [] \<and> (\<exists>labels. name = labels @ ''.'' @ n))"

definition rule_matches :: "rule \<Rightarrow> string \<Rightarrow> bool" where
  "rule_matches r name =
     (case ru_match r of Exact n \<Rightarrow> name = n | Suffix n \<Rightarrow> under n name | Any \<Rightarrow> True)"

text \<open>Walking the rules in the order the application wrote them.\<close>

definition first_rule :: "rule list \<Rightarrow> string \<Rightarrow> asker option \<Rightarrow> nat option" where
  "first_rule rs name asker = position (\<lambda>r. rule_matches r name \<and> applies_to (ru_programs r) asker) rs"

text \<open>What building promises of the arrangement.\<close>

definition rules_with :: "rule list \<Rightarrow> matcher \<Rightarrow> nat list" where
  "rules_with rs m = filter (\<lambda>i. ru_match (rs ! i) = m) [0..<length rs]"

definition policy_ok :: "policy \<Rightarrow> bool" where
  "policy_ok p \<longleftrightarrow>
     (\<forall>n. get_indexes (p_exact p) n = rules_with (p_rules p) (Exact n)) \<and>
     (\<forall>n. get_indexes (p_suffix p) n = rules_with (p_rules p) (Suffix n)) \<and>
     p_any p = rules_with (p_rules p) Any \<and>
     (\<forall>r\<in>set (p_rules p). map_of (p_resolvers p) (ru_resolver r) \<noteq> None)"

section \<open>Building arranges the rules\<close>

lemma get_indexes_push:
  "get_indexes (push_index m name i) n = (if n = name then get_indexes m n @ [i] else get_indexes m n)"
  by (auto simp: get_indexes_def push_index_def split: option.splits)

lemma rules_with_snoc:
  "rules_with (rs @ [r]) x = rules_with rs x @ (if ru_match r = x then [length rs] else [])"
proof -
  have "filter (\<lambda>i. ru_match ((rs @ [r]) ! i) = x) [0..<length rs] =
      filter (\<lambda>i. ru_match (rs ! i) = x) [0..<length rs]"
    by (rule filter_cong) (auto simp: nth_append)
  then show ?thesis by (simp add: rules_with_def)
qed

lemma policy_ok_add:
  assumes "policy_ok p" "map_of (p_resolvers p) (ru_resolver r) \<noteq> None"
  shows "ru_match r = Exact n \<Longrightarrow> policy_ok (p\<lparr>p_exact := push_index (p_exact p) n (length (p_rules p)),
      p_rules := p_rules p @ [r]\<rparr>)"
    "ru_match r = Suffix n \<Longrightarrow> policy_ok (p\<lparr>p_suffix := push_index (p_suffix p) n (length (p_rules p)),
      p_rules := p_rules p @ [r]\<rparr>)"
    "ru_match r = Any \<Longrightarrow> policy_ok (p\<lparr>p_any := p_any p @ [length (p_rules p)], p_rules := p_rules p @ [r]\<rparr>)"
  using assms unfolding policy_ok_def by (auto simp: get_indexes_push rules_with_snoc)

lemma build_rules_ok:
  "build_rules p i rs = Ok p' \<Longrightarrow> policy_ok p \<Longrightarrow> i = length (p_rules p) \<Longrightarrow>
     policy_ok p' \<and> p_rules p' = p_rules p @ map normalise_rule rs \<and> p_resolvers p' = p_resolvers p"
proof (induction p i rs rule: build_rules.induct)
  case (2 p i r rest)
  define r' where "r' = normalise_rule r"
  have "ru_resolver r' = ru_resolver r" by (simp add: r'_def normalise_rule_def)
  then have declared: "map_of (p_resolvers p) (ru_resolver r') \<noteq> None"
    using 2(2) by (auto split: if_splits)
  show ?case
  proof (cases "ru_match r'")
    case (Exact n)
    with 2(2) declared \<open>ru_resolver r' = _\<close> policy_ok_add(1)[OF 2(3) declared Exact]
      2(1)[OF _ r'_def, of "p\<lparr>p_exact := push_index (p_exact p) n i\<rparr>"] 2(4)
    show ?thesis by (auto simp: Let_def split: if_splits simp flip: r'_def)
  next
    case (Suffix n)
    with 2(2) declared \<open>ru_resolver r' = _\<close> policy_ok_add(2)[OF 2(3) declared Suffix]
      2(1)[OF _ r'_def, of "p\<lparr>p_suffix := push_index (p_suffix p) n i\<rparr>"] 2(4)
    show ?thesis by (auto simp: Let_def split: if_splits simp flip: r'_def)
  next
    case Any
    with 2(2) declared \<open>ru_resolver r' = _\<close> policy_ok_add(3)[OF 2(3) declared Any]
      2(1)[OF _ r'_def, of "p\<lparr>p_any := p_any p @ [i]\<rparr>"] 2(4)
    show ?thesis by (auto simp: Let_def split: if_splits simp flip: r'_def)
  qed
qed simp

lemma policy_build_ok:
  assumes "policy_build input = Ok p"
  shows "policy_ok p" "p_rules p = map normalise_rule (in_rules input)"
proof -
  obtain resolvers where b: "build_rules \<lparr>p_resolvers = resolvers, p_rules = [], p_exact = (\<lambda>_. None),
      p_suffix = (\<lambda>_. None), p_any = []\<rparr> 0 (in_rules input) = Ok p"
    using assms by (auto simp: policy_build_def and_then_eq_Ok)
  have "policy_ok \<lparr>p_resolvers = resolvers, p_rules = [], p_exact = (\<lambda>_. None),
      p_suffix = (\<lambda>_. None), p_any = []\<rparr>"
    by (simp add: policy_ok_def get_indexes_def rules_with_def)
  from build_rules_ok[OF b this] show "policy_ok p" "p_rules p = map normalise_rule (in_rules input)"
    by simp_all
qed

section \<open>The lookup finds the rules that match\<close>

lemma after_dot_split: "after_dot s = Some t \<Longrightarrow> \<exists>pre. s = pre @ ''.'' @ t"
proof -
  assume "after_dot s = Some t"
  then obtain c where d: "dropWhile (\<lambda>c. c \<noteq> CHR ''.'') s = c # t"
    by (auto simp: after_dot_def split: list.splits)
  then have "c = CHR ''.''" using hd_dropWhile[of "\<lambda>c. c \<noteq> CHR ''.''" s] by auto
  then have "s = takeWhile (\<lambda>c. c \<noteq> CHR ''.'') s @ ''.'' @ t"
    using takeWhile_dropWhile_id[of "\<lambda>c. c \<noteq> CHR ''.''" s] d by simp
  then show ?thesis by blast
qed

lemma after_dot_append:
  "after_dot (labels @ ''.'' @ n) =
     Some (case after_dot labels of None \<Rightarrow> n | Some l \<Rightarrow> l @ ''.'' @ n)"
proof -
  define P where "P = (\<lambda>c. c \<noteq> CHR ''.'')"
  have "dropWhile P (labels @ ''.'' @ n) =
      (if dropWhile P labels = [] then ''.'' @ n else dropWhile P labels @ ''.'' @ n)"
    by (simp add: dropWhile_append P_def)
  then show ?thesis unfolding after_dot_def P_def[symmetric]
    by (cases "dropWhile P labels") (simp_all del: dropWhile_eq_Nil_conv add: P_def[symmetric])
qed

lemma under_step: "under n name \<longleftrightarrow> name = n \<or> (\<exists>t. after_dot name = Some t \<and> t \<noteq> [] \<and> under n t)"
proof
  assume "under n name"
  then show "name = n \<or> (\<exists>t. after_dot name = Some t \<and> t \<noteq> [] \<and> under n t)"
    using after_dot_append by (auto simp: under_def split: option.splits)
next
  assume "name = n \<or> (\<exists>t. after_dot name = Some t \<and> t \<noteq> [] \<and> under n t)"
  then show "under n name"
  proof
    assume "\<exists>t. after_dot name = Some t \<and> t \<noteq> [] \<and> under n t"
    then obtain t where t: "after_dot name = Some t" "t \<noteq> []" "under n t" by blast
    obtain pre where pre: "name = pre @ ''.'' @ t" using after_dot_split[OF t(1)] by blast
    from t(3) show ?thesis unfolding under_def
    proof
      assume "t = n" then show "name = n \<or> n \<noteq> [] \<and> (\<exists>labels. name = labels @ ''.'' @ n)"
        using pre t(2) by blast
    next
      assume "n \<noteq> [] \<and> (\<exists>labels. t = labels @ ''.'' @ n)"
      then obtain labels where "n \<noteq> []" "t = labels @ ''.'' @ n" by blast
      then have "name = (pre @ ''.'' @ labels) @ ''.'' @ n" using pre by simp
      then show "name = n \<or> n \<noteq> [] \<and> (\<exists>labels. name = labels @ ''.'' @ n)"
        using \<open>n \<noteq> []\<close> by blast
    qed
  qed (simp add: under_def)
qed

lemma suffix_candidates_set:
  "i \<in> set (suffix_candidates m name) \<longleftrightarrow> (\<exists>n. under n name \<and> i \<in> set (get_indexes m n))"
proof (induction m name rule: suffix_candidates.induct)
  case (1 m name)
  show ?case
  proof (cases "\<exists>t. after_dot name = Some t \<and> t \<noteq> []")
    case True
    then obtain t where t: "after_dot name = Some t" "t \<noteq> []" by blast
    then show ?thesis using 1[OF t] under_step[of _ name]
      by (subst suffix_candidates.simps) auto
  next
    case False
    then show ?thesis using under_step[of _ name]
      by (subst suffix_candidates.simps) (auto split: option.splits)
  qed
qed

lemma candidates_set:
  assumes "policy_ok p"
  shows "i \<in> set (candidates p name) \<longleftrightarrow> i < length (p_rules p) \<and> rule_matches (p_rules p ! i) name"
  using assms by (auto simp: candidates_def policy_ok_def suffix_candidates_set rule_matches_def rules_with_def
      split: matcher.splits)

lemma find_applying_eq:
  "\<forall>i\<in>set is. i < length rs \<Longrightarrow>
     find_applying rs asker is = Ok (List.find (\<lambda>i. applies_to (ru_programs (rs ! i)) asker) is)"
  by (induction "is") (auto simp: out_simps)

lemma position_eq_Some:
  "position P xs = Some i \<longleftrightarrow> i < length xs \<and> P (xs ! i) \<and> (\<forall>j<i. \<not> P (xs ! j))"
proof (induction xs arbitrary: i)
  case (Cons x xs)
  show ?case by (cases i) (auto simp: Cons.IH less_Suc_eq_0_disj)
qed simp

lemma find_sorted_position:
  assumes "sorted is" "\<And>i. i \<in> set is \<longleftrightarrow> i < length rs \<and> M (rs ! i)"
  shows "List.find (\<lambda>i. A (rs ! i)) is = position (\<lambda>r. M r \<and> A r) rs"
proof (cases "List.find (\<lambda>i. A (rs ! i)) is")
  case None
  then have "\<forall>i\<in>set is. \<not> A (rs ! i)" by (simp add: find_None_iff)
  then have "\<forall>r\<in>set rs. \<not> (M r \<and> A r)" using assms(2) by (auto simp: in_set_conv_nth)
  then have "position (\<lambda>r. M r \<and> A r) rs = None" unfolding position_None .
  then show ?thesis using None by simp
next
  case (Some i)
  then obtain k where k: "k < length is" "A (rs ! i)" "i = is ! k" "\<forall>j<k. \<not> A (rs ! (is ! j))"
    by (auto simp: find_Some_iff)
  have i: "i < length rs" "M (rs ! i)" using assms(2) k nth_mem by metis+
  have "\<forall>j<i. \<not> (M (rs ! j) \<and> A (rs ! j))"
  proof (intro allI impI notI)
    fix j assume j: "j < i" "M (rs ! j) \<and> A (rs ! j)"
    then obtain l where l: "l < length is" "is ! l = j" using assms(2) i(1) by (metis in_set_conv_nth less_trans)
    have "l < k" using assms(1) k l j(1) by (metis leD not_le_imp_less sorted_nth_mono)
    then show False using k(4) l j by blast
  qed
  then have "position (\<lambda>r. M r \<and> A r) rs = Some i"
    unfolding position_eq_Some using i k(2) by blast
  with Some show ?thesis by simp
qed

lemma decide_ok:
  assumes "policy_ok p"
  shows "decide p name asker =
    Ok (map_option (\<lambda>i. \<lparr>d_resolver = the (map_of (p_resolvers p) (ru_resolver (p_rules p ! i))),
        d_route = ru_route (p_rules p ! i), d_rule = i\<rparr>) (first_rule (p_rules p) name asker))"
proof -
  have "\<forall>i\<in>set (candidates p name). i < length (p_rules p)"
    using candidates_set[OF assms] by blast
  note fa = find_applying_eq[OF this, of asker]
  have "List.find (\<lambda>i. applies_to (ru_programs (p_rules p ! i)) asker) (candidates p name) =
      first_rule (p_rules p) name asker"
    unfolding first_rule_def
    by (rule find_sorted_position) (simp_all add: candidates_set[OF assms], simp add: candidates_def)
  then show ?thesis using fa assms position_Some[of _ "p_rules p"]
    by (cases "first_rule (p_rules p) name asker")
      (auto simp: decide_def out_simps policy_ok_def first_rule_def split: option.splits)
qed

section \<open>Properties\<close>

lemma decide_built:
  assumes "policy_build input = Ok p"
  shows "decide p name asker =
    Ok (map_option (\<lambda>i. \<lparr>d_resolver = the (map_of (p_resolvers p) (ru_resolver (p_rules p ! i))),
        d_route = ru_route (p_rules p ! i), d_rule = i\<rparr>)
      (first_rule (map normalise_rule (in_rules input)) name asker))"
  using decide_ok[OF policy_build_ok(1)[OF assms]] policy_build_ok(2)[OF assms] by simp

lemma build_resolvers_iff:
  "build_resolvers m rs = Ok m' \<longleftrightarrow>
     distinct (map rs_id rs) \<and> (\<forall>r\<in>set rs. rs_id r \<notin> fst ` set m) \<and>
     (\<forall>r\<in>set rs. rs_kind r = Doh \<longrightarrow> rs_url r \<noteq> None) \<and> m' = m @ map (\<lambda>r. (rs_id r, r)) rs"
proof (induction m rs rule: build_resolvers.induct)
  case (2 m r rest)
  show ?case
  proof (cases "(rs_kind r = Doh \<and> rs_url r = None) \<or> rs_id r \<in> fst ` set m")
    case True
    then show ?thesis by (auto simp: map_of_eq_None_iff)
  next
    case False
    then have c: "\<not> (rs_kind r = Doh \<and> rs_url r = None)" "map_of m (rs_id r) = None"
      by (auto simp: map_of_eq_None_iff)
    then have "build_resolvers m (r # rest) = build_resolvers (m @ [(rs_id r, r)]) rest" by auto
    then have "build_resolvers m (r # rest) = Ok m' \<longleftrightarrow>
        distinct (map rs_id rest) \<and> (\<forall>s\<in>set rest. rs_id s \<notin> fst ` set (m @ [(rs_id r, r)])) \<and>
        (\<forall>s\<in>set rest. rs_kind s = Doh \<longrightarrow> rs_url s \<noteq> None) \<and>
        m' = (m @ [(rs_id r, r)]) @ map (\<lambda>s. (rs_id s, s)) rest"
      using 2[OF c(1)] c(2) by simp
    moreover have "(\<forall>s\<in>set rest. rs_id s \<notin> fst ` set (m @ [(rs_id r, r)])) \<longleftrightarrow>
        (\<forall>s\<in>set rest. rs_id s \<notin> fst ` set m) \<and> rs_id r \<notin> rs_id ` set rest"
      unfolding set_append image_Un by (auto) (metis imageI)
    ultimately show ?thesis using False c(1) by (simp del: not_None_eq) blast
  qed
qed auto

lemma build_rules_total:
  "(\<exists>p'. build_rules p i rs = Ok p') \<longleftrightarrow>
     (\<forall>r\<in>set rs. map_of (p_resolvers p) (ru_resolver r) \<noteq> None \<and>
        ru_match (normalise_rule r) \<noteq> Exact [] \<and> ru_match (normalise_rule r) \<noteq> Suffix [])"
proof (induction rs arbitrary: p i)
  case (Cons r rest)
  have id: "ru_resolver (normalise_rule r) = ru_resolver r" by (simp add: normalise_rule_def)
  show ?case
  proof (cases "map_of (p_resolvers p) (ru_resolver r)")
    case (Some x)
    then show ?thesis
      by (cases "ru_match (normalise_rule r)") (simp_all add: Let_def Cons.IH)
  qed simp
qed simp

definition complete :: "policy_input \<Rightarrow> bool" where
  "complete input \<longleftrightarrow>
     distinct (map rs_id (in_resolvers input)) \<and>
     list_all (\<lambda>r. rs_kind r = Doh \<longrightarrow> rs_url r \<noteq> None) (in_resolvers input) \<and>
     list_all (\<lambda>r. ru_resolver r \<in> set (map rs_id (in_resolvers input)) \<and>
        ru_match (normalise_rule r) \<noteq> Exact [] \<and> ru_match (normalise_rule r) \<noteq> Suffix []) (in_rules input)"

lemma policy_build_complete: "(\<exists>p. policy_build input = Ok p) \<longleftrightarrow> complete input"
proof -
  have dom: "map_of (map (\<lambda>r. (rs_id r, r)) rs) x \<noteq> None \<longleftrightarrow> x \<in> set (map rs_id rs)" for rs x
    by (auto simp: map_of_eq_None_iff comp_def image_image)
  show ?thesis
  proof
    assume "\<exists>p. policy_build input = Ok p"
    then obtain p m where m: "build_resolvers [] (in_resolvers input) = Ok m"
      and r: "build_rules \<lparr>p_resolvers = m, p_rules = [], p_exact = (\<lambda>_. None),
        p_suffix = (\<lambda>_. None), p_any = []\<rparr> 0 (in_rules input) = Ok p"
      by (auto simp: policy_build_def and_then_eq_Ok)
    have mm: "m = map (\<lambda>r. (rs_id r, r)) (in_resolvers input)" using m by (simp add: build_resolvers_iff)
    have "\<forall>r\<in>set (in_rules input). map_of m (ru_resolver r) \<noteq> None \<and>
        ru_match (normalise_rule r) \<noteq> Exact [] \<and> ru_match (normalise_rule r) \<noteq> Suffix []"
      using iffD1[OF build_rules_total, OF exI, OF r] by simp
    then show "complete input" using m[unfolded build_resolvers_iff] dom[of "in_resolvers input"]
      unfolding complete_def list_all_iff mm by blast
  next
    assume c: "complete input"
    then have "build_resolvers [] (in_resolvers input) = Ok (map (\<lambda>r. (rs_id r, r)) (in_resolvers input))"
      by (auto simp: build_resolvers_iff complete_def list_all_iff)
    moreover have "\<exists>p. build_rules \<lparr>p_resolvers = map (\<lambda>r. (rs_id r, r)) (in_resolvers input),
        p_rules = [], p_exact = (\<lambda>_. None), p_suffix = (\<lambda>_. None), p_any = []\<rparr> 0 (in_rules input) = Ok p"
      unfolding build_rules_total using c dom[of "in_resolvers input"]
      unfolding complete_def list_all_iff policy.simps by blast
    ultimately show "\<exists>p. policy_build input = Ok p" by (simp add: policy_build_def)
  qed
qed

text \<open>C17. On a policy that was accepted, the indexed lookup decides exactly as walking the rules in the
  order the application wrote them does: the first rule whose (normalised) match covers the name at a
  label boundary and whose program list admits the asker gives the resolver and whether to route, and
  no rule matching means no decision. Neither the indexing of the rules nor the \<open>expect\<close> on the resolver
  can panic.\<close>

theorem decide_first_match:
  assumes "policy_build input = Ok p"
  shows "decide p name asker \<noteq> Panic \<and>
    (\<forall>d. decide p name asker = Ok (Some d) \<longleftrightarrow>
       (\<exists>i. first_rule (map normalise_rule (in_rules input)) name asker = Some i \<and>
          d = \<lparr>d_resolver = the (map_of (p_resolvers p) (ru_resolver (in_rules input ! i))),
               d_route = ru_route (in_rules input ! i), d_rule = i\<rparr>)) \<and>
    (decide p name asker = Ok None \<longleftrightarrow>
       first_rule (map normalise_rule (in_rules input)) name asker = None)"
proof (cases "first_rule (map normalise_rule (in_rules input)) name asker")
  case None
  then show ?thesis using decide_built[OF assms, of name asker] by simp
next
  case (Some i)
  then have "i < length (in_rules input)" using position_Some unfolding first_rule_def by fastforce
  then have "ru_resolver (p_rules p ! i) = ru_resolver (in_rules input ! i)"
    "ru_route (p_rules p ! i) = ru_route (in_rules input ! i)"
    using policy_build_ok(2)[OF assms] by (simp_all add: normalise_rule_def)
  then show ?thesis using decide_built[OF assms, of name asker] Some by auto
qed

definition sample_policy :: policy_input where
  "sample_policy = \<lparr>in_resolvers =
      [\<lparr>rs_id = ''h'', rs_kind = Plain, rs_address = V4 1, rs_url = None, rs_via = Direct\<rparr>,
       \<lparr>rs_id = ''w'', rs_kind = Doh, rs_address = V4 2, rs_url = Some ''u'', rs_via = Tunnel\<rparr>],
    in_rules =
      [\<lparr>ru_match = Suffix ''b.C.'', ru_resolver = ''w'', ru_programs = [''x''], ru_route = True\<rparr>,
       \<lparr>ru_match = Exact ''a.b.c'', ru_resolver = ''w'', ru_programs = [], ru_route = False\<rparr>,
       \<lparr>ru_match = Any, ru_resolver = ''h'', ru_programs = [], ru_route = False\<rparr>]\<rparr>"

lemma sample_policy_complete: "complete sample_policy" by code_simp

lemma decide_first_match_witness:
  "\<exists>p. policy_build sample_policy = Ok p \<and> decide p ''a.b.c'' None \<noteq> Panic \<and>
     decide p ''a.b.c'' None \<noteq> Ok None"
proof -
  obtain p where p: "policy_build sample_policy = Ok p"
    using sample_policy_complete unfolding policy_build_complete[symmetric] by blast
  have "position (\<lambda>r. rule_matches r ''a.b.c'' \<and> applies_to (ru_programs r) None)
      (map normalise_rule (in_rules sample_policy)) \<noteq> None"
    unfolding position_None
    by (auto simp: sample_policy_def normalise_rule_def rule_matches_def applies_to_def)
  with p decide_first_match[OF p, of "''a.b.c''" None] show ?thesis
    unfolding first_rule_def by blast
qed

text \<open>A policy is accepted exactly when it is complete: resolver ids are distinct, every DoH resolver
  has a url, every rule names a declared resolver and no rule matches an empty name (after
  normalisation).\<close>

theorem policy_accepted_iff_complete:
  "(case policy_build input of Ok _ \<Rightarrow> True | _ \<Rightarrow> False) = complete input"
  using policy_build_complete[of input] by (auto split: outcome.splits)

lemma decides_all:
  assumes "policy_ok p" "decides_everything p"
  shows "first_rule (p_rules p) name asker \<noteq> None"
proof -
  obtain i where i: "i < length (p_rules p)" "ru_match (p_rules p ! i) = Any"
    "ru_programs (p_rules p ! i) = []"
    using assms by (auto simp: decides_everything_def list_ex_iff policy_ok_def rules_with_def)
  then show ?thesis
    unfolding first_rule_def position_None
  proof (intro notI)
    assume "\<forall>x\<in>set (p_rules p). \<not> (rule_matches x name \<and> applies_to (ru_programs x) asker)"
    from bspec[OF this nth_mem[OF i(1)]] i(2,3) show False by (simp add: rule_matches_def applies_to_def)
  qed
qed

text \<open>A policy that reports it decides everything gives every asker a resolver for every name.\<close>

theorem catch_all_decides:
  assumes "policy_build input = Ok p" "decides_everything p"
  shows "\<exists>d. decide p name asker = Ok (Some d)"
  using decides_all[OF policy_build_ok(1)[OF assms(1)] assms(2), of name asker]
    decide_ok[OF policy_build_ok(1)[OF assms(1)], of name asker] by auto

lemma catch_all_decides_witness:
  "\<exists>p. policy_build sample_policy = Ok p \<and> decides_everything p \<and>
     (\<exists>d. decide p ''q'' None = Ok (Some d))"
proof -
  obtain p where p: "policy_build sample_policy = Ok p"
    using sample_policy_complete unfolding policy_build_complete[symmetric] by blast
  have any: "p_any p = rules_with (p_rules p) Any" using policy_build_ok(1)[OF p] by (simp add: policy_ok_def)
  have r: "p_rules p = map normalise_rule (in_rules sample_policy)" by (rule policy_build_ok(2)[OF p])
  have len: "length (p_rules p) = 3" and m: "ru_match (p_rules p ! 2) = Any"
    and pr: "ru_programs (p_rules p ! 2) = []"
    using r by (simp_all add: sample_policy_def normalise_rule_def)
  have "2 \<in> set (rules_with (p_rules p) Any)" using len m by (simp add: rules_with_def)
  then have "decides_everything p" using any pr by (auto simp: decides_everything_def list_ex_iff)
  with p catch_all_decides[OF p, of "''q''" None] show ?thesis by blast
qed

end
