(* ===== verification/Packet_Class.thy ===== *)
theory Packet_Class
  imports Hop_Limit
begin

text \<open>
  What the queue in front of the tunnel reads in a packet, the free functions of \<open>src/queue.rs\<close>: where
  the transport header starts, whether two packets belong to one connection, whether a packet is an
  acknowledgement and nothing else, the congestion mark, and the bucket a packet is filed in. Indexing
  is explicit. Shown: none of them reads out of range, one connection is always one bucket, and a mark
  touches the congestion bits and the header checksum only and leaves a header that verifies.
\<close>

section \<open>Reading\<close>

definition transport :: "bytes \<Rightarrow> (unit, (nat \<times> u8) option) outcome" where
  "transport packet =
     (if version packet = Some 4 \<and> 20 \<le> length packet then
        (let header = ihl packet in
         and_then (index packet 9) (\<lambda>proto.
           Ok (if 20 \<le> header \<and> header \<le> length packet then Some (header, proto) else None)))
      else if version packet = Some 6 \<and> 40 \<le> length packet then
        and_then (index packet 6) (\<lambda>proto. Ok (Some (40, proto)))
      else Ok None)"

definition same_connection :: "bytes \<Rightarrow> bytes \<Rightarrow> (unit, bool) outcome" where
  "same_connection a b =
     and_then (transport a) (\<lambda>ta. and_then (transport b) (\<lambda>tb.
     (case (ta, tb) of
        (Some (a_at, a_proto), Some (b_at, b_proto)) \<Rightarrow>
          and_then (index a 0) (\<lambda>a0. and_then (index b 0) (\<lambda>b0.
          if a_proto \<noteq> b_proto \<or> drop_bit 4 a0 \<noteq> drop_bit 4 b0 then Ok False
          else
            (let (i, j) = (if drop_bit 4 a0 = 4 then (12, 20) else (8, 40)) in
             and_then (slice i j a) (\<lambda>xa. and_then (slice i j b) (\<lambda>xb.
             if xa = xb \<and> a_at + 4 \<le> length a \<and> b_at + 4 \<le> length b then
               and_then (slice a_at (a_at + 4) a) (\<lambda>pa. and_then (slice b_at (b_at + 4) b) (\<lambda>pb.
                 Ok (pa = pb)))
             else Ok False)))))
      | _ \<Rightarrow> Ok False)))"

definition ACK_ONLY :: u8 where "ACK_ONLY = 0x10"
definition NO_OPTIONS :: u8 where "NO_OPTIONS = 0x50"

definition pure_ack :: "bytes \<Rightarrow> (unit, u32 option) outcome" where
  "pure_ack packet =
     and_then (transport packet) (\<lambda>t.
     (case t of
        None \<Rightarrow> Ok None
      | Some (k, proto) \<Rightarrow>
          if proto \<noteq> 6 \<or> length packet < k + 20 then Ok None
          else
            and_then (slice_from k packet) (\<lambda>tcp.
            and_then (index tcp 12) (\<lambda>offset. and_then (index tcp 13) (\<lambda>flags.
            if offset \<noteq> NO_OPTIONS \<or> flags \<noteq> ACK_ONLY \<or> length packet \<noteq> k + 20 then Ok None
            else
              and_then (index tcp 8) (\<lambda>a. and_then (index tcp 9) (\<lambda>b.
              and_then (index tcp 10) (\<lambda>c. and_then (index tcp 11) (\<lambda>d.
                Ok (Some (be32 a b c d)))))))))))"

text \<open>The congestion mark, in place; the result says whether the packet was willing.\<close>

definition mark_congestion :: "bytes \<Rightarrow> (unit, bool \<times> bytes) outcome" where
  "mark_congestion packet =
     (if version packet = Some 4 \<and> 20 \<le> length packet then
        and_then (index packet 1) (\<lambda>tos.
        if tos AND 3 = 0 then Ok (False, packet)
        else if tos AND 3 = 3 then Ok (True, packet)
        else
          (let header = ihl packet in
           if header < 20 \<or> length packet < header then Ok (False, packet)
           else
             let packet = packet[1 := tos OR 3] in
             and_then (slice 0 header packet) (\<lambda>head.
             and_then (copy_into 10 (be_bytes 2 (ipv4_checksum head)) packet) (\<lambda>packet.
               Ok (True, packet)))))
      else if version packet = Some 6 \<and> 40 \<le> length packet then
        and_then (index packet 1) (\<lambda>tc.
        if tc AND 0x30 = 0 then Ok (False, packet)
        else Ok (True, packet[1 := tc OR 0x30]))
      else Ok (False, packet))"

section \<open>The bucket\<close>

definition FLOWS :: nat where "FLOWS = 64"

definition HASH_OFFSET :: u64 where "HASH_OFFSET = 0xcbf29ce484222325"
definition HASH_PRIME :: u64 where "HASH_PRIME = 0x100000001b3"

text \<open>The closure \<open>eat\<close>; the multiplication wraps.\<close>

definition eat :: "u64 \<Rightarrow> bytes \<Rightarrow> u64" where
  "eat hash bs = foldl (\<lambda>h b. (h XOR ucast b) * HASH_PRIME) hash bs"

definition flow_hash :: "bytes \<Rightarrow> (unit, u64) outcome" where
  "flow_hash packet =
     (if version packet = Some 4 \<and> 20 \<le> length packet then
        and_then (index packet 9) (\<lambda>protocol.
        and_then (slice 12 20 packet) (\<lambda>addresses.
          (let hash = eat (eat HASH_OFFSET addresses) [protocol]; header = ihl packet in
           if protocol \<in> {6, 17} \<and> header + 4 \<le> length packet then
             and_then (slice header (header + 4) packet) (\<lambda>ports. Ok (eat hash ports))
           else Ok hash)))
      else if version packet = Some 6 \<and> 40 \<le> length packet then
        and_then (index packet 6) (\<lambda>protocol.
        and_then (slice 8 40 packet) (\<lambda>addresses.
          (let hash = eat (eat HASH_OFFSET addresses) [protocol] in
           if protocol \<in> {6, 17} \<and> 44 \<le> length packet then
             and_then (slice 40 44 packet) (\<lambda>ports. Ok (eat hash ports))
           else Ok hash)))
      else Ok (eat HASH_OFFSET [0]))"

definition flow_of :: "bytes \<Rightarrow> (unit, nat) outcome" where
  "flow_of packet = and_then (flow_hash packet) (\<lambda>hash. Ok (unat (hash mod of_nat FLOWS)))"

section \<open>Reading stays inside the packet\<close>

lemma transport_total:
  "\<exists>t. transport p = Ok t \<and> (\<forall>k proto. t = Some (k, proto) \<longrightarrow> 20 \<le> k \<and> k \<le> length p)"
  by (auto simp: transport_def Let_def out_simps)

lemma transport_Some:
  "transport p = Ok (Some (k, proto)) \<longleftrightarrow>
     (version p = Some 4 \<and> k = ihl p \<and> 20 \<le> k \<and> k \<le> length p \<and> proto = p ! 9) \<or>
     (version p = Some 6 \<and> k = 40 \<and> 40 \<le> length p \<and> proto = p ! 6)"
  by (auto simp: transport_def Let_def out_simps)

lemma same_connection_total: "\<exists>r. same_connection a b = Ok r"
proof -
  obtain ta where ta: "transport a = Ok ta" "\<forall>k proto. ta = Some (k, proto) \<longrightarrow> 20 \<le> k \<and> k \<le> length a"
    using transport_total by blast
  obtain tb where tb: "transport b = Ok tb" "\<forall>k proto. tb = Some (k, proto) \<longrightarrow> 20 \<le> k \<and> k \<le> length b"
    using transport_total by blast
  show ?thesis
  proof (cases ta; cases tb)
    fix x y assume x: "ta = Some x" and y: "tb = Some y"
    obtain k pk where xk: "x = (k, pk)" by (cases x)
    obtain l pl where yl: "y = (l, pl)" by (cases y)
    have v: "version a = Some 4 \<and> 20 \<le> length a \<or> version a = Some 6 \<and> 40 \<le> length a"
      "version b = Some 4 \<and> 20 \<le> length b \<or> version b = Some 6 \<and> 40 \<le> length b"
      using ta(1) tb(1) transport_Some x y xk yl by auto
    then have "drop_bit 4 (a ! 0) = 4 \<and> 20 \<le> length a \<or> drop_bit 4 (a ! 0) = 6 \<and> 40 \<le> length a"
      "drop_bit 4 (b ! 0) = 4 \<and> 20 \<le> length b \<or> drop_bit 4 (b ! 0) = 6 \<and> 40 \<le> length b"
      by (auto simp: version_def)
    moreover have "a \<noteq> []" "b \<noteq> []" using v version_Some by blast+
    ultimately show ?thesis
      using ta tb x y xk yl by (auto simp: same_connection_def out_simps)
  qed (use ta tb in \<open>auto simp: same_connection_def\<close>)
qed

lemma pure_ack_total: "\<exists>r. pure_ack p = Ok r"
proof -
  obtain t where t: "transport p = Ok t" "\<forall>k proto. t = Some (k, proto) \<longrightarrow> 20 \<le> k \<and> k \<le> length p"
    using transport_total by blast
  then show ?thesis by (cases t) (auto simp: pure_ack_def out_simps)
qed

lemma flow_hash_total: "\<exists>h. flow_hash p = Ok h"
  by (auto simp: flow_hash_def Let_def out_simps)

lemma flow_of_total: "\<exists>i. flow_of p = Ok i \<and> i < FLOWS"
proof -
  obtain h where "flow_hash p = Ok h" using flow_hash_total by blast
  moreover have "unat (h mod of_nat FLOWS) < FLOWS" by (simp add: FLOWS_def unat_mod)
  ultimately show ?thesis by (simp add: flow_of_def)
qed

section \<open>Buckets and marks\<close>

lemma same_connection_iff:
  "same_connection a b = Ok True \<longleftrightarrow>
     (\<exists>k l proto. transport a = Ok (Some (k, proto)) \<and> transport b = Ok (Some (l, proto)) \<and>
        version a = version b \<and> k + 4 \<le> length a \<and> l + 4 \<le> length b \<and>
        take 4 (drop k a) = take 4 (drop l b) \<and>
        (if version a = Some 4 then take 8 (drop 12 a) = take 8 (drop 12 b)
         else take 32 (drop 8 a) = take 32 (drop 8 b)))"
proof -
  obtain ta where ta: "transport a = Ok ta" using transport_total by blast
  obtain tb where tb: "transport b = Ok tb" using transport_total by blast
  show ?thesis
  proof (cases ta; cases tb)
    fix x y assume x: "ta = Some x" and y: "tb = Some y"
    obtain k pk where xk: "x = (k, pk)" by (cases x)
    obtain l pl where yl: "y = (l, pl)" by (cases y)
    have len: "20 \<le> k" "k \<le> length a" "20 \<le> l" "l \<le> length b"
      using ta tb x y xk yl transport_total[of a] transport_total[of b] by auto
    have v: "version a = Some 4 \<or> version a = Some 6 \<and> 40 \<le> length a"
      "version b = Some 4 \<or> version b = Some 6 \<and> 40 \<le> length b"
      using ta tb transport_Some x y xk yl by auto
    then have ne: "a \<noteq> []" "b \<noteq> []" using version_Some by blast+
    then have va: "version a = Some (drop_bit 4 (a ! 0))" "version b = Some (drop_bit 4 (b ! 0))"
      by (simp_all add: version_def)
    show ?thesis
    proof (cases "pk = pl \<and> version a = version b")
      case True
      then show ?thesis using v ne ta tb x y xk yl len va
        by (cases "version a = Some 4") (auto simp: same_connection_def out_simps)
    next
      case False
      then show ?thesis using ta tb x y xk yl ne va by (auto simp: same_connection_def out_simps)
    qed
  qed (use ta tb in \<open>auto simp: same_connection_def\<close>)
qed

text \<open>Two packets of one connection are filed in the same bucket, so an acknowledgement and the ones
  it makes redundant are always found together.\<close>

theorem same_connection_same_bucket:
  assumes "same_connection a b = Ok True"
  shows "flow_of a = flow_of b"
proof -
  obtain k l proto where c: "transport a = Ok (Some (k, proto))" "transport b = Ok (Some (l, proto))"
    "version a = version b" "k + 4 \<le> length a" "l + 4 \<le> length b"
    "take 4 (drop k a) = take 4 (drop l b)"
    "if version a = Some 4 then take 8 (drop 12 a) = take 8 (drop 12 b)
     else take 32 (drop 8 a) = take 32 (drop 8 b)"
    using assms unfolding same_connection_iff by blast
  have "flow_hash a = flow_hash b"
  proof (cases "version a = Some 4")
    case True
    then have "k = ihl a" "l = ihl b" "20 \<le> k" "20 \<le> l" "a ! 9 = proto" "b ! 9 = proto"
      using c(1,2,3) unfolding transport_Some by auto
    with True c(3-7) show ?thesis by (simp add: flow_hash_def Let_def out_simps)
  next
    case False
    then have "version a = Some 6" "k = 40" "l = 40" "a ! 6 = proto" "b ! 6 = proto"
      using c(1,2,3) unfolding transport_Some by auto
    with False c(3-7) show ?thesis by (simp add: flow_hash_def Let_def out_simps)
  qed
  then show ?thesis by (simp add: flow_of_def)
qed

definition sample_ack :: "u8 \<Rightarrow> bytes" where
  "sample_ack n = [0x45, 0, 0, 40, 0, 0, 0x40, 0, 64, 6, 0, 0, 10, 0, 0, 1, 10, 0, 0, 2,
     0x1f, 0x90, 0, 80, 0, 0, 0, 1, 0, 0, 0, n, 0x50, 0x10, 0, 0, 0, 0, 0, 0]"

theorem same_connection_same_bucket_witness: "flow_of (sample_ack 1) = flow_of (sample_ack 2)"
proof -
  have "same_connection (sample_ack 1) (sample_ack 2) = Ok True" by code_simp
  then show ?thesis by (rule same_connection_same_bucket)
qed

lemma mark_v4:
  assumes "version p = Some 4" "20 \<le> length p"
  shows "mark_congestion p =
    (if p ! 1 AND 3 = 0 then Ok (False, p)
     else if p ! 1 AND 3 = 3 then Ok (True, p)
     else if ihl p < 20 \<or> length p < ihl p then Ok (False, p)
     else
       let q = p[1 := p ! 1 OR 3] in
       Ok (True, take 10 q @ be_bytes 2 (ipv4_checksum (take (ihl p) q)) @ drop 12 q))"
  using assms by (simp add: mark_congestion_def out_simps Let_def del: be_bytes.simps)

lemma mark_v6:
  assumes "version p = Some 6" "40 \<le> length p"
  shows "mark_congestion p =
    (if p ! 1 AND 0x30 = 0 then Ok (False, p) else Ok (True, p[1 := p ! 1 OR 0x30]))"
  using assms by (simp add: mark_congestion_def out_simps)

lemma mark_other:
  assumes "\<not> (version p = Some 4 \<and> 20 \<le> length p)" "\<not> (version p = Some 6 \<and> 40 \<le> length p)"
  shows "mark_congestion p = Ok (False, p)"
  using assms unfolding mark_congestion_def by argo

lemma mark_congestion_total:
  "\<exists>m q. mark_congestion p = Ok (m, q) \<and> length q = length p \<and> (m \<or> q = p)"
proof (cases "version p = Some 4 \<and> 20 \<le> length p")
  case True
  moreover have "Suc (Suc (length p - 2)) = length p" using True by linarith
  ultimately show ?thesis by (auto simp: mark_v4 Let_def simp del: be_bytes.simps)
next
  case False
  then show ?thesis using mark_other[of p] by (cases "version p = Some 6 \<and> 40 \<le> length p") (auto simp: mark_v6)
qed

lemma tos_marked: "(tos OR 3) AND 3 = (3 :: u8)"
  by (rule bit_word_eqI) (auto simp: bit_simps)

text \<open>A marked IPv4 packet came from a sender that set an ECT bit; it says congestion was experienced,
  its header verifies, options included, and no byte changed but the type of service and the checksum.
  A packet already marked is left as it is.\<close>

theorem mark_congestion_v4:
  assumes "mark_congestion p = Ok (True, q)" "version p = Some 4"
  shows "p ! 1 AND 3 \<noteq> 0 \<and> q ! 1 = p ! 1 OR 3 \<and> length q = length p \<and>
    (\<forall>i. i \<notin> {1, 10, 11} \<longrightarrow> q ! i = p ! i) \<and>
    (q = p \<or> checksum (take (ihl q) q) = 0)"
proof -
  have len: "20 \<le> length p" using assms mark_other[of p] by fastforce
  note m = mark_v4[OF assms(2) len, unfolded assms(1)]
  show ?thesis
  proof (cases "p ! 1 AND 3 = 3")
    case True
    then have "q = p" using m by simp
    moreover have "p ! 1 OR 3 = p ! 1" using True by (metis word_ao_absorbs(6))
    ultimately show ?thesis using True by auto
  next
    case False
    define r where "r = p[1 := p ! 1 OR 3]"
    define h where "h = take (ihl p) r"
    have g: "p ! 1 AND 3 \<noteq> 0" "20 \<le> ihl p" "ihl p \<le> length p"
      using m False by (auto split: if_splits)
    have q: "q = take 10 r @ be_bytes 2 (ipv4_checksum h) @ drop 12 r"
      using m False g by (simp add: r_def h_def Let_def del: be_bytes.simps)
    have lr: "length r = length p" by (simp add: r_def)
    have other: "q ! i = r ! i" if "i \<notin> {10, 11}" for i
      using that g lr by (auto simp: q nth_append numeral_2_eq_2 min_def)
    have "q ! 1 = p ! 1 OR 3" using other[of 1] len by (simp add: r_def)
    moreover have "ihl q = ihl p" using other[of 0] by (simp add: ihl_def r_def)
    moreover have "take (ihl p) q = take 10 h @ be_bytes 2 (ipv4_checksum h) @ drop 12 h"
      using g lr by (simp add: q h_def take_drop del: be_bytes.simps)
    moreover have "checksum (take 10 h @ be_bytes 2 (ipv4_checksum h) @ drop 12 h) = 0"
    proof (rule ipv4_checksum_verifies)
      have "length h = ihl p" using g lr by (simp add: h_def)
      then show "12 \<le> length h" "even (length h)" "length h \<le> 65534"
        using g ihl_bound[of p] by (simp_all add: ihl_def)
    qed
    moreover have "length q = length p" using g lr len by (simp add: q del: be_bytes.simps)
    ultimately show ?thesis using other g by (auto simp: r_def)
  qed
qed

theorem mark_congestion_v4_witness:
  "sample_v4[1 := 3, 10 := 0x1c, 11 := 0xdb] ! 1 = sample_v4[1 := 2] ! 1 OR 3 \<and>
   checksum (take 24 (sample_v4[1 := 3, 10 := 0x1c, 11 := 0xdb])) = 0"
proof -
  have "mark_congestion (sample_v4[1 := 2]) = Ok (True, sample_v4[1 := 3, 10 := 0x1c, 11 := 0xdb])"
    by code_simp
  moreover have "version (sample_v4[1 := 2]) = Some 4" by code_simp
  moreover have "ihl (sample_v4[1 := 3, 10 := 0x1c, 11 := 0xdb]) = 24" by code_simp
  moreover have "sample_v4[1 := 3, 10 := 0x1c, 11 := 0xdb] \<noteq> sample_v4[1 := 2]" by code_simp
  ultimately show ?thesis using mark_congestion_v4 by metis
qed

end
