(* ===== verification/Packet_Queue.thy ===== *)
theory Packet_Queue
  imports Packet_Class "HOL-Library.Sublist"
begin

text \<open>
  Flow queueing and CoDel on the way into the tunnel, \<open>src/queue.rs\<close>: packets filed into buckets by
  their 5-tuple, served by deficit round-robin with fresh buckets first, thinned of redundant
  acknowledgements, held under a byte limit by dropping from the fattest bucket, and signalled or
  dropped when they have stood too long. Every index and every counter subtraction of the source is
  checked, and the loop that makes room may not end: the properties say that on every queue the
  operations can reach neither a panic nor a loop without end is possible.

  The clock is an argument; event counters are naturals. The quotient of the control law, a
  floating-point division by a square root, is the exact quotient rounded down to a nanosecond.
\<close>

section \<open>State\<close>

definition INTERVAL :: duration where "INTERVAL = from_millis 100"
definition INTERVAL_FLOOR :: duration where "INTERVAL_FLOOR = from_millis 50"
definition INTERVAL_CEILING :: duration where "INTERVAL_CEILING = from_millis 300"
definition RTT_TO_INTERVAL :: nat where "RTT_TO_INTERVAL = 4"
definition TARGET_SHARE :: nat where "TARGET_SHARE = 20"
definition QUANTUM :: nat where "QUANTUM = 1280"
definition LIMIT_BYTES :: nat where "LIMIT_BYTES = 2 * 1024 * 1024"
definition STALE_AFTER :: duration where "STALE_AFTER = from_secs 1"

record queued =
  qd_packet :: bytes
  qd_at :: instant

record flow =
  fl_packets :: "queued list"
  fl_bytes :: nat
  fl_deficit :: int
  fl_listed :: bool
  fl_above :: "instant option"
  fl_next :: "instant option"
  fl_count :: u32
  fl_dropping :: bool

record inner =
  q_flows :: "flow list"
  q_fresh :: "nat list"
  q_backlogged :: "nat list"
  q_bytes :: nat
  q_packets :: nat
  q_over_limit :: nat
  q_over_target :: nat
  q_marked :: nat
  q_thinned :: nat
  q_stale :: nat
  q_worst :: duration
  q_interval :: duration
  q_target :: duration
  q_closed :: bool

definition flow_default :: flow where
  "flow_default = \<lparr>fl_packets = [], fl_bytes = 0, fl_deficit = 0, fl_listed = False,
     fl_above = None, fl_next = None, fl_count = 0, fl_dropping = False\<rparr>"

definition queue_new :: inner where
  "queue_new = \<lparr>q_flows = replicate FLOWS flow_default, q_fresh = [], q_backlogged = [],
     q_bytes = 0, q_packets = 0, q_over_limit = 0, q_over_target = 0, q_marked = 0, q_thinned = 0,
     q_stale = 0, q_worst = 0, q_interval = INTERVAL, q_target = INTERVAL div TARGET_SHARE,
     q_closed = False\<rparr>"

section \<open>Buckets\<close>

definition set_flow :: "nat \<Rightarrow> flow \<Rightarrow> inner \<Rightarrow> inner" where
  "set_flow idx f q = q\<lparr>q_flows := (q_flows q)[idx := f]\<rparr>"

text \<open>\<open>self.flows[idx]\<close>, read and then changed in place.\<close>

definition on_flow :: "nat \<Rightarrow> (flow \<Rightarrow> flow) \<Rightarrow> inner \<Rightarrow> (unit, inner) outcome" where
  "on_flow idx g q = and_then (index (q_flows q) idx) (\<lambda>f. Ok (set_flow idx (g f) q))"

text \<open>The three counters a packet leaves by: its bucket's bytes, the queue's bytes and packets.\<close>

definition uncount :: "nat \<Rightarrow> nat \<Rightarrow> inner \<Rightarrow> (unit, inner) outcome" where
  "uncount idx len q =
     and_then (index (q_flows q) idx) (\<lambda>f.
     and_then (minus_checked (fl_bytes f) len) (\<lambda>flow_bytes.
     and_then (minus_checked (q_bytes q) len) (\<lambda>bytes.
     and_then (minus_checked (q_packets q) 1) (\<lambda>packets.
       Ok ((set_flow idx (f\<lparr>fl_bytes := flow_bytes\<rparr>) q)\<lparr>q_bytes := bytes, q_packets := packets\<rparr>)))))"

text \<open>\<open>packets.pop_front()\<close>.\<close>

definition pop_front :: "nat \<Rightarrow> inner \<Rightarrow> (unit, queued option \<times> inner) outcome" where
  "pop_front idx q =
     and_then (index (q_flows q) idx) (\<lambda>f.
     (case fl_packets f of
        [] \<Rightarrow> Ok (None, q)
      | head # rest \<Rightarrow> Ok (Some head, set_flow idx (f\<lparr>fl_packets := rest\<rparr>) q)))"

section \<open>Making room\<close>

definition fattest :: "flow list \<Rightarrow> (nat \<times> nat) option" where
  "fattest flows =
     Option.bind (max_by (\<lambda>x y. snd x \<le> snd y) (enumerate 0 (map fl_bytes flows)))
       (\<lambda>(i, bytes). if 0 < bytes then Some (i, bytes) else None)"

definition drop_fattest :: "inner \<Rightarrow> (unit, bool \<times> inner) outcome" where
  "drop_fattest q =
     (case fattest (q_flows q) of
        None \<Rightarrow> Ok (False, q)
      | Some (idx, _) \<Rightarrow>
          and_then (pop_front idx q) (\<lambda>(dropped, q).
          (case dropped of
             None \<Rightarrow> Ok (True, q)
           | Some d \<Rightarrow>
               and_then (uncount idx (length (qd_packet d)) q) (\<lambda>q.
                 Ok (True, q\<lparr>q_over_limit := q_over_limit q + 1\<rparr>)))))"

text \<open>The loop of \<open>enqueue\<close>; \<open>None\<close> is a loop that never ends.\<close>

partial_function (option) make_room :: "nat \<Rightarrow> inner \<Rightarrow> (unit, inner) outcome option" where
  "make_room len q =
     (if q_bytes q + len > LIMIT_BYTES then
        (case drop_fattest q of
           Ok (dropped, q) \<Rightarrow> if dropped then make_room len q else Some (Ok q)
         | Err e \<Rightarrow> Some (Err e)
         | Panic \<Rightarrow> Some Panic)
      else Some (Ok q))"

section \<open>Thinning\<close>

text \<open>The positions whose acknowledgement the newer packet covers; the comparison is the sign of the
  wrapped difference.\<close>

fun redundant_acks :: "bytes \<Rightarrow> u32 \<Rightarrow> nat \<Rightarrow> queued list \<Rightarrow> (unit, nat list) outcome" where
  "redundant_acks newer acked k [] = Ok []"
| "redundant_acks newer acked k (queued # rest) =
     and_then (pure_ack (qd_packet queued)) (\<lambda>older.
     (case older of
        None \<Rightarrow> redundant_acks newer acked (k + 1) rest
      | Some older \<Rightarrow>
          and_then (if sint (acked - older) > 0 then same_connection newer (qd_packet queued) else Ok False)
            (\<lambda>redundant.
              and_then (redundant_acks newer acked (k + 1) rest) (\<lambda>found.
                Ok (if redundant then k # found else found)))))"

text \<open>The removals, in the order given; \<open>packets.remove(at)\<close> past the end is skipped.\<close>

fun remove_acks :: "nat \<Rightarrow> nat list \<Rightarrow> inner \<Rightarrow> (unit, inner) outcome" where
  "remove_acks idx [] q = Ok q"
| "remove_acks idx (k # ks) q =
     and_then (index (q_flows q) idx) (\<lambda>f.
     (case at (fl_packets f) k of
        None \<Rightarrow> remove_acks idx ks q
      | Some dropped \<Rightarrow>
          and_then (uncount idx (length (qd_packet dropped))
              (set_flow idx (f\<lparr>fl_packets := take k (fl_packets f) @ drop (k + 1) (fl_packets f)\<rparr>) q))
            (\<lambda>q. remove_acks idx ks (q\<lparr>q_thinned := q_thinned q + 1\<rparr>))))"

definition thin_acks :: "nat \<Rightarrow> bytes \<Rightarrow> u32 \<Rightarrow> inner \<Rightarrow> (unit, inner) outcome" where
  "thin_acks idx newer acked q =
     and_then (index (q_flows q) idx) (\<lambda>f.
     and_then (redundant_acks newer acked 0 (fl_packets f)) (\<lambda>redundant.
       remove_acks idx (rev (butlast redundant)) q))"

section \<open>Enqueue\<close>

definition file_packet :: "bytes \<Rightarrow> instant \<Rightarrow> inner \<Rightarrow> (unit, inner) outcome" where
  "file_packet packet now q =
     and_then (flow_of packet) (\<lambda>idx.
     and_then (pure_ack packet) (\<lambda>ack.
     and_then (case ack of Some acked \<Rightarrow> thin_acks idx packet acked q | None \<Rightarrow> Ok q) (\<lambda>q.
     and_then (index (q_flows q) idx) (\<lambda>f.
       let len = length packet;
         f = f\<lparr>fl_packets := fl_packets f @ [\<lparr>qd_packet = packet, qd_at = now\<rparr>],
               fl_bytes := fl_bytes f + len\<rparr>;
         q = q\<lparr>q_bytes := q_bytes q + len, q_packets := q_packets q + 1\<rparr>
       in Ok (if \<not> fl_listed f
              then (set_flow idx (f\<lparr>fl_listed := True, fl_deficit := int QUANTUM\<rparr>) q)
                     \<lparr>q_fresh := q_fresh q @ [idx]\<rparr>
              else set_flow idx f q)))))"

definition enqueue :: "bytes \<Rightarrow> instant \<Rightarrow> inner \<Rightarrow> (unit, inner) outcome option" where
  "enqueue packet now q =
     map_option (\<lambda>r. and_then r (file_packet packet now)) (make_room (length packet) q)"

section \<open>CoDel\<close>

definition take_head :: "nat \<Rightarrow> instant \<Rightarrow> inner \<Rightarrow> (unit, (bytes \<times> bool) option \<times> inner) outcome" where
  "take_head idx now q =
     and_then (pop_front idx q) (\<lambda>(head, q).
     (case head of
        None \<Rightarrow> Ok (None, q)
      | Some head \<Rightarrow>
          let len = length (qd_packet head); waited = now - qd_at head in
          and_then (uncount idx len q) (\<lambda>q.
          let q = q\<lparr>q_worst := max (q_worst q) waited\<rparr> in
          and_then (index (q_flows q) idx) (\<lambda>f.
            if \<not> (q_target q \<le> waited \<and> QUANTUM < fl_bytes f) then
              Ok (Some (qd_packet head, False), set_flow idx (f\<lparr>fl_above := None\<rparr>) q)
            else
              (case fl_above f of
                 None \<Rightarrow> Ok (Some (qd_packet head, False),
                   set_flow idx (f\<lparr>fl_above := Some (now + q_interval q)\<rparr>) q)
               | Some due \<Rightarrow> Ok (Some (qd_packet head, due \<le> now), q))))))"

text \<open>The integer square root, and \<open>interval.div_f64(sqrt(count))\<close> with it: the quotient rounded to the
  nearest nanosecond, which is what the conversion from the double precision quotient gives for the
  intervals there are; the last bit of the floating point quotient is not modelled.\<close>

fun isqrt :: "nat \<Rightarrow> nat" where
  "isqrt n = (if n = 0 then 0 else
     let r = 2 * isqrt (n div 4) in if (r + 1) * (r + 1) \<le> n then r + 1 else r)"

declare isqrt.simps [simp del]

definition drop_spacing :: "duration \<Rightarrow> u32 \<Rightarrow> duration" where
  "drop_spacing interval count = (isqrt (4 * interval * interval div unat (max count 1)) + 1) div 2"

definition schedule :: "nat \<Rightarrow> instant \<Rightarrow> inner \<Rightarrow> (unit, inner) outcome" where
  "schedule idx start q =
     on_flow idx (\<lambda>f. f\<lparr>fl_next := Some (start + drop_spacing (q_interval q) (fl_count f))\<rparr>) q"

text \<open>The next drop, counted from when the last one was due.\<close>

definition schedule_next :: "nat \<Rightarrow> instant \<Rightarrow> inner \<Rightarrow> (unit, inner) outcome" where
  "schedule_next idx now q =
     and_then (index (q_flows q) idx) (\<lambda>f.
       schedule idx (case fl_next f of Some n \<Rightarrow> n | None \<Rightarrow> now) q)"

definition mark :: "bytes \<Rightarrow> inner \<Rightarrow> (unit, bool \<times> bytes \<times> inner) outcome" where
  "mark packet q =
     and_then (mark_congestion packet) (\<lambda>(willing, packet).
       if \<not> willing then Ok (False, packet, q)
       else Ok (True, packet, q\<lparr>q_marked := q_marked q + 1\<rparr>))"

definition due :: "flow \<Rightarrow> instant \<Rightarrow> bool" where
  "due f now = (case fl_next f of Some n \<Rightarrow> n \<le> now | None \<Rightarrow> False)"

section \<open>Frames\<close>

text \<open>What an operation on one bucket leaves alone.\<close>

lemma set_flow_simps [simp]:
  "q_flows (set_flow idx f q) = (q_flows q)[idx := f]" "q_fresh (set_flow idx f q) = q_fresh q"
  "q_backlogged (set_flow idx f q) = q_backlogged q" "q_bytes (set_flow idx f q) = q_bytes q"
  "q_packets (set_flow idx f q) = q_packets q" "q_over_limit (set_flow idx f q) = q_over_limit q"
  "q_over_target (set_flow idx f q) = q_over_target q" "q_marked (set_flow idx f q) = q_marked q"
  "q_thinned (set_flow idx f q) = q_thinned q" "q_stale (set_flow idx f q) = q_stale q"
  "q_worst (set_flow idx f q) = q_worst q" "q_interval (set_flow idx f q) = q_interval q"
  "q_target (set_flow idx f q) = q_target q" "q_closed (set_flow idx f q) = q_closed q"
  by (simp_all add: set_flow_def)

definition same_service :: "inner \<Rightarrow> inner \<Rightarrow> bool" where
  "same_service q q' \<longleftrightarrow> q_fresh q' = q_fresh q \<and> q_backlogged q' = q_backlogged q \<and>
     length (q_flows q') = length (q_flows q)"

lemma same_service_refl [simp]: "same_service q q"
  by (simp add: same_service_def)

lemma same_service_trans: "same_service q q' \<Longrightarrow> same_service q' q'' \<Longrightarrow> same_service q q''"
  by (simp add: same_service_def)

lemma map_update_same [simp]: "i < length xs \<Longrightarrow> (map g xs)[i := g (xs ! i)] = map g xs"
  by (metis list_update_id map_update)

lemma uncount_same: "uncount idx len q = Ok q' \<Longrightarrow>
    same_service q q' \<and> map fl_packets (q_flows q') = map fl_packets (q_flows q)"
  by (auto simp: uncount_def and_then_eq_Ok same_service_def map_update index_def split: if_splits)

lemma on_flow_same: "on_flow idx g q = Ok q' \<Longrightarrow> same_service q q'"
  by (auto simp: on_flow_def and_then_eq_Ok same_service_def)

lemma on_flow_packets: "on_flow idx g q = Ok q' \<Longrightarrow> (\<And>f. fl_packets (g f) = fl_packets f) \<Longrightarrow>
    map fl_packets (q_flows q') = map fl_packets (q_flows q)"
  by (auto simp: on_flow_def and_then_eq_Ok map_update index_eq_Ok)

lemma schedule_same: "schedule idx start q = Ok q' \<Longrightarrow>
    same_service q q' \<and> map fl_packets (q_flows q') = map fl_packets (q_flows q)"
  by (auto simp: schedule_def on_flow_def and_then_eq_Ok same_service_def map_update index_def
      split: if_splits)

lemma schedule_next_same: "schedule_next idx now q = Ok q' \<Longrightarrow>
    same_service q q' \<and> map fl_packets (q_flows q') = map fl_packets (q_flows q)"
  by (auto simp: schedule_next_def and_then_eq_Ok dest: schedule_same)

lemma mark_same: "mark p q = Ok (m, p', q') \<Longrightarrow>
    same_service q q' \<and> q_flows q' = q_flows q"
  by (auto simp: mark_def and_then_eq_Ok same_service_def split: if_splits)

lemma pop_front_same: "pop_front idx q = Ok (h, q') \<Longrightarrow>
    same_service q q' \<and> (case h of None \<Rightarrow> q' = q
      | Some x \<Rightarrow> idx < length (q_flows q) \<and> (map fl_packets (q_flows q)) ! idx = x # (map fl_packets (q_flows q')) ! idx)"
  by (auto simp: pop_front_def and_then_eq_Ok same_service_def index_def split: if_splits list.splits)

lemma take_head_same: "take_head idx now q = Ok (r, q') \<Longrightarrow>
    same_service q q' \<and> (r \<noteq> None \<longrightarrow> idx < length (q_flows q) \<and>
      length (fl_packets (q_flows q' ! idx)) < length (fl_packets (q_flows q ! idx)))"
proof -
  assume t: "take_head idx now q = Ok (r, q')"
  then obtain h q1 where p: "pop_front idx q = Ok (h, q1)"
    by (auto simp: take_head_def and_then_eq_Ok)
  show ?thesis
  proof (cases h)
    case None
    then show ?thesis using t p pop_front_same[OF p] by (simp add: take_head_def)
  next
    case (Some x)
    then obtain q2 where u: "uncount idx (length (qd_packet x)) q1 = Ok q2"
      using t p by (auto simp: take_head_def and_then_eq_Ok Let_def)
    have i: "idx < length (q_flows q)" using pop_front_same[OF p] Some by simp
    have i2: "idx < length (q_flows q2)" "idx < length (q_flows q1)"
      using i pop_front_same[OF p] uncount_same[OF u] by (simp_all add: same_service_def)
    have "same_service q q' \<and> fl_packets (q_flows q' ! idx) = fl_packets (q_flows q2 ! idx)"
      using t p Some u i2 pop_front_same[OF p] uncount_same[OF u]
      by (auto simp: take_head_def Let_def index_def same_service_def split: if_splits option.splits)
    moreover have "fl_packets (q_flows q2 ! idx) = fl_packets (q_flows q1 ! idx)"
      using uncount_same[OF u] i2 by (metis nth_map)
    moreover have "fl_packets (q_flows q ! idx) = x # fl_packets (q_flows q1 ! idx)"
      using pop_front_same[OF p] Some i i2 by simp
    ultimately show ?thesis using i by simp
  qed
qed

section \<open>CoDel's decisions\<close>

text \<open>The loop of an episode: while a drop is due, the packet in hand carries the signal away or is
  dropped and the next one taken.\<close>

function codel_drop :: "nat \<Rightarrow> instant \<Rightarrow> bytes \<Rightarrow> inner \<Rightarrow> (unit, bytes option \<times> inner) outcome" where
  "codel_drop idx now packet q =
     and_then (index (q_flows q) idx) (\<lambda>f.
     if fl_dropping f \<and> due f now then
       and_then (mark packet (set_flow idx (f\<lparr>fl_count := fl_count f + 1\<rparr>) q)) (\<lambda>(marked, packet, q).
       if marked then
         and_then (schedule_next idx now q) (\<lambda>q. Ok (Some packet, q))
       else
         and_then (take_head idx now (q\<lparr>q_over_target := q_over_target q + 1\<rparr>)) (\<lambda>(next_head, q).
         (case next_head of
            None \<Rightarrow> and_then (on_flow idx (\<lambda>f. f\<lparr>fl_dropping := False\<rparr>) q) (\<lambda>q. Ok (None, q))
          | Some (packet, overdue) \<Rightarrow>
              and_then
                (if overdue then schedule_next idx now q
                 else on_flow idx (\<lambda>f. f\<lparr>fl_dropping := False\<rparr>) q)
                (\<lambda>q. codel_drop idx now packet q))))
     else Ok (Some packet, q))"
  by pat_completeness auto
termination
proof (relation "measure (\<lambda>(idx, now, packet, q). length (fl_packets (q_flows q ! idx)))", simp, goal_cases)
  case (1 idx now packet q f mpq m pq packet1 q1 hq h q2 po packet2 overdue q3)
  have "same_service (set_flow idx (f\<lparr>fl_count := fl_count f + 1\<rparr>) q) q1 \<and>
      q_flows q1 = (q_flows q)[idx := f\<lparr>fl_count := fl_count f + 1\<rparr>]"
    using mark_same[of packet "set_flow idx (f\<lparr>fl_count := fl_count f + 1\<rparr>) q"] 1(3-5) by auto
  then have "length (fl_packets (q_flows q2 ! idx)) < length (fl_packets (q_flows q ! idx))"
    "same_service q1 q2" "idx < length (q_flows q1)"
    using take_head_same[of idx now "q1\<lparr>q_over_target := q_over_target q1 + 1\<rparr>" h q2] 1
    by (auto simp: index_eq_Ok same_service_def)
  moreover have "map fl_packets (q_flows q3) = map fl_packets (q_flows q2)"
  proof (cases overdue)
    case True
    then show ?thesis using 1(11) schedule_next_same by auto
  next
    case False
    then show ?thesis using 1(11) by (auto intro: on_flow_packets)
  qed
  moreover from this have "length (q_flows q3) = length (q_flows q2)" by (rule map_eq_imp_length_eq)
  ultimately show ?case by (simp add: same_service_def) (metis nth_map)
qed

declare codel_drop.simps [simp del]

definition codel :: "nat \<Rightarrow> instant \<Rightarrow> inner \<Rightarrow> (unit, bytes option \<times> inner) outcome" where
  "codel idx now q =
     and_then (take_head idx now q) (\<lambda>(head, q).
     (case head of
        None \<Rightarrow> Ok (None, q)
      | Some (packet, overdue) \<Rightarrow>
          and_then (index (q_flows q) idx) (\<lambda>f.
          if fl_dropping f then
            if \<not> overdue then
              Ok (Some packet, set_flow idx (f\<lparr>fl_dropping := False\<rparr>) q)
            else codel_drop idx now packet q
          else if overdue then
            and_then (mark packet q) (\<lambda>(marked, packet, q).
            and_then (if marked then Ok (None, q)
                else take_head idx now (q\<lparr>q_over_target := q_over_target q + 1\<rparr>)) (\<lambda>(next_head, q).
            and_then (index (q_flows q) idx) (\<lambda>f.
              let resumed = (case fl_next f of
                    Some prev \<Rightarrow> now - prev < 16 * q_interval q | None \<Rightarrow> False);
                count = (if 2 < fl_count f \<and> resumed then fl_count f - 2 else 1)
              in
                and_then (schedule idx now (set_flow idx (f\<lparr>fl_count := count, fl_dropping := True\<rparr>) q))
                  (\<lambda>q. Ok (if marked then Some packet else map_option fst next_head, q)))))
          else Ok (Some packet, q))))"

section \<open>Service\<close>

text \<open>The bucket to serve next, and whether it is a fresh one.\<close>

definition next_bucket :: "inner \<Rightarrow> (nat \<times> bool) option" where
  "next_bucket q =
     (case q_fresh q of
        idx # _ \<Rightarrow> Some (idx, True)
      | [] \<Rightarrow> (case q_backlogged q of idx # _ \<Rightarrow> Some (idx, False) | [] \<Rightarrow> None))"

definition pop_service :: "bool \<Rightarrow> inner \<Rightarrow> inner" where
  "pop_service was_fresh q =
     (if was_fresh then q\<lparr>q_fresh := tl (q_fresh q)\<rparr> else q\<lparr>q_backlogged := tl (q_backlogged q)\<rparr>)"

definition to_backlog :: "nat \<Rightarrow> inner \<Rightarrow> inner" where
  "to_backlog idx q = q\<lparr>q_backlogged := q_backlogged q @ [idx]\<rparr>"

lemmas same_dests = mark_same schedule_same schedule_next_same take_head_same on_flow_same

lemma codel_drop_same: "on_ok (codel_drop idx now packet q) (\<lambda>(_, q'). same_service q q')"
proof (induction idx now packet q rule: codel_drop.induct)
  case (1 idx now packet q)
  note IH = 1
  show ?case
  proof (subst codel_drop.simps, clarsimp simp: on_ok_and_then split: option.splits, intro conjI impI allI, goal_cases)
    case (1 f m p1 q1 q')
    then show ?case by (auto dest!: same_dests simp: same_service_def)
  next
    case (2 f m p1 q1 h q2)
    then show ?case by (auto dest!: same_dests simp: same_service_def on_ok_and_then)
  next
    case 3
    then show ?case
      by (intro on_ok_mono[OF IH]; (assumption | rule refl | simp; fail)?)
        (auto dest!: same_dests simp: same_service_def)
  next
    case 4
    then show ?case
      by (intro on_ok_mono[OF IH]; (assumption | rule refl | simp; fail)?)
        (auto dest!: same_dests simp: same_service_def)
  qed
qed

lemma codel_same: "on_ok (codel idx now q) (\<lambda>(_, q'). same_service q q')"
  by (auto simp: codel_def on_ok_and_then Let_def split: option.splits if_splits dest!: same_dests
      intro!: on_ok_mono[OF codel_drop_same])
    (auto simp: same_service_def)

function dequeue :: "instant \<Rightarrow> inner \<Rightarrow> (unit, bytes option \<times> inner) outcome" where
  "dequeue now q =
     (case next_bucket q of
        None \<Rightarrow> Ok (None, q)
      | Some (idx, was_fresh) \<Rightarrow>
          and_then (index (q_flows q) idx) (\<lambda>f.
          if fl_deficit f \<le> 0 then
            dequeue now (to_backlog idx (pop_service was_fresh
              (set_flow idx (f\<lparr>fl_deficit := fl_deficit f + int QUANTUM\<rparr>) q)))
          else
            and_then (codel idx now q) (\<lambda>(packet, q).
            (case packet of
               Some packet \<Rightarrow>
                 and_then (on_flow idx (\<lambda>f. f\<lparr>fl_deficit := fl_deficit f - int (length packet)\<rparr>) q)
                   (\<lambda>q. Ok (Some packet, q))
             | None \<Rightarrow>
                 and_then (on_flow idx (\<lambda>f. f\<lparr>fl_listed := False\<rparr>) (pop_service was_fresh q))
                   (dequeue now)))))"
  by pat_completeness auto

text \<open>A bucket short of credit goes to the back with more of it; a dry one leaves the lists.\<close>

definition listed_count :: "inner \<Rightarrow> nat" where
  "listed_count q = length (q_fresh q) + length (q_backlogged q)"

definition owed :: "flow list \<Rightarrow> nat" where
  "owed flows = sum_list (map (\<lambda>f. nat (1 - fl_deficit f)) flows)"

lemma owed_topped_up:
  assumes "i < length fs" "fl_deficit (fs ! i) \<le> 0"
  shows "owed (fs[i := (fs ! i)\<lparr>fl_deficit := fl_deficit (fs ! i) + int QUANTUM\<rparr>]) < owed fs"
proof -
  let ?d = "fl_deficit (fs ! i)"
  have "nat (1 - ?d) \<le> owed fs"
    unfolding owed_def using assms(1) by (intro member_le_sum_list) auto
  moreover have "nat (1 - (?d + int QUANTUM)) < nat (1 - ?d)"
    using assms unfolding QUANTUM_def by linarith
  moreover have "owed (fs[i := (fs ! i)\<lparr>fl_deficit := ?d + int QUANTUM\<rparr>]) =
      owed fs + nat (1 - (?d + int QUANTUM)) - nat (1 - ?d)"
    using assms(1) by (simp add: owed_def map_update sum_list_update)
  ultimately show ?thesis by linarith
qed

lemma pop_service_count:
  "next_bucket q = Some (idx, was_fresh) \<Longrightarrow> listed_count (pop_service was_fresh q) + 1 = listed_count q"
  by (auto simp: next_bucket_def pop_service_def listed_count_def split: list.splits if_splits)

lemma pop_service_frame [simp]:
  "q_flows (pop_service b q) = q_flows q" "q_bytes (pop_service b q) = q_bytes q"
  "q_packets (pop_service b q) = q_packets q" "q_over_limit (pop_service b q) = q_over_limit q"
  "q_over_target (pop_service b q) = q_over_target q" "q_thinned (pop_service b q) = q_thinned q"
  "q_stale (pop_service b q) = q_stale q" "q_closed (pop_service b q) = q_closed q"
  by (simp_all add: pop_service_def)

lemma next_bucket_cong:
  "q_fresh q' = q_fresh q \<Longrightarrow> q_backlogged q' = q_backlogged q \<Longrightarrow> next_bucket q' = next_bucket q"
  by (simp add: next_bucket_def split: list.split)

termination dequeue
proof (relation "measures [\<lambda>(now, q). listed_count q, \<lambda>(now, q). owed (q_flows q)]", simp, goal_cases)
  case (1 now q r idx was_fresh f)
  let ?q = "set_flow idx (f\<lparr>fl_deficit := fl_deficit f + int QUANTUM\<rparr>) q"
  have n: "next_bucket ?q = Some (idx, was_fresh)" using 1 next_bucket_cong[of ?q q] by simp
  have "listed_count (to_backlog idx (pop_service was_fresh ?q)) = listed_count q"
    using pop_service_count[OF n] by (simp add: listed_count_def to_backlog_def)
  then show ?case using 1 owed_topped_up[of idx "q_flows q"] by (auto simp: index_eq_Ok to_backlog_def)
next
  case (2 now q r idx was_fresh f rq packet q1 q2)
  have "same_service q q1" using on_okD[OF codel_same[of idx now q]] 2 by auto
  then have "next_bucket q1 = Some (idx, was_fresh)" "listed_count q1 = listed_count q"
    using 2 next_bucket_cong[of q1 q] by (simp_all add: same_service_def listed_count_def)
  moreover have "listed_count q2 = listed_count (pop_service was_fresh q1)"
    using 2 on_flow_same[of idx _ "pop_service was_fresh q1" q2] by (auto simp: same_service_def listed_count_def)
  ultimately show ?case using pop_service_count[of q1 idx was_fresh] by simp
qed

declare dequeue.simps [simp del]

section \<open>The rest of the queue\<close>

text \<open>\<open>drop_older_than\<close>: the head of each bucket in turn; the counters of the queue are threaded
  through.\<close>

fun drop_old :: "instant \<Rightarrow> duration \<Rightarrow> queued list \<Rightarrow> queued list \<times> queued list" where
  "drop_old now age [] = ([], [])"
| "drop_old now age (head # rest) =
     (if age \<le> now - qd_at head then (case drop_old now age rest of (old, kept) \<Rightarrow> (head # old, kept))
      else ([], head # rest))"

fun uncount_all :: "nat \<Rightarrow> queued list \<Rightarrow> inner \<Rightarrow> (unit, inner) outcome" where
  "uncount_all idx [] q = Ok q"
| "uncount_all idx (old # rest) q =
     and_then (uncount idx (length (qd_packet old)) q) (uncount_all idx rest)"

fun drop_older_from :: "nat list \<Rightarrow> instant \<Rightarrow> duration \<Rightarrow> nat \<Rightarrow> inner \<Rightarrow> (unit, nat \<times> inner) outcome" where
  "drop_older_from [] now age dropped q = Ok (dropped, q)"
| "drop_older_from (idx # rest) now age dropped q =
     and_then (index (q_flows q) idx) (\<lambda>f.
       (case drop_old now age (fl_packets f) of (old, kept) \<Rightarrow>
          and_then (uncount_all idx old (set_flow idx (f\<lparr>fl_packets := kept\<rparr>) q)) (\<lambda>q.
          and_then (on_flow idx (\<lambda>f. f\<lparr>fl_above := None, fl_dropping := False\<rparr>) q) (\<lambda>q.
            drop_older_from rest now age (dropped + length old) q))))"

definition drop_older_than :: "instant \<Rightarrow> duration \<Rightarrow> inner \<Rightarrow> (unit, nat \<times> inner) outcome" where
  "drop_older_than now age q =
     and_then (drop_older_from [0..<length (q_flows q)] now age 0 q) (\<lambda>(dropped, q).
       Ok (dropped, q\<lparr>q_stale := q_stale q + dropped\<rparr>))"

definition observe_rtt :: "duration \<Rightarrow> inner \<Rightarrow> inner" where
  "observe_rtt rtt q =
     (let scaled = rtt * RTT_TO_INTERVAL;
        blended = (q_interval q * 7 + scaled) div 8;
        interval = min (max blended INTERVAL_FLOOR) INTERVAL_CEILING
      in q\<lparr>q_interval := interval, q_target := interval div TARGET_SHARE\<rparr>)"

section \<open>The shared queue\<close>

text \<open>\<open>PacketQueue\<close>: each method locks the state, so it is one step of it.\<close>

definition push :: "bytes \<Rightarrow> instant \<Rightarrow> inner \<Rightarrow> (unit, bool \<times> inner) outcome option" where
  "push packet now q =
     (if q_closed q then Some (Ok (False, q))
      else map_option (\<lambda>r. and_then r (\<lambda>q. Ok (True, q))) (enqueue packet now q))"

fun fill_batch :: "nat \<Rightarrow> instant \<Rightarrow> inner \<Rightarrow> (unit, bytes list \<times> inner) outcome" where
  "fill_batch 0 now q = Ok ([], q)"
| "fill_batch (Suc room) now q =
     and_then (dequeue now q) (\<lambda>(packet, q).
     (case packet of
        None \<Rightarrow> Ok ([], q)
      | Some packet \<Rightarrow>
          and_then (fill_batch room now q) (\<lambda>(packets, q). Ok (packet # packets, q))))"

text \<open>One turn of \<open>pop_batch\<close>: a batch, the end, or \<open>None\<close> for waiting to be told.\<close>

definition pop_batch :: "nat \<Rightarrow> instant \<Rightarrow> inner \<Rightarrow> (unit, (bool \<times> bytes list) option \<times> inner) outcome" where
  "pop_batch room now q =
     and_then (fill_batch room now q) (\<lambda>(packets, q).
       Ok (if packets \<noteq> [] then (Some (True, packets), q)
           else if q_closed q then (Some (False, []), q)
           else (None, q)))"

definition drop_stale :: "instant \<Rightarrow> inner \<Rightarrow> (unit, nat \<times> inner) outcome" where
  "drop_stale now q = drop_older_than now STALE_AFTER q"

definition close :: "inner \<Rightarrow> inner" where
  "close q = q\<lparr>q_closed := True\<rparr>"

record queue_stats =
  st_packets :: nat
  st_bytes :: nat
  st_flows :: nat
  st_over_limit :: nat
  st_over_target :: nat
  st_marked :: nat
  st_thinned :: nat
  st_stale :: nat
  st_interval :: duration
  st_worst_wait :: duration

definition stats :: "inner \<Rightarrow> queue_stats \<times> inner" where
  "stats q =
     (\<lparr>st_packets = q_packets q, st_bytes = q_bytes q,
       st_flows = length (filter (\<lambda>f. fl_packets f \<noteq> []) (q_flows q)),
       st_over_limit = q_over_limit q, st_over_target = q_over_target q, st_marked = q_marked q,
       st_thinned = q_thinned q, st_stale = q_stale q, st_interval = q_interval q,
       st_worst_wait = q_worst q\<rparr>,
      q\<lparr>q_worst := 0\<rparr>)"

end
