(* ===== verification/Queue_Correct.thy ===== *)
theory Queue_Correct
  imports Packet_Queue
begin

text \<open>
  What the queue of \<open>Packet_Queue\<close> promises: its counters agree with what it holds and its service
  lists name exactly the listed buckets, on every queue the operations can reach, so no operation can
  panic; within a bucket packets leave in the order they came; every packet that came in is delivered,
  counted as dropped, or still waiting; the byte limit holds; a fresh bucket is served first.
\<close>

section \<open>Counters that agree\<close>

abbreviation waiting :: "inner \<Rightarrow> nat \<Rightarrow> queued list" where
  "waiting q i \<equiv> fl_packets (q_flows q ! i)"

abbreviation size_of :: "queued \<Rightarrow> nat" where
  "size_of x \<equiv> length (qd_packet x)"

definition counts_ok :: "inner \<Rightarrow> bool" where
  "counts_ok q \<longleftrightarrow>
     length (q_flows q) = FLOWS \<and>
     (\<forall>f\<in>set (q_flows q). fl_bytes f = sum_list (map size_of (fl_packets f))) \<and>
     q_bytes q = sum_list (map fl_bytes (q_flows q)) \<and>
     q_packets q = sum_list (map (\<lambda>f. length (fl_packets f)) (q_flows q))"

text \<open>Every packet the queue took and has not handed over: waiting, or counted as gone.\<close>

definition accounted :: "inner \<Rightarrow> int" where
  "accounted q = int (q_packets q + q_over_limit q + q_over_target q + q_thinned q + q_stale q)"

lemma counts_flow:
  "counts_ok q \<Longrightarrow> i < FLOWS \<Longrightarrow> fl_bytes (q_flows q ! i) = sum_list (map size_of (waiting q i))"
  by (auto simp: counts_ok_def)

lemma counts_le:
  assumes "counts_ok q" "i < FLOWS"
  shows "fl_bytes (q_flows q ! i) \<le> q_bytes q" "length (waiting q i) \<le> q_packets q"
proof -
  have i: "i < length (q_flows q)" using assms by (simp add: counts_ok_def)
  have "fl_bytes (q_flows q ! i) \<le> sum_list (map fl_bytes (q_flows q))"
    using i by (intro member_le_sum_list) auto
  then show "fl_bytes (q_flows q ! i) \<le> q_bytes q" using assms by (simp add: counts_ok_def)
  have "length (waiting q i) \<le> sum_list (map (\<lambda>f. length (fl_packets f)) (q_flows q))"
    using i by (intro member_le_sum_list) auto
  then show "length (waiting q i) \<le> q_packets q" using assms by (simp add: counts_ok_def)
qed

lemma counts_set_flow:
  assumes "counts_ok q" "i < FLOWS"
    and "fl_bytes g + b = fl_bytes (q_flows q ! i) + a"
    and "length (fl_packets g) + d = length (waiting q i) + c"
    and "fl_bytes g = sum_list (map size_of (fl_packets g))"
    and "bytes + b = q_bytes q + a" "packets + d = q_packets q + c"
  shows "counts_ok ((set_flow i g q)\<lparr>q_bytes := bytes, q_packets := packets\<rparr>)"
proof -
  have i: "i < length (q_flows q)" using assms by (simp add: counts_ok_def)
  have le: "fl_bytes (q_flows q ! i) \<le> q_bytes q" "length (waiting q i) \<le> q_packets q"
    using counts_le[OF assms(1,2)] .
  have "sum_list (map fl_bytes ((q_flows q)[i := g])) = q_bytes q + fl_bytes g - fl_bytes (q_flows q ! i)"
    using i assms(1) by (simp add: map_update sum_list_update counts_ok_def)
  moreover have "sum_list (map (\<lambda>f. length (fl_packets f)) ((q_flows q)[i := g])) =
      q_packets q + length (fl_packets g) - length (waiting q i)"
    using i assms(1) by (simp add: map_update sum_list_update counts_ok_def)
  ultimately show ?thesis
    using assms le set_update_subset_insert[of "q_flows q" i g]
    by (auto simp: counts_ok_def)
qed

lemma counts_same:
  assumes "counts_ok q" "i < FLOWS" "fl_packets g = waiting q i" "fl_bytes g = fl_bytes (q_flows q ! i)"
  shows "counts_ok (set_flow i g q)"
proof -
  have "counts_ok ((set_flow i g q)\<lparr>q_bytes := q_bytes q, q_packets := q_packets q\<rparr>)"
    using assms counts_flow[OF assms(1,2)]
    by (intro counts_set_flow[where a = 0 and b = 0 and c = 0 and d = 0]) simp_all
  then show ?thesis by (simp add: set_flow_def)
qed

lemma sum_remove:
  fixes g :: "'a \<Rightarrow> nat"
  assumes "k < length xs"
  shows "sum_list (map g xs) = g (xs ! k) + sum_list (map g (take k xs @ drop (Suc k) xs))"
  by (subst id_take_nth_drop[OF assms]) simp

text \<open>One packet taken out of one bucket.\<close>

lemma uncount_at:
  assumes "counts_ok q" "i < FLOWS" "k < length (waiting q i)" "x = waiting q i ! k"
    and "fl_packets g = take k (waiting q i) @ drop (Suc k) (waiting q i)"
    and "fl_bytes g = fl_bytes (q_flows q ! i)"
  defines "q' \<equiv> (set_flow i (g\<lparr>fl_bytes := fl_bytes g - size_of x\<rparr>) q)
      \<lparr>q_bytes := q_bytes q - size_of x, q_packets := q_packets q - 1\<rparr>"
  shows "uncount i (size_of x) (set_flow i g q) = Ok q'" "counts_ok q'" "accounted q' + 1 = accounted q"
proof -
  have len: "length (q_flows q) = FLOWS" using assms(1) by (simp add: counts_ok_def)
  have b: "fl_bytes (q_flows q ! i) = size_of x + sum_list (map size_of (fl_packets g))"
    using counts_flow[OF assms(1,2)] sum_remove[OF assms(3), of size_of] assms(4,5) by simp
  have le: "size_of x \<le> fl_bytes g" "size_of x \<le> q_bytes q" "1 \<le> q_packets q"
    using b assms(3,6) counts_le[OF assms(1,2)] by auto
  then show "uncount i (size_of x) (set_flow i g q) = Ok q'"
    using assms(2) len by (simp add: uncount_def out_simps q'_def set_flow_def)
  have "length (fl_packets g) + 1 = length (waiting q i)" using assms(3,5) by simp
  then show "counts_ok q'" unfolding q'_def
    using assms(1,2,6) b le
    by (intro counts_set_flow[where a = 0 and b = "size_of x" and c = 0 and d = 1]) auto
  show "accounted q' + 1 = accounted q" using le(3) by (simp add: accounted_def q'_def)
qed

section \<open>One bucket served\<close>

text \<open>What one bucket's service does: packets leave from its front, every other bucket and the service
  lists stay, and \<open>n\<close> packets are in the caller's hands that were accounted for before.\<close>

definition serves :: "nat \<Rightarrow> queued list \<Rightarrow> int \<Rightarrow> inner \<Rightarrow> inner \<Rightarrow> bool" where
  "serves i ds n q q' \<longleftrightarrow>
     counts_ok q' \<and> q_fresh q' = q_fresh q \<and> q_backlogged q' = q_backlogged q \<and>
     q_closed q' = q_closed q \<and> q_interval q' = q_interval q \<and> q_target q' = q_target q \<and>
     (\<forall>j<FLOWS. fl_listed (q_flows q' ! j) = fl_listed (q_flows q ! j) \<and>
        fl_deficit (q_flows q' ! j) = fl_deficit (q_flows q ! j) \<and>
        (j \<noteq> i \<longrightarrow> q_flows q' ! j = q_flows q ! j)) \<and>
     waiting q i = ds @ waiting q' i \<and>
     accounted q' + n = accounted q"

lemma serves_refl: "counts_ok q \<Longrightarrow> serves i [] 0 q q"
  by (simp add: serves_def)

lemma serves_trans: "serves i ds n q q' \<Longrightarrow> serves i es m q' q'' \<Longrightarrow> serves i (ds @ es) (n + m) q q''"
  by (auto simp: serves_def)

lemma serves_counts: "serves i ds n q q' \<Longrightarrow> counts_ok q'"
  by (simp add: serves_def)

lemma counts_length: "counts_ok q \<Longrightarrow> length (q_flows q) = FLOWS"
  by (simp add: counts_ok_def)

text \<open>A change of a bucket that is not about its packets.\<close>

lemma serves_set_flow:
  assumes "counts_ok q" "i < FLOWS" "fl_packets g = waiting q i" "fl_bytes g = fl_bytes (q_flows q ! i)"
    and "fl_listed g = fl_listed (q_flows q ! i)" "fl_deficit g = fl_deficit (q_flows q ! i)"
  shows "serves i [] 0 q (set_flow i g q)"
  using assms counts_same[OF assms(1-4)] counts_length[OF assms(1)]
  by (auto simp: serves_def accounted_def nth_list_update)

lemma schedule_serves:
  assumes "counts_ok q" "i < FLOWS"
  shows "yields (schedule i start q) (serves i [] 0 q)"
  using assms counts_length[OF assms(1)]
  by (simp add: schedule_def on_flow_def out_simps serves_set_flow)

lemma schedule_next_serves:
  assumes "counts_ok q" "i < FLOWS"
  shows "yields (schedule_next i now q) (serves i [] 0 q)"
  using assms counts_length[OF assms(1)] schedule_serves
  by (simp add: schedule_next_def out_simps)

lemma take_head_empty:
  assumes "counts_ok q" "i < FLOWS" "waiting q i = []"
  shows "take_head i now q = Ok (None, q)"
  using assms counts_length[OF assms(1)] by (simp add: take_head_def pop_front_def out_simps)

lemma take_head_serves:
  assumes "counts_ok q" "i < FLOWS" "waiting q i = x # rest"
  shows "yields (take_head i now q) (\<lambda>(r, q'). serves i [x] 1 q q' \<and>
    (\<exists>overdue. r = Some (qd_packet x, overdue) \<and>
      (overdue \<longrightarrow> q_target q \<le> now - qd_at x \<and> QUANTUM < sum_list (map size_of rest))) \<and>
    q_marked q' = q_marked q \<and> fl_dropping (q_flows q' ! i) = fl_dropping (q_flows q ! i))"
proof -
  define g where "g = (q_flows q ! i)\<lparr>fl_packets := rest\<rparr>"
  define q1 where "q1 = (set_flow i (g\<lparr>fl_bytes := fl_bytes g - size_of x\<rparr>) q)
      \<lparr>q_bytes := q_bytes q - size_of x, q_packets := q_packets q - 1\<rparr>"
  have len: "length (q_flows q) = FLOWS" by (rule counts_length[OF assms(1)])
  have pre: "0 < length (waiting q i)" "x = waiting q i ! 0"
    "fl_packets g = take 0 (waiting q i) @ drop (Suc 0) (waiting q i)" "fl_bytes g = fl_bytes (q_flows q ! i)"
    by (simp_all add: assms(3) g_def)
  have u: "uncount i (size_of x) (set_flow i g q) = Ok q1" "counts_ok q1" "accounted q1 + 1 = accounted q"
    unfolding q1_def using uncount_at[of q i 0 x g, OF assms(1,2) pre] by blast+
  have w1: "waiting q1 i = rest" using assms(2) len by (simp add: q1_def g_def)
  have b1: "fl_bytes (q_flows q1 ! i) = sum_list (map size_of rest)"
    using counts_flow[OF u(2) assms(2)] w1 by simp
  have c1: "counts_ok (q1\<lparr>q_worst := w\<rparr>)" for w using u(2) by (simp add: counts_ok_def)
  have a1: "accounted (q1\<lparr>q_worst := w\<rparr>) + 1 = accounted q" for w using u(3) by (simp add: accounted_def)
  have f1: "q_flows q1 = (q_flows q)[i := g\<lparr>fl_bytes := fl_bytes g - size_of x\<rparr>]" by (simp add: q1_def)
  have s1: "serves i [x] 1 q (q1\<lparr>q_worst := w\<rparr>)" for w
    unfolding serves_def using c1 a1 assms(2,3) len
    by (simp add: f1 g_def) (simp add: q1_def nth_list_update)
  have set: "serves i [x] 1 q (set_flow i ((q_flows q1 ! i)\<lparr>fl_above := a\<rparr>) (q1\<lparr>q_worst := w\<rparr>))" for a w
    using serves_trans[OF s1 serves_set_flow[OF c1 assms(2)]] by simp
  have t: "q_target q1 = q_target q" "length (q_flows q1) = FLOWS" "q_marked q1 = q_marked q"
    "fl_dropping (q_flows q1 ! i) = fl_dropping (q_flows q ! i)"
    using len assms(2) by (simp_all add: q1_def g_def)
  define q2 where "q2 = q1\<lparr>q_worst := max (q_worst q1) (now - qd_at x)\<rparr>"
  have pop: "pop_front i q = Ok (Some x, set_flow i g q)"
    using assms len by (simp add: pop_front_def out_simps g_def)
  have eq: "take_head i now q =
      (if \<not> (q_target q \<le> now - qd_at x \<and> QUANTUM < sum_list (map size_of rest)) then
         Ok (Some (qd_packet x, False), set_flow i ((q_flows q1 ! i)\<lparr>fl_above := None\<rparr>) q2)
       else (case fl_above (q_flows q1 ! i) of
          None \<Rightarrow> Ok (Some (qd_packet x, False),
            set_flow i ((q_flows q1 ! i)\<lparr>fl_above := Some (now + q_interval q2)\<rparr>) q2)
        | Some since \<Rightarrow> Ok (Some (qd_packet x, since \<le> now), q2)))"
    using pop u(1) t assms(2) b1 by (simp add: take_head_def Let_def q2_def out_simps split: option.split)
  show ?thesis
  proof (cases "q_target q \<le> now - qd_at x \<and> QUANTUM < sum_list (map size_of rest)")
    case False
    then have "take_head i now q =
        Ok (Some (qd_packet x, False), set_flow i ((q_flows q1 ! i)\<lparr>fl_above := None\<rparr>) q2)"
      unfolding eq by argo
    then show ?thesis using set t len assms(2) by (auto simp: q2_def)
  next
    case True
    then show ?thesis using set s1 t len assms(2) eq by (cases "fl_above (q_flows q1 ! i)") (auto simp: q2_def)
  qed
qed

definition sent_as :: "bytes \<Rightarrow> bytes \<Rightarrow> bool" where
  "sent_as x p \<longleftrightarrow> p = x \<or> mark_congestion x = Ok (True, p)"

lemma mark_serves:
  assumes "counts_ok q"
  shows "yields (mark packet q) (\<lambda>(m, p, q'). serves i [] 0 q q' \<and> sent_as packet p \<and> (m \<or> p = packet) \<and>
    q_flows q' = q_flows q)"
proof -
  obtain m p where mp: "mark_congestion packet = Ok (m, p)" "m \<or> p = packet"
    using mark_congestion_total[of packet] by blast
  have "serves i [] 0 q (q\<lparr>q_marked := k\<rparr>)" for k
    using assms by (simp add: serves_def counts_ok_def accounted_def)
  then show ?thesis using mp serves_refl[OF assms] by (auto simp: mark_def sent_as_def)
qed

text \<open>A drop that CoDel counts.\<close>

lemma over_target_serves:
  "counts_ok q \<Longrightarrow> serves i [] (- 1) q (q\<lparr>q_over_target := q_over_target q + 1\<rparr>)"
  by (simp add: serves_def counts_ok_def accounted_def)

lemma codel_drop_serves:
  "counts_ok q \<Longrightarrow> i < FLOWS \<Longrightarrow>
     yields (codel_drop i now packet q) (\<lambda>(r, q'). \<exists>ds.
       (case r of
          None \<Rightarrow> serves i ds (- 1) q q' \<and> waiting q' i = []
        | Some p \<Rightarrow> serves i ds 0 q q' \<and> sent_as (last (packet # map qd_packet ds)) p))"
proof (induction i now packet q rule: codel_drop.induct)
  case (1 i now packet q)
  note q = 1(2) note i = 1(3)
  have len: "length (q_flows q) = FLOWS" by (rule counts_length[OF q])
  define f where "f = q_flows q ! i"
  have ix: "(index (q_flows q) i :: (unit, flow) outcome) = Ok f" using i len by (simp add: index_def f_def)
  show ?case
  proof (cases "fl_dropping f \<and> due f now")
    case False
    then show ?thesis using serves_refl[OF q] ix
      by (subst codel_drop.simps) (force simp: sent_as_def yields_and_then)
  next
    case True
    define q0 where "q0 = set_flow i (f\<lparr>fl_count := fl_count f + 1\<rparr>) q"
    have s0: "serves i [] 0 q q0" unfolding q0_def using q i by (intro serves_set_flow) (simp_all add: f_def)
    obtain m p1 q1 where m: "mark packet q0 = Ok (m, p1, q1)" "serves i [] 0 q0 q1"
        "sent_as packet p1" "m \<or> p1 = packet"
      using mark_serves[OF serves_counts[OF s0], of packet i] by (auto elim!: yieldsE)
    have s1: "serves i [] 0 q q1" using serves_trans[OF s0 m(2)] by simp
    note q1 = serves_counts[OF s1]
    show ?thesis
    proof (cases m)
      case True
      obtain q2 where q2: "schedule_next i now q1 = Ok q2" "serves i [] 0 q1 q2"
        using schedule_next_serves[OF q1 i, of now] by (auto elim!: yieldsE)
      have "serves i [] 0 q q2" using serves_trans[OF s1 q2(2)] by simp
      then show ?thesis using True m q2 ix \<open>fl_dropping f \<and> due f now\<close>
        by (subst codel_drop.simps) (force simp: yields_and_then q0_def[symmetric])
    next
      case False
      define q2 where "q2 = q1\<lparr>q_over_target := q_over_target q1 + 1\<rparr>"
      have s2: "serves i [] (- 1) q q2"
        using serves_trans[OF s1 over_target_serves[OF q1]] by (simp add: q2_def)
      note q2 = serves_counts[OF s2]
      show ?thesis
      proof (cases "waiting q2 i")
        case Nil
        note t = take_head_empty[OF q2 i Nil, of now]
        have s3: "serves i [] 0 q2 (set_flow i ((q_flows q2 ! i)\<lparr>fl_dropping := False\<rparr>) q2)"
          using q2 i by (intro serves_set_flow) simp_all
        have "serves i [] (- 1) q (set_flow i ((q_flows q2 ! i)\<lparr>fl_dropping := False\<rparr>) q2)"
          using serves_trans[OF s2 s3] by simp
        then show ?thesis using False m t ix \<open>fl_dropping f \<and> due f now\<close> Nil i counts_length[OF q2]
          by (subst codel_drop.simps)
            (auto simp: yields_and_then q0_def[symmetric] q2_def[symmetric] on_flow_def out_simps
              simp del: One_nat_def intro!: exI[of _ "[]"])
      next
        case (Cons x rest)
        obtain o' q3 where t: "take_head i now q2 = Ok (Some (qd_packet x, o'), q3)" "serves i [x] 1 q2 q3"
          using take_head_serves[OF q2 i Cons, of now] by (auto elim!: yieldsE)
        have s3: "serves i [x] 0 q q3" using serves_trans[OF s2 t(2)] by simp
        note q3 = serves_counts[OF s3]
        have "yields (if o' then schedule_next i now q3 else on_flow i (\<lambda>f. f\<lparr>fl_dropping := False\<rparr>) q3)
            (serves i [] 0 q3)"
          using schedule_next_serves[OF q3 i] serves_set_flow[OF q3 i] counts_length[OF q3] i
          by (simp add: on_flow_def out_simps)
        then obtain q4 where q4: "(if o' then schedule_next i now q3
            else on_flow i (\<lambda>f. f\<lparr>fl_dropping := False\<rparr>) q3) = Ok q4" "serves i [] 0 q3 q4"
          by (auto elim!: yieldsE)
        have s4: "serves i [x] 0 q q4" using serves_trans[OF s3 q4(2)] by simp
        have IH: "yields (codel_drop i now (qd_packet x) q4) (\<lambda>(r, q'). \<exists>ds.
           (case r of
              None \<Rightarrow> serves i ds (- 1) q4 q' \<and> waiting q' i = []
            | Some p \<Rightarrow> serves i ds 0 q4 q' \<and> sent_as (last (qd_packet x # map qd_packet ds)) p))"
          using 1(1)[OF ix True m(1)[unfolded q0_def] refl refl False t(1)[unfolded q2_def] refl refl refl q4(1)
              serves_counts[OF s4] i] .
        have eq: "codel_drop i now packet q = codel_drop i now (qd_packet x) q4"
          using False m t ix \<open>fl_dropping f \<and> due f now\<close> q4
          by (subst codel_drop.simps) (simp add: q0_def[symmetric] q2_def[symmetric] del: One_nat_def)
        obtain r q' ds where r: "codel_drop i now packet q = Ok (r, q')"
          "case r of None \<Rightarrow> serves i ds (- 1) q4 q' \<and> waiting q' i = []
           | Some p \<Rightarrow> serves i ds 0 q4 q' \<and> sent_as (last (qd_packet x # map qd_packet ds)) p"
          using IH unfolding eq by (auto elim!: yieldsE)
        show ?thesis
        proof (cases r)
          case None
          then show ?thesis using r serves_trans[OF s4, of ds "- 1" q'] by (auto intro!: exI[of _ "x # ds"])
        next
          case (Some p)
          then show ?thesis using r serves_trans[OF s4, of ds 0 q'] by (auto intro!: exI[of _ "x # ds"])
        qed
      qed
    qed
  qed
qed

text \<open>One turn of CoDel on a bucket: nothing comes out only when the bucket has run dry, and what comes
  out is the last packet taken from its front, as it was or marked; those before it were dropped and
  counted.\<close>

lemma codel_serves:
  assumes q: "counts_ok q" and i: "i < FLOWS"
  shows "yields (codel i now q) (\<lambda>(r, q'). \<exists>ds.
    (case r of
       None \<Rightarrow> serves i ds 0 q q' \<and> waiting q' i = []
     | Some p \<Rightarrow> serves i ds 1 q q' \<and> ds \<noteq> [] \<and> sent_as (qd_packet (last ds)) p))"
proof (cases "waiting q i")
  case Nil
  then show ?thesis using take_head_empty[OF q i Nil] serves_refl[OF q] by (force simp: codel_def)
next
  case (Cons x rest)
  obtain overdue q1 where t: "take_head i now q = Ok (Some (qd_packet x, overdue), q1)" "serves i [x] 1 q q1"
    using take_head_serves[OF q i Cons, of now] by (auto elim!: yieldsE)
  note q1 = serves_counts[OF t(2)]
  define f where "f = q_flows q1 ! i"
  have ix: "(index (q_flows q1) i :: (unit, flow) outcome) = Ok f" using i counts_length[OF q1] by (simp add: index_def f_def)
  show ?thesis
  proof (cases "fl_dropping f")
    case True
    show ?thesis
    proof (cases overdue)
      case False
      have "serves i [x] 1 q (set_flow i (f\<lparr>fl_dropping := False\<rparr>) q1)"
        using serves_trans[OF t(2) serves_set_flow[OF q1 i]] by (simp add: f_def)
      then show ?thesis using True False t ix
        by (auto simp: codel_def sent_as_def intro!: exI[of _ "[x]"])
    next
      case over: True
      have eq: "codel i now q = codel_drop i now (qd_packet x) q1"
        using True over t ix by (simp add: codel_def)
      obtain r q' ds where r: "codel i now q = Ok (r, q')"
          "case r of None \<Rightarrow> serves i ds (- 1) q1 q' \<and> waiting q' i = []
           | Some p \<Rightarrow> serves i ds 0 q1 q' \<and> sent_as (last (qd_packet x # map qd_packet ds)) p"
        using codel_drop_serves[OF q1 i, of now "qd_packet x"] unfolding eq by (auto elim!: yieldsE)
      show ?thesis
      proof (cases r)
        case None
        then show ?thesis using r serves_trans[OF t(2), of ds "- 1" q'] by (auto intro!: exI[of _ "x # ds"])
      next
        case (Some p)
        then show ?thesis using r serves_trans[OF t(2), of ds 0 q']
          by (auto simp: last_map intro!: exI[of _ "x # ds"])
      qed
    qed
  next
    case False
    show ?thesis
    proof (cases overdue)
      case over: False
      then show ?thesis using False t ix
        by (auto simp: codel_def sent_as_def intro!: exI[of _ "[x]"])
    next
      case over: True
      obtain m p1 q2 where m: "mark (qd_packet x) q1 = Ok (m, p1, q2)" "serves i [] 0 q1 q2"
          "sent_as (qd_packet x) p1" "m \<or> p1 = qd_packet x"
        using mark_serves[OF q1, of "qd_packet x" i] by (auto elim!: yieldsE)
      have s2: "serves i [x] 1 q q2" using serves_trans[OF t(2) m(2)] by simp
      define q2' where "q2' = q2\<lparr>q_over_target := q_over_target q2 + 1\<rparr>"
      have s2': "serves i [x] 0 q q2'"
        using serves_trans[OF s2 over_target_serves[OF serves_counts[OF s2]]] by (simp add: q2'_def)
      have "yields (if m then Ok (None, q2) else take_head i now q2') (\<lambda>(n, q3).
          if m then n = None \<and> q3 = q2
          else case n of
            None \<Rightarrow> serves i [x] 0 q q3 \<and> waiting q3 i = []
          | Some (p, _) \<Rightarrow> \<exists>y. serves i [x, y] 1 q q3 \<and> p = qd_packet y)"
      proof (cases m)
        case False
        note q2' = serves_counts[OF s2']
        show ?thesis
        proof (cases "waiting q2' i")
          case Nil
          then show ?thesis using False take_head_empty[OF q2' i Nil] s2' by simp
        next
          case (Cons y ys)
          obtain o' q3 where "take_head i now q2' = Ok (Some (qd_packet y, o'), q3)" "serves i [y] 1 q2' q3"
            using take_head_serves[OF q2' i Cons, of now] by (auto elim!: yieldsE)
          then show ?thesis using False serves_trans[OF s2', of "[y]" 1 q3] by auto
        qed
      qed simp
      then obtain n q3 where n: "(if m then Ok (None, q2) else take_head i now q2') = Ok (n, q3)"
        and post: "if m then n = None \<and> q3 = q2
          else case n of
            None \<Rightarrow> serves i [x] 0 q q3 \<and> waiting q3 i = []
          | Some (p, _) \<Rightarrow> \<exists>y. serves i [x, y] 1 q q3 \<and> p = qd_packet y"
        by (auto elim!: yieldsE)
      obtain ds k where s3: "serves i ds k q q3" using post s2 by (auto split: if_splits option.splits)
      note q3 = serves_counts[OF s3]
      define g where "g = q_flows q3 ! i"
      have gx: "(index (q_flows q3) i :: (unit, flow) outcome) = Ok g" using i counts_length[OF q3] by (simp add: index_def g_def)
      define c where "c = (if 2 < fl_count g \<and> (case fl_next g of
          Some prev \<Rightarrow> now - prev < 16 * q_interval q3 | None \<Rightarrow> False) then fl_count g - 2 else 1)"
      define q4 where "q4 = set_flow i (g\<lparr>fl_count := c, fl_dropping := True\<rparr>) q3"
      have s4: "serves i [] 0 q3 q4" unfolding q4_def using q3 i
        by (intro serves_set_flow) (simp_all add: g_def)
      obtain q5 where q5: "schedule i now q4 = Ok q5" "serves i [] 0 q4 q5"
        using schedule_serves[OF serves_counts[OF s4] i, of now] by (auto elim!: yieldsE)
      have s5: "serves i [] 0 q3 q5" using serves_trans[OF s4 q5(2)] by simp
      have eq: "codel i now q = Ok (if m then Some p1 else map_option fst n, q5)"
        using False over t ix m n gx q5(1)[unfolded q4_def c_def]
        by (cases m) (auto simp: codel_def Let_def q2'_def[symmetric] simp del: One_nat_def)
      have w5: "waiting q5 i = waiting q3 i" using s5 by (simp add: serves_def)
      show ?thesis
      proof (cases m)
        case True
        then have "serves i [x] 1 q q5" using post serves_trans[OF s2, of "[]" 0 q5] s5 by simp
        then show ?thesis using True m eq by (auto intro!: exI[of _ "[x]"])
      next
        case False
        then show ?thesis
        proof (cases n)
          case None
          then have "serves i [x] 0 q q5" using False post serves_trans[of i "[x]" 0 q q3, OF _ s5] by simp
          then show ?thesis using False None post eq w5 by (auto intro!: exI[of _ "[x]"])
        next
          case (Some po)
          then obtain y where "serves i [x, y] 1 q q3" "fst po = qd_packet y"
            using False post by (cases po) auto
          then show ?thesis using False Some eq serves_trans[of i "[x, y]" 1 q q3, OF _ s5]
            by (auto simp: sent_as_def intro!: exI[of _ "[x, y]"])
        qed
      qed
    qed
  qed
qed

end
