(* ===== verification/Queue_Arrival.thy ===== *)
theory Queue_Arrival
  imports Queue_Correct
begin

text \<open>
  The arrival side of the queue of \<open>Packet_Queue\<close>: making room, thinning of acknowledgements, filing.
  Each is a shedding of packets, bucket by bucket, that keeps the counters in agreement and accounts
  for every packet it lets go of; making room sheds from the front of a bucket, so it ends; thinning
  takes exactly the acknowledgements a newer one covers, all but the newest of them.
\<close>

section \<open>Shedding\<close>

text \<open>An operation that only lets go of packets: what is left of each bucket is related by \<open>R\<close> to what
  it held, and the loss is counted.\<close>

definition sheds :: "(queued list \<Rightarrow> queued list \<Rightarrow> bool) \<Rightarrow> inner \<Rightarrow> inner \<Rightarrow> bool" where
  "sheds R q q' \<longleftrightarrow>
     counts_ok q' \<and> q_fresh q' = q_fresh q \<and> q_backlogged q' = q_backlogged q \<and>
     q_closed q' = q_closed q \<and> q_interval q' = q_interval q \<and> q_target q' = q_target q \<and>
     (\<forall>j<FLOWS. fl_listed (q_flows q' ! j) = fl_listed (q_flows q ! j) \<and>
        fl_deficit (q_flows q' ! j) = fl_deficit (q_flows q ! j) \<and>
        R (waiting q' j) (waiting q j)) \<and>
     accounted q' = accounted q"

lemma sheds_refl: "counts_ok q \<Longrightarrow> (\<And>xs. R xs xs) \<Longrightarrow> sheds R q q"
  by (simp add: sheds_def)

lemma sheds_trans:
  assumes "sheds R q q'" "sheds R q' q''" "\<And>xs ys zs. R xs ys \<Longrightarrow> R ys zs \<Longrightarrow> R xs zs"
  shows "sheds R q q''"
proof -
  have "R (waiting q'' j) (waiting q j)" if "j < FLOWS" for j
    using assms(3)[of "waiting q'' j" "waiting q' j" "waiting q j"] assms(1,2) that by (simp add: sheds_def)
  then show ?thesis using assms(1,2) by (simp add: sheds_def)
qed

lemma sheds_mono: "sheds R q q' \<Longrightarrow> (\<And>xs ys. R xs ys \<Longrightarrow> S xs ys) \<Longrightarrow> sheds S q q'"
  by (simp add: sheds_def)

lemma sheds_counts: "sheds R q q' \<Longrightarrow> counts_ok q'"
  by (simp add: sheds_def)

lemma suffix_subseq: "suffix xs ys \<Longrightarrow> subseq xs ys"
  by (auto simp: suffix_def intro: list_emb_append2)

text \<open>A step of one of the loss counters.\<close>

definition tallies :: "(inner \<Rightarrow> inner) \<Rightarrow> bool" where
  "tallies upd \<longleftrightarrow> (\<forall>q. q_flows (upd q) = q_flows q \<and> q_bytes (upd q) = q_bytes q \<and>
     q_packets (upd q) = q_packets q \<and> q_fresh (upd q) = q_fresh q \<and>
     q_backlogged (upd q) = q_backlogged q \<and> q_closed (upd q) = q_closed q \<and>
     q_interval (upd q) = q_interval q \<and> q_target (upd q) = q_target q \<and>
     accounted (upd q) = accounted q + 1)"

lemma tallies_over_limit: "tallies (\<lambda>q. q\<lparr>q_over_limit := q_over_limit q + 1\<rparr>)"
  and tallies_thinned: "tallies (\<lambda>q. q\<lparr>q_thinned := q_thinned q + 1\<rparr>)"
  and tallies_stale: "tallies (\<lambda>q. q\<lparr>q_stale := q_stale q + 1\<rparr>)"
  by (simp_all add: tallies_def accounted_def)

lemma uncount_sheds:
  assumes q: "counts_ok q" and i: "i < FLOWS" and k: "k < length (waiting q i)" "x = waiting q i ! k"
    and left: "left = take k (waiting q i) @ drop (Suc k) (waiting q i)"
    and R: "\<forall>xs. R xs xs" "R left (waiting q i)" and upd: "tallies upd"
  obtains q' where "uncount i (size_of x) (set_flow i ((q_flows q ! i)\<lparr>fl_packets := left\<rparr>) q) = Ok q'"
    "sheds R q (upd q')" "q_packets (upd q') + 1 = q_packets q" "q_bytes (upd q') \<le> q_bytes q"
    "waiting (upd q') i = left" "\<forall>j<FLOWS. j \<noteq> i \<longrightarrow> q_flows (upd q') ! j = q_flows q ! j"
proof -
  have len: "length (q_flows q) = FLOWS" by (rule counts_length[OF q])
  define g where "g = (q_flows q ! i)\<lparr>fl_packets := left\<rparr>"
  have g: "fl_packets g = take k (waiting q i) @ drop (Suc k) (waiting q i)"
    "fl_bytes g = fl_bytes (q_flows q ! i)" by (simp_all add: g_def left)
  note u = uncount_at[OF q i k g]
  define q1 where "q1 = (set_flow i (g\<lparr>fl_bytes := fl_bytes g - size_of x\<rparr>) q)
      \<lparr>q_bytes := q_bytes q - size_of x, q_packets := q_packets q - 1\<rparr>"
  note u = u[folded q1_def]
  have upd: "q_flows (upd q1) = q_flows q1" "q_bytes (upd q1) = q_bytes q1"
     "q_packets (upd q1) = q_packets q1" "q_fresh (upd q1) = q_fresh q" "q_backlogged (upd q1) = q_backlogged q"
     "q_closed (upd q1) = q_closed q" "q_interval (upd q1) = q_interval q" "q_target (upd q1) = q_target q"
     "accounted (upd q1) = accounted q"
    using upd u(3) by (simp_all add: tallies_def q1_def)
  have c: "counts_ok (upd q1)" using u(2) upd by (simp add: counts_ok_def)
  have pos: "1 \<le> q_packets q" using counts_le(2)[OF q i] k by simp
  have fj: "\<forall>j<FLOWS. j \<noteq> i \<longrightarrow> q_flows (upd q1) ! j = q_flows q ! j" using upd(1) by (simp add: q1_def)
  have fi: "q_flows (upd q1) ! i = g\<lparr>fl_bytes := fl_bytes g - size_of x\<rparr>"
    using i upd(1) len by (simp add: q1_def)
  have "sheds R q (upd q1)" unfolding sheds_def
  proof (intro conjI allI impI)
    fix j assume j: "j < FLOWS"
    show "fl_listed (q_flows (upd q1) ! j) = fl_listed (q_flows q ! j)"
      "fl_deficit (q_flows (upd q1) ! j) = fl_deficit (q_flows q ! j)"
      "R (waiting (upd q1) j) (waiting q j)"
      using fi fj j R by (cases "j = i"; simp add: g_def)+
  qed (use c upd in simp_all)
  then show ?thesis using that[of q1] u(1) fi fj pos upd by (simp add: g_def q1_def)
qed

section \<open>Making room\<close>

lemma fattest_Some:
  assumes "fattest flows = Some (i, b)"
  shows "i < length flows" "b = fl_bytes (flows ! i)" "0 < b" "\<forall>f\<in>set flows. fl_bytes f \<le> b"
proof -
  let ?le = "\<lambda>x y :: nat \<times> nat. snd x \<le> snd y"
  have m: "max_by ?le (enumerate 0 (map fl_bytes flows)) = Some (i, b)" and pos: "0 < b"
    using assms by (auto simp: fattest_def bind_eq_Some_conv split: if_splits)
  have mem: "(i, b) \<in> set (enumerate 0 (map fl_bytes flows))"
    and top: "\<forall>y\<in>set (enumerate 0 (map fl_bytes flows)). snd y \<le> b"
    using max_by_Some[OF m] by (simp_all add: linear)
  show "i < length flows" "b = fl_bytes (flows ! i)" using mem by (auto simp: in_set_enumerate_eq)
  show "0 < b" by (rule pos)
  show "\<forall>f\<in>set flows. fl_bytes f \<le> b"
  proof
    fix f assume "f \<in> set flows"
    then obtain k where "k < length flows" "flows ! k = f" by (auto simp: in_set_conv_nth)
    then have "(k, fl_bytes f) \<in> set (enumerate 0 (map fl_bytes flows))" by (auto simp: in_set_enumerate_eq)
    then show "fl_bytes f \<le> b" using top by fastforce
  qed
qed

lemma fattest_None:
  assumes "fattest flows = None" "flows \<noteq> []"
  shows "\<forall>f\<in>set flows. fl_bytes f = 0"
proof -
  let ?e = "enumerate 0 (map fl_bytes flows)"
  obtain m where m: "max_by (\<lambda>x y :: nat \<times> nat. snd x \<le> snd y) ?e = Some m"
    using assms(2) by (cases "max_by (\<lambda>x y :: nat \<times> nat. snd x \<le> snd y) ?e") (auto simp: enumerate_eq_zip)
  have "snd m = 0" using assms(1) m by (auto simp: fattest_def split: if_splits prod.splits)
  moreover have "\<forall>y\<in>set ?e. snd y \<le> snd m" using max_by_Some(2)[OF m] by (simp add: linear)
  ultimately have zero: "snd y = 0" if "y \<in> set ?e" for y using that by simp
  show ?thesis
  proof
    fix f assume "f \<in> set flows"
    then obtain k where "k < length flows" "flows ! k = f" by (auto simp: in_set_conv_nth)
    then have "(k, fl_bytes f) \<in> set ?e" by (auto simp: in_set_enumerate_eq)
    then show "fl_bytes f = 0" using zero by fastforce
  qed
qed

lemma drop_fattest_sheds:
  assumes q: "counts_ok q"
  shows "yields (drop_fattest q) (\<lambda>(dropped, q').
    if dropped then sheds suffix q q' \<and> q_packets q' < q_packets q \<and> q_bytes q' \<le> q_bytes q
    else q' = q \<and> q_bytes q = 0)"
proof (cases "fattest (q_flows q)")
  case None
  have "q_flows q \<noteq> []" using counts_length[OF q] by (auto simp: FLOWS_def)
  then have "\<forall>f\<in>set (q_flows q). fl_bytes f = 0" by (rule fattest_None[OF None])
  then have "q_bytes q = 0" using q by (simp add: counts_ok_def sum_list_eq_0_iff)
  then show ?thesis using None by (simp add: drop_fattest_def)
next
  case (Some ib)
  obtain i b where ib: "ib = (i, b)" by fastforce
  note f = fattest_Some[OF Some[unfolded ib]]
  have i: "i < FLOWS" using f counts_length[OF q] by simp
  obtain x rest where w: "waiting q i = x # rest"
    using f counts_flow[OF q i] by (cases "waiting q i") auto
  have pop: "pop_front i q = Ok (Some x, set_flow i ((q_flows q ! i)\<lparr>fl_packets := rest\<rparr>) q)"
    using w i counts_length[OF q] by (simp add: pop_front_def out_simps)
  obtain q1 where q1: "uncount i (size_of x) (set_flow i ((q_flows q ! i)\<lparr>fl_packets := rest\<rparr>) q) = Ok q1"
      "sheds suffix q (q1\<lparr>q_over_limit := q_over_limit q1 + 1\<rparr>)"
      "q_packets (q1\<lparr>q_over_limit := q_over_limit q1 + 1\<rparr>) + 1 = q_packets q"
      "q_bytes (q1\<lparr>q_over_limit := q_over_limit q1 + 1\<rparr>) \<le> q_bytes q"
    by (rule uncount_sheds[OF q i, of 0 x rest suffix, OF _ _ _ _ _ tallies_over_limit])
      (use w in \<open>auto simp: suffix_ConsI\<close>)
  have "drop_fattest q = Ok (True, q1\<lparr>q_over_limit := q_over_limit q1 + 1\<rparr>)"
    using Some ib pop q1(1) by (simp add: drop_fattest_def)
  then show ?thesis using q1 by simp
qed

text \<open>The loop ends: every turn lets one packet go, and an empty queue stops it.\<close>

lemma make_room_sheds:
  assumes "counts_ok q"
  shows "\<exists>q'. make_room len q = Some (Ok q') \<and> sheds suffix q q' \<and>
    q_bytes q' \<le> q_bytes q \<and> (q_bytes q' + len \<le> LIMIT_BYTES \<or> q_bytes q' = 0) \<and>
    (q_bytes q + len \<le> LIMIT_BYTES \<longrightarrow> q' = q)"
  using assms
proof (induction "q_packets q" arbitrary: q rule: less_induct)
  case less
  show ?case
  proof (cases "q_bytes q + len > LIMIT_BYTES")
    case False
    then show ?thesis using less(2) sheds_refl[of q suffix] by (subst make_room.simps) simp
  next
    case True
    obtain dropped q1 where d: "drop_fattest q = Ok (dropped, q1)"
      and p: "if dropped then sheds suffix q q1 \<and> q_packets q1 < q_packets q \<and> q_bytes q1 \<le> q_bytes q
        else q1 = q \<and> q_bytes q = 0"
      using drop_fattest_sheds[OF less(2)] by (auto elim!: yieldsE)
    show ?thesis
    proof (cases dropped)
      case False
      then show ?thesis using True d p less(2) sheds_refl[of q suffix] by (subst make_room.simps) simp
    next
      case dropped: True
      then obtain q' where "make_room len q1 = Some (Ok q')" "sheds suffix q1 q'" "q_bytes q' \<le> q_bytes q1"
          "q_bytes q' + len \<le> LIMIT_BYTES \<or> q_bytes q' = 0"
        using less(1)[of q1] p sheds_counts by auto
      then show ?thesis using True d p dropped sheds_trans[of suffix q q1 q', OF _ _ suffix_order.trans]
        by (subst make_room.simps) simp
    qed
  qed
qed

section \<open>Thinning\<close>

text \<open>The newer acknowledgement covers this packet.\<close>

definition covered :: "bytes \<Rightarrow> u32 \<Rightarrow> queued \<Rightarrow> bool" where
  "covered newer acked x =
     (case pure_ack (qd_packet x) of
        Ok (Some older) \<Rightarrow> sint (acked - older) > 0 \<and> same_connection newer (qd_packet x) = Ok True
      | _ \<Rightarrow> False)"

definition positions :: "('a \<Rightarrow> bool) \<Rightarrow> 'a list \<Rightarrow> nat list" where
  "positions P xs = map fst (filter (\<lambda>(k, x). P x) (enumerate 0 xs))"

lemma redundant_acks_positions:
  "redundant_acks newer acked k ps =
     Ok (map fst (filter (\<lambda>(k, x). covered newer acked x) (enumerate k ps)))"
proof (induction ps arbitrary: k)
  case (Cons x ps)
  obtain older where "pure_ack (qd_packet x) = Ok older" using pure_ack_total by blast
  moreover obtain same where "same_connection newer (qd_packet x) = Ok same"
    using same_connection_total by blast
  ultimately show ?case using Cons by (simp add: covered_def split: option.split)
qed simp

lemma positions_append:
  "positions P (xs @ ys) = positions P xs @ map ((+) (length xs)) (positions P ys)"
proof -
  have "map fst (filter (\<lambda>(k, x). P x) (enumerate n ys)) =
      map ((+) n) (map fst (filter (\<lambda>(k, x). P x) (enumerate 0 ys)))" for n
    by (induction ys arbitrary: n rule: rev_induct) (simp_all add: enumerate_append_eq)
  from this[of "length xs"] show ?thesis by (simp add: positions_def enumerate_append_eq)
qed

lemma positions_simps [simp]:
  "positions P [] = []" "positions P (x # xs) = (if P x then [0] else []) @ map Suc (positions P xs)"
proof -
  show "positions P [] = []" by (simp add: positions_def)
  show "positions P (x # xs) = (if P x then [0] else []) @ map Suc (positions P xs)"
    using positions_append[of P "[x]" xs] by (auto simp: positions_def)
qed

lemma set_positions: "set (positions P xs) = {k. k < length xs \<and> P (xs ! k)}"
  by (force simp: positions_def in_set_enumerate_eq image_iff)

lemma positions_Nil: "\<forall>x\<in>set xs. \<not> P x \<Longrightarrow> positions P xs = []"
  by (induction xs) auto

lemma sorted_positions: "sorted_wrt (<) (positions P xs)"
  by (induction xs) (auto simp: sorted_wrt_map sorted_wrt_append)

lemma nths_agree:
  "(\<And>k. k < length xs \<Longrightarrow> k \<in> A \<longleftrightarrow> k \<in> B) \<Longrightarrow> nths xs A = nths xs B"
  by (auto simp: nths_def set_zip intro!: arg_cong[where f = "map fst"] filter_cong)

lemma nths_without_positions: "nths xs (- set (positions P xs)) = filter (\<lambda>x. \<not> P x) xs"
  by (subst filter_eq_nths) (auto simp: set_positions intro: nths_agree)

lemma nths_remove:
  assumes "k < length xs" "\<forall>j\<in>set ks. j < k"
  shows "nths (take k xs @ drop (Suc k) xs) (- set ks) = nths xs (- set (ks @ [k]))"
proof -
  have all: "nths ys {j. j + n \<notin> set ks} = ys" if "k \<le> n" for n and ys :: "'a list"
    using assms(2) that by (intro nths_all) fastforce
  have eq: "xs = take k xs @ [xs ! k] @ drop (Suc k) xs" using assms(1) by (simp add: id_take_nth_drop)
  have "nths xs (- set (ks @ [k])) = nths (take k xs) (- set (ks @ [k])) @ nths (drop (Suc k) xs)
      {j. j + Suc k \<notin> set ks}"
    by (subst eq) (use assms in \<open>auto simp: nths_append nths_Cons\<close>)
  moreover have "nths (take k xs) (- set (ks @ [k])) = nths (take k xs) (- set ks)"
    by (rule nths_agree) simp
  ultimately show ?thesis using assms(1) all[of k] all[of "Suc k"] by (simp add: nths_append min_def)
qed

lemma remove_acks_sheds:
  assumes "counts_ok q" "i < FLOWS" "sorted_wrt (<) ks" "\<forall>k\<in>set ks. k < length (waiting q i)"
  shows "yields (remove_acks i (rev ks) q) (\<lambda>q'. sheds subseq q q' \<and> q_bytes q' \<le> q_bytes q \<and>
    waiting q' i = nths (waiting q i) (- set ks) \<and>
    (\<forall>j<FLOWS. j \<noteq> i \<longrightarrow> q_flows q' ! j = q_flows q ! j))"
  using assms
proof (induction ks arbitrary: q rule: rev_induct)
  case Nil
  then show ?case using sheds_refl[of q subseq] by (simp add: nths_all)
next
  case (snoc k ks)
  have k: "k < length (waiting q i)" and below: "\<forall>j\<in>set ks. j < k" and sorted: "sorted_wrt (<) ks"
    using snoc.prems by (auto simp: sorted_wrt_append)
  define left where "left = take k (waiting q i) @ drop (Suc k) (waiting q i)"
  have sub: "subseq left (waiting q i)" unfolding left_def
    by (subst (3) id_take_nth_drop[OF k]) (auto intro: list_emb_append_mono)
  obtain q1 where q1: "uncount i (size_of (waiting q i ! k))
        (set_flow i ((q_flows q ! i)\<lparr>fl_packets := left\<rparr>) q) = Ok q1"
      "sheds subseq q (q1\<lparr>q_thinned := q_thinned q1 + 1\<rparr>)"
      "q_bytes (q1\<lparr>q_thinned := q_thinned q1 + 1\<rparr>) \<le> q_bytes q"
      "waiting (q1\<lparr>q_thinned := q_thinned q1 + 1\<rparr>) i = left"
      "\<forall>j<FLOWS. j \<noteq> i \<longrightarrow> q_flows (q1\<lparr>q_thinned := q_thinned q1 + 1\<rparr>) ! j = q_flows q ! j"
    by (rule uncount_sheds[OF snoc.prems(1,2) k refl left_def, where R = subseq, OF _ sub tallies_thinned]) auto
  define q2 where "q2 = q1\<lparr>q_thinned := q_thinned q1 + 1\<rparr>"
  note q1 = q1[folded q2_def]
  have eq: "remove_acks i (rev (ks @ [k])) q = remove_acks i (rev ks) q2"
    using k snoc.prems(1,2) counts_length[OF snoc.prems(1)] q1(1)
    by (simp add: out_simps q2_def left_def at_def)
  have "\<forall>j\<in>set ks. j < length (waiting q2 i)" using below k q1(4) by (auto simp: left_def)
  from snoc.IH[OF sheds_counts[OF q1(2)] snoc.prems(2) sorted this]
  obtain q' where q': "remove_acks i (rev ks) q2 = Ok q'" "sheds subseq q2 q'" "q_bytes q' \<le> q_bytes q2"
      "waiting q' i = nths (waiting q2 i) (- set ks)"
      "\<forall>j<FLOWS. j \<noteq> i \<longrightarrow> q_flows q' ! j = q_flows q2 ! j"
    by (auto elim!: yieldsE)
  have "sheds subseq q q'" by (rule sheds_trans[OF q1(2) q'(2) subseq_order.trans])
  moreover have "waiting q' i = nths (waiting q i) (- set (ks @ [k]))"
    using q'(4) q1(4) nths_remove[OF k below] by (simp add: left_def)
  ultimately show ?case using eq q' q1 by simp
qed

text \<open>What is left of a bucket when a newer acknowledgement comes in.\<close>

definition thinned :: "bytes \<Rightarrow> u32 \<Rightarrow> queued list \<Rightarrow> queued list" where
  "thinned newer acked ps = nths ps (- set (butlast (positions (covered newer acked) ps)))"

lemma thinned_none: "\<forall>x\<in>set ps. \<not> covered newer acked x \<Longrightarrow> thinned newer acked ps = ps"
proof -
  assume "\<forall>x\<in>set ps. \<not> covered newer acked x"
  then have "positions (covered newer acked) ps = []"
    by (rule positions_Nil)
  then show ?thesis by (simp add: thinned_def nths_all)
qed

lemma thinned_some:
  assumes "covered newer acked x" "\<forall>y\<in>set after. \<not> covered newer acked y"
  shows "thinned newer acked (before @ x # after) = filter (\<lambda>y. \<not> covered newer acked y) before @ x # after"
proof -
  let ?P = "covered newer acked"
  have "positions ?P after = []" using assms(2) by (rule positions_Nil)
  then have b: "butlast (positions ?P (before @ x # after)) = positions ?P before"
    using assms(1) by (simp add: positions_append)
  have "j + length before \<notin> set (positions ?P before)" for j by (simp add: set_positions)
  then have "nths (x # after) {j. j + length before \<notin> set (positions ?P before)} = x # after"
    by (intro nths_all) simp
  then show ?thesis
    by (simp add: thinned_def b nths_append nths_without_positions)
qed

lemma thin_acks_sheds:
  assumes "counts_ok q" "i < FLOWS"
  shows "yields (thin_acks i newer acked q) (\<lambda>q'. sheds subseq q q' \<and> q_bytes q' \<le> q_bytes q \<and>
    waiting q' i = thinned newer acked (waiting q i) \<and>
    (\<forall>j<FLOWS. j \<noteq> i \<longrightarrow> q_flows q' ! j = q_flows q ! j))"
proof -
  let ?ks = "positions (covered newer acked) (waiting q i)"
  have "sorted_wrt (<) (butlast ?ks)"
    using sorted_positions by (metis butlast_conv_take sorted_wrt_take)
  moreover have "\<forall>k\<in>set (butlast ?ks). k < length (waiting q i)"
    using set_positions[of _ "waiting q i"] by (auto dest!: in_set_butlastD)
  ultimately show ?thesis
    using remove_acks_sheds[OF assms, of "butlast ?ks"] assms counts_length[OF assms(1)]
    by (simp add: thin_acks_def redundant_acks_positions positions_def thinned_def out_simps)
qed

section \<open>The service lists\<close>

definition listed_ok :: "inner \<Rightarrow> bool" where
  "listed_ok q \<longleftrightarrow>
     distinct (q_fresh q @ q_backlogged q) \<and>
     set (q_fresh q @ q_backlogged q) = {i. i < FLOWS \<and> fl_listed (q_flows q ! i)} \<and>
     (\<forall>i<FLOWS. waiting q i \<noteq> [] \<longrightarrow> fl_listed (q_flows q ! i))"

definition queue_ok :: "inner \<Rightarrow> bool" where
  "queue_ok q \<longleftrightarrow> counts_ok q \<and> listed_ok q"

lemma queue_ok_counts: "queue_ok q \<Longrightarrow> counts_ok q"
  by (simp add: queue_ok_def)

lemma listed_frame:
  assumes "listed_ok q" "q_fresh q' = q_fresh q" "q_backlogged q' = q_backlogged q"
    and "\<And>i. i < FLOWS \<Longrightarrow> fl_listed (q_flows q' ! i) = fl_listed (q_flows q ! i)"
    and "\<And>i. i < FLOWS \<Longrightarrow> waiting q' i \<noteq> [] \<Longrightarrow> waiting q i \<noteq> []"
  shows "listed_ok q'"
proof -
  have "{i. i < FLOWS \<and> fl_listed (q_flows q' ! i)} = {i. i < FLOWS \<and> fl_listed (q_flows q ! i)}"
    using assms(4) by auto
  then show ?thesis using assms by (simp add: listed_ok_def)
qed

lemma sheds_listed: "sheds subseq q q' \<Longrightarrow> listed_ok q \<Longrightarrow> listed_ok q'"
  by (rule listed_frame[of q]) (auto simp: sheds_def)

lemma sheds_queue_ok: "sheds subseq q q' \<Longrightarrow> queue_ok q \<Longrightarrow> queue_ok q'"
  using sheds_listed sheds_counts by (auto simp: queue_ok_def)

section \<open>Filing\<close>

text \<open>A packet filed at the back of its bucket, which is listed with it.\<close>

lemma file_at_back:
  fixes x :: queued
  assumes q: "queue_ok q" and i: "i < FLOWS"
  defines "f \<equiv> (q_flows q ! i)\<lparr>fl_packets := waiting q i @ [x], fl_bytes := fl_bytes (q_flows q ! i) + size_of x\<rparr>"
  defines "q1 \<equiv> q\<lparr>q_bytes := q_bytes q + size_of x, q_packets := q_packets q + 1\<rparr>"
  defines "q' \<equiv> if \<not> fl_listed f
      then (set_flow i (f\<lparr>fl_listed := True, fl_deficit := int QUANTUM\<rparr>) q1)\<lparr>q_fresh := q_fresh q1 @ [i]\<rparr>
      else set_flow i f q1"
  shows "queue_ok q'" "accounted q' = accounted q + 1" "waiting q' i = waiting q i @ [x]"
    "\<forall>j<FLOWS. j \<noteq> i \<longrightarrow> q_flows q' ! j = q_flows q ! j" "q_bytes q' = q_bytes q + size_of x"
    "q_closed q' = q_closed q"
    "q_fresh q' = q_fresh q @ (if fl_listed (q_flows q ! i) then [] else [i])"
    "q_backlogged q' = q_backlogged q"
    "q_interval q' = q_interval q" "q_target q' = q_target q"
    "\<not> fl_listed (q_flows q ! i) \<longrightarrow> fl_deficit (q_flows q' ! i) = int QUANTUM"
proof -
  have c: "counts_ok q" and l: "listed_ok q" using q by (simp_all add: queue_ok_def)
  have len: "length (q_flows q) = FLOWS" by (rule counts_length[OF c])
  have b: "fl_bytes f = sum_list (map size_of (fl_packets f))"
    using counts_flow[OF c i] by (simp add: f_def)
  have set: "counts_ok ((set_flow i g q)\<lparr>q_bytes := q_bytes q + size_of x, q_packets := q_packets q + 1\<rparr>)"
    if "fl_packets g = fl_packets f" "fl_bytes g = fl_bytes f" for g
    using that b by (intro counts_set_flow[OF c i, where a = "size_of x" and b = 0 and c = 1 and d = 0])
      (simp_all add: f_def)
  have "counts_ok q'"
    using set[of "f\<lparr>fl_listed := True, fl_deficit := int QUANTUM\<rparr>"] set[of f]
    by (simp add: q'_def q1_def set_flow_def counts_ok_def)
  moreover show nth: "\<forall>j<FLOWS. j \<noteq> i \<longrightarrow> q_flows q' ! j = q_flows q ! j"
    by (simp add: q'_def q1_def)
  show w: "waiting q' i = waiting q i @ [x]" using i len by (simp add: q'_def q1_def f_def)
  have li: "fl_listed (q_flows q' ! i)" using i len by (simp add: q'_def q1_def f_def)
  show fresh: "q_fresh q' = q_fresh q @ (if fl_listed (q_flows q ! i) then [] else [i])"
    and rear: "q_backlogged q' = q_backlogged q"
    by (simp_all add: q'_def q1_def f_def)
  have "listed_ok q'" unfolding listed_ok_def
  proof (intro conjI)
    show "distinct (q_fresh q' @ q_backlogged q')"
      using l i by (auto simp: listed_ok_def fresh rear)
    have "{j. j < FLOWS \<and> fl_listed (q_flows q' ! j)} = insert i {j. j < FLOWS \<and> fl_listed (q_flows q ! j)}"
      using nth li i by auto
    then show "set (q_fresh q' @ q_backlogged q') = {j. j < FLOWS \<and> fl_listed (q_flows q' ! j)}"
      using l i by (auto simp: listed_ok_def fresh rear)
    show "\<forall>j<FLOWS. waiting q' j \<noteq> [] \<longrightarrow> fl_listed (q_flows q' ! j)"
      using l nth li by (metis listed_ok_def)
  qed
  ultimately show "queue_ok q'" by (simp add: queue_ok_def)
  show "accounted q' = accounted q + 1" "q_bytes q' = q_bytes q + size_of x" "q_closed q' = q_closed q"
    "q_interval q' = q_interval q" "q_target q' = q_target q"
    by (simp_all add: q'_def q1_def accounted_def)
  show "\<not> fl_listed (q_flows q ! i) \<longrightarrow> fl_deficit (q_flows q' ! i) = int QUANTUM"
    using i len by (simp add: q'_def q1_def f_def)
qed

text \<open>What one arrival does, whatever it displaces.\<close>

definition arrives :: "nat \<Rightarrow> queued \<Rightarrow> inner \<Rightarrow> inner \<Rightarrow> bool" where
  "arrives i x q q' \<longleftrightarrow>
     queue_ok q' \<and> accounted q' = accounted q + 1 \<and> q_closed q' = q_closed q \<and>
     q_interval q' = q_interval q \<and> q_target q' = q_target q \<and>
     (\<exists>kept. subseq kept (waiting q i) \<and> waiting q' i = kept @ [x]) \<and>
     (\<forall>j<FLOWS. j \<noteq> i \<longrightarrow> suffix (waiting q' j) (waiting q j)) \<and>
     (\<not> fl_listed (q_flows q ! i) \<longrightarrow> fl_deficit (q_flows q' ! i) = int QUANTUM) \<and>
     q_backlogged q' = q_backlogged q \<and>
     q_fresh q' = q_fresh q @ (if fl_listed (q_flows q ! i) then [] else [i])"

lemma file_packet_arrives:
  assumes q: "queue_ok q" and i: "flow_of p = Ok i"
  shows "yields (file_packet p now q) (\<lambda>q'. arrives i \<lparr>qd_packet = p, qd_at = now\<rparr> q q' \<and>
    q_bytes q' \<le> q_bytes q + length p \<and>
    (\<forall>j<FLOWS. j \<noteq> i \<longrightarrow> q_flows q' ! j = q_flows q ! j) \<and>
    waiting q' i = (case pure_ack p of Ok (Some acked) \<Rightarrow> thinned p acked (waiting q i) | _ \<Rightarrow> waiting q i) @
      [\<lparr>qd_packet = p, qd_at = now\<rparr>])"
proof -
  have iF: "i < FLOWS" using flow_of_total[of p] i by auto
  obtain ack where ack: "pure_ack p = Ok ack" using pure_ack_total by blast
  have c: "counts_ok q" using q by (rule queue_ok_counts)
  let ?left = "case ack of Some acked \<Rightarrow> thinned p acked (waiting q i) | None \<Rightarrow> waiting q i"
  have "yields (case ack of Some acked \<Rightarrow> thin_acks i p acked q | None \<Rightarrow> Ok q) (\<lambda>q'. sheds subseq q q' \<and>
      q_bytes q' \<le> q_bytes q \<and> waiting q' i = ?left \<and> (\<forall>j<FLOWS. j \<noteq> i \<longrightarrow> q_flows q' ! j = q_flows q ! j))"
    using thin_acks_sheds[OF c iF] sheds_refl[OF c, of subseq] by (cases ack) auto
  then obtain q1 where q1: "(case ack of Some acked \<Rightarrow> thin_acks i p acked q | None \<Rightarrow> Ok q) = Ok q1"
      "sheds subseq q q1" "q_bytes q1 \<le> q_bytes q" "waiting q1 i = ?left"
      "\<forall>j<FLOWS. j \<noteq> i \<longrightarrow> q_flows q1 ! j = q_flows q ! j"
    by (auto elim!: yieldsE)
  note ok1 = sheds_queue_ok[OF q1(2) q]
  have len: "length (q_flows q1) = FLOWS" using q1(2) counts_length sheds_counts by blast
  note filed = file_at_back[OF ok1 iF, of "\<lparr>qd_packet = p, qd_at = now\<rparr>"]
  let ?f = "(q_flows q1 ! i)\<lparr>fl_packets := waiting q1 i @ [\<lparr>qd_packet = p, qd_at = now\<rparr>],
      fl_bytes := fl_bytes (q_flows q1 ! i) + length p\<rparr>"
  let ?q = "q1\<lparr>q_bytes := q_bytes q1 + length p, q_packets := q_packets q1 + 1\<rparr>"
  define q' where "q' = (if \<not> fl_listed ?f
      then (set_flow i (?f\<lparr>fl_listed := True, fl_deficit := int QUANTUM\<rparr>) ?q)\<lparr>q_fresh := q_fresh ?q @ [i]\<rparr>
      else set_flow i ?f ?q)"
  have eq: "file_packet p now q = Ok q'"
    using i ack q1(1) len iF by (simp add: file_packet_def Let_def out_simps q'_def del: One_nat_def)
  note filed = filed[unfolded queued.select_convs, folded q'_def]
  have same: "accounted q1 = accounted q" "q_closed q1 = q_closed q" "q_interval q1 = q_interval q"
    "q_target q1 = q_target q" "q_fresh q1 = q_fresh q"
    "q_backlogged q1 = q_backlogged q" "fl_listed (q_flows q1 ! i) = fl_listed (q_flows q ! i)"
    "subseq (waiting q1 i) (waiting q i)"
    using q1(2) iF by (simp_all add: sheds_def)
  have others: "\<forall>j<FLOWS. j \<noteq> i \<longrightarrow> q_flows q' ! j = q_flows q ! j" using filed(4) q1(5) by simp
  have "arrives i \<lparr>qd_packet = p, qd_at = now\<rparr> q q'"
    using filed same others by (auto simp: arrives_def)
  then show ?thesis using eq filed q1 others ack by simp
qed

lemma enqueue_arrives:
  assumes q: "queue_ok q" and i: "flow_of p = Ok i"
  shows "\<exists>q'. enqueue p now q = Some (Ok q') \<and> arrives i \<lparr>qd_packet = p, qd_at = now\<rparr> q q' \<and>
    q_bytes q' \<le> max LIMIT_BYTES (length p) \<and>
    (q_bytes q + length p \<le> LIMIT_BYTES \<longrightarrow> (\<forall>j<FLOWS. j \<noteq> i \<longrightarrow> q_flows q' ! j = q_flows q ! j))"
proof -
  obtain q1 where m: "make_room (length p) q = Some (Ok q1)" "sheds suffix q q1"
      "q_bytes q1 + length p \<le> LIMIT_BYTES \<or> q_bytes q1 = 0"
      "q_bytes q + length p \<le> LIMIT_BYTES \<longrightarrow> q1 = q"
    using make_room_sheds[OF queue_ok_counts[OF q]] by blast
  note ok1 = sheds_queue_ok[OF sheds_mono[OF m(2) suffix_subseq] q]
  obtain q' where f: "file_packet p now q1 = Ok q'" "arrives i \<lparr>qd_packet = p, qd_at = now\<rparr> q1 q'"
      "q_bytes q' \<le> q_bytes q1 + length p" "\<forall>j<FLOWS. j \<noteq> i \<longrightarrow> q_flows q' ! j = q_flows q1 ! j"
    using file_packet_arrives[OF ok1 i] by (auto elim!: yieldsE)
  have iF: "i < FLOWS" using flow_of_total[of p] i by auto
  have s: "suffix (waiting q1 j) (waiting q j)" if "j < FLOWS" for j using m(2) that by (simp add: sheds_def)
  obtain kept where k: "subseq kept (waiting q1 i)" "waiting q' i = kept @ [\<lparr>qd_packet = p, qd_at = now\<rparr>]"
    using f(2) by (auto simp: arrives_def)
  have "subseq kept (waiting q i)" using k(1) suffix_subseq[OF s[OF iF]] subseq_order.trans by blast
  moreover have "suffix (waiting q' j) (waiting q j)" if "j < FLOWS" "j \<noteq> i" for j
    using f(4) s that by simp
  ultimately have "arrives i \<lparr>qd_packet = p, qd_at = now\<rparr> q q'"
    using f(2) m(2) k(2) iF by (auto simp: arrives_def sheds_def)
  then show ?thesis using m f by (auto simp: enqueue_def)
qed

end
