(* ===== verification/Queue_Service.thy ===== *)
theory Queue_Service
  imports Queue_Arrival
begin

text \<open>
  The departure side of the queue of \<open>Packet_Queue\<close> and the queue as a whole: service in turns, the
  dropping of stale packets, the measured round trip, and every queue the operations can reach.
\<close>

section \<open>Turns\<close>

lemma next_bucket_Some:
  assumes "next_bucket q = Some (i, was_fresh)"
  shows "q_fresh q @ q_backlogged q = i # (q_fresh (pop_service was_fresh q) @ q_backlogged (pop_service was_fresh q))"
  using assms by (auto simp: next_bucket_def pop_service_def split: list.splits)

lemma next_bucket_None: "next_bucket q = None \<longleftrightarrow> q_fresh q = [] \<and> q_backlogged q = []"
  by (auto simp: next_bucket_def split: list.splits)

lemma next_bucket_listed:
  assumes "queue_ok q" "next_bucket q = Some (i, was_fresh)"
  shows "i < FLOWS" "fl_listed (q_flows q ! i)"
proof -
  have "i \<in> set (q_fresh q @ q_backlogged q)" using next_bucket_Some[OF assms(2)] by simp
  then have "i < FLOWS \<and> fl_listed (q_flows q ! i)"
    using assms(1) unfolding queue_ok_def listed_ok_def by blast
  then show "i < FLOWS" "fl_listed (q_flows q ! i)" by auto
qed

lemma queue_empty:
  assumes "queue_ok q" "next_bucket q = None" "i < FLOWS"
  shows "waiting q i = []"
proof -
  have l: "listed_ok q" using assms(1) by (simp add: queue_ok_def)
  have "{i. i < FLOWS \<and> fl_listed (q_flows q ! i)} = {}"
    using l assms(2) by (simp add: listed_ok_def next_bucket_None)
  then have "\<not> fl_listed (q_flows q ! i)" using assms(3) by auto
  then show ?thesis using l assms(3) by (auto simp: listed_ok_def)
qed

text \<open>A bucket sent to the back with more credit.\<close>

lemma rotate_ok:
  assumes q: "queue_ok q" and n: "next_bucket q = Some (i, was_fresh)"
  shows "queue_ok (to_backlog i (pop_service was_fresh (set_flow i ((q_flows q ! i)\<lparr>fl_deficit := d\<rparr>) q)))"
    (is "queue_ok ?q'")
proof -
  have i: "i < FLOWS" by (rule next_bucket_listed[OF q n])
  have c: "counts_ok q" and l: "listed_ok q" using q by (simp_all add: queue_ok_def)
  have len: "length (q_flows q) = FLOWS" by (rule counts_length[OF c])
  let ?q1 = "set_flow i ((q_flows q ! i)\<lparr>fl_deficit := d\<rparr>) q"
  have "counts_ok ?q1" using c i by (intro counts_same) simp_all
  then have "counts_ok ?q'" by (simp add: counts_ok_def to_backlog_def pop_service_def)
  moreover have "listed_ok ?q'"
  proof -
    have n1: "next_bucket ?q1 = Some (i, was_fresh)" using n next_bucket_cong[of ?q1 q] by simp
    have perm: "q_fresh ?q' @ q_backlogged ?q' = (q_fresh (pop_service was_fresh ?q1) @
        q_backlogged (pop_service was_fresh ?q1)) @ [i]"
      by (simp add: to_backlog_def)
    have flows: "fl_listed (q_flows ?q' ! j) = fl_listed (q_flows q ! j)" "waiting ?q' j = waiting q j"
      if "j < FLOWS" for j
      using that len by (cases "j = i"; simp add: to_backlog_def)+
    have "distinct (i # (q_fresh (pop_service was_fresh ?q1) @ q_backlogged (pop_service was_fresh ?q1)))"
      "set (i # (q_fresh (pop_service was_fresh ?q1) @ q_backlogged (pop_service was_fresh ?q1))) =
         {i. i < FLOWS \<and> fl_listed (q_flows q ! i)}"
      using l unfolding next_bucket_Some[OF n1, symmetric] by (simp_all add: listed_ok_def)
    moreover have "{i. i < FLOWS \<and> fl_listed (q_flows ?q' ! i)} = {i. i < FLOWS \<and> fl_listed (q_flows q ! i)}"
      using flows by auto
    ultimately show ?thesis unfolding listed_ok_def perm using l flows by (auto simp: listed_ok_def)
  qed
  ultimately show ?thesis by (simp add: queue_ok_def)
qed

text \<open>A dry bucket taken out of service.\<close>

lemma retire_ok:
  assumes q: "queue_ok q" and n: "next_bucket q = Some (i, was_fresh)" and dry: "waiting q i = []"
  shows "queue_ok (set_flow i ((q_flows q ! i)\<lparr>fl_listed := False\<rparr>) (pop_service was_fresh q))"
    (is "queue_ok ?q'")
proof -
  have i: "i < FLOWS" by (rule next_bucket_listed[OF q n])
  have c: "counts_ok q" and l: "listed_ok q" using q by (simp_all add: queue_ok_def)
  have len: "length (q_flows q) = FLOWS" by (rule counts_length[OF c])
  have "counts_ok (pop_service was_fresh q)" using c by (simp add: counts_ok_def)
  then have "counts_ok ?q'" using i by (intro counts_same) simp_all
  moreover have "listed_ok ?q'"
  proof -
    let ?r = "q_fresh (pop_service was_fresh q) @ q_backlogged (pop_service was_fresh q)"
    have all: "distinct (i # ?r)" "set (i # ?r) = {i. i < FLOWS \<and> fl_listed (q_flows q ! i)}"
      using l unfolding next_bucket_Some[OF n, symmetric] by (simp_all add: listed_ok_def)
    have flows: "fl_listed (q_flows ?q' ! j) \<longleftrightarrow> j \<noteq> i \<and> fl_listed (q_flows q ! j)" "waiting ?q' j = waiting q j"
      if "j < FLOWS" for j
      using that len by (cases "j = i"; simp)+
    have "{j. j < FLOWS \<and> fl_listed (q_flows ?q' ! j)} = {j. j < FLOWS \<and> fl_listed (q_flows q ! j)} - {i}"
      using flows by auto
    also have "\<dots> = set ?r" using all by auto
    finally show ?thesis using all l flows dry by (auto simp: listed_ok_def)
  qed
  ultimately show ?thesis by (simp add: queue_ok_def)
qed

lemma serves_queue_ok: "queue_ok q \<Longrightarrow> serves i ds n q q' \<Longrightarrow> i < FLOWS \<Longrightarrow> queue_ok q'"
proof -
  assume q: "queue_ok q" and s: "serves i ds n q q'" and i: "i < FLOWS"
  have "waiting q j \<noteq> []" if "j < FLOWS" "waiting q' j \<noteq> []" for j
    using s that by (cases "j = i") (auto simp: serves_def)
  then have "listed_ok q'" using q s listed_frame[of q q'] by (simp add: queue_ok_def serves_def)
  then show ?thesis using serves_counts[OF s] by (simp add: queue_ok_def)
qed

lemma serves_suffix: "serves i ds n q q' \<Longrightarrow> j < FLOWS \<Longrightarrow> suffix (waiting q' j) (waiting q j)"
  by (cases "j = i") (auto simp: serves_def suffix_def)

section \<open>The next packet\<close>

text \<open>What one \<open>dequeue\<close> does.\<close>

definition departs :: "bytes option \<Rightarrow> inner \<Rightarrow> inner \<Rightarrow> bool" where
  "departs r q q' \<longleftrightarrow>
     queue_ok q' \<and> q_closed q' = q_closed q \<and> q_interval q' = q_interval q \<and> q_target q' = q_target q \<and>
     (\<forall>j<FLOWS. suffix (waiting q' j) (waiting q j)) \<and>
     (case r of
        None \<Rightarrow> accounted q' = accounted q \<and> (\<forall>j<FLOWS. waiting q' j = [])
      | Some p \<Rightarrow> accounted q' + 1 = accounted q \<and>
          (\<exists>i<FLOWS. \<exists>dropped x. waiting q i = dropped @ x # waiting q' i \<and> sent_as (qd_packet x) p))"

text \<open>A turn that hands nothing over leads to the same departure.\<close>

lemma departs_after:
  assumes "\<forall>j<FLOWS. suffix (waiting q1 j) (waiting q j)" "accounted q1 = accounted q"
    "q_closed q1 = q_closed q" "q_interval q1 = q_interval q" "q_target q1 = q_target q"
    and d: "departs r q1 q'"
  shows "departs r q q'"
proof -
  have s: "suffix (waiting q' j) (waiting q j)" if "j < FLOWS" for j
    using assms(1) d that unfolding departs_def by (meson suffix_order.trans)
  have "\<exists>dropped x. waiting q i = dropped @ x # waiting q' i \<and> sent_as (qd_packet x) p"
    if "i < FLOWS" "waiting q1 i = dropped @ x # waiting q' i" "sent_as (qd_packet x) p" for i dropped x p
    using assms(1) that by (auto simp: suffix_def intro: exI[of _ "_ @ dropped"])
  then show ?thesis using assms s by (auto simp: departs_def split: option.splits)
qed

lemma pop_service_accounted [simp]:
  "accounted (pop_service b q) = accounted q" "q_interval (pop_service b q) = q_interval q"
  "q_target (pop_service b q) = q_target q"
  by (simp_all add: accounted_def pop_service_def)

lemma to_backlog_simps [simp]:
  "q_flows (to_backlog i q) = q_flows q" "accounted (to_backlog i q) = accounted q"
  "q_closed (to_backlog i q) = q_closed q" "q_interval (to_backlog i q) = q_interval q"
  "q_target (to_backlog i q) = q_target q"
  by (simp_all add: to_backlog_def accounted_def)

lemma set_flow_accounted [simp]: "accounted (set_flow i f q) = accounted q"
  by (simp add: accounted_def)

lemma dequeue_departs:
  "queue_ok q \<Longrightarrow> yields (dequeue now q) (\<lambda>(r, q'). departs r q q')"
proof (induction now q rule: dequeue.induct)
  case (1 now q)
  note q = 1(3)
  have len: "length (q_flows q) = FLOWS" using q queue_ok_counts counts_length by blast
  show ?case
  proof (cases "next_bucket q")
    case None
    then show ?thesis using q queue_empty[OF q None]
      by (subst dequeue.simps) (simp add: departs_def)
  next
    case (Some iw)
    obtain i was_fresh where n: "next_bucket q = Some (i, was_fresh)" using Some by (cases iw) simp
    have i: "i < FLOWS" by (rule next_bucket_listed[OF q n])
    have ix: "(index (q_flows q) i :: (unit, flow) outcome) = Ok (q_flows q ! i)" using i len by (simp add: index_def)
    show ?thesis
    proof (cases "fl_deficit (q_flows q ! i) \<le> 0")
      case True
      define q1 where "q1 = to_backlog i (pop_service was_fresh (set_flow i
        ((q_flows q ! i)\<lparr>fl_deficit := fl_deficit (q_flows q ! i) + int QUANTUM\<rparr>) q))"
      have ok1: "queue_ok q1" unfolding q1_def by (rule rotate_ok[OF q n])
      have eq: "dequeue now q = dequeue now q1" using n ix True
        by (subst dequeue.simps) (simp add: q1_def)
      have w: "waiting q1 j = waiting q j" if "j < FLOWS" for j
        using that len by (cases "j = i") (simp_all add: q1_def to_backlog_def)
      have "yields (dequeue now q1) (\<lambda>(r, q'). departs r q1 q')"
        using 1(1)[OF n refl ix True] ok1 by (simp add: q1_def)
      moreover have "departs r q q'" if "departs r q1 q'" for r q'
        by (rule departs_after[OF _ _ _ _ _ that]) (use w in \<open>simp_all add: q1_def\<close>)
      ultimately show ?thesis unfolding eq yields_def by fastforce
    next
      case False
      obtain r q1 ds where r: "codel i now q = Ok (r, q1)" "case r of
          None \<Rightarrow> serves i ds 0 q q1 \<and> waiting q1 i = []
        | Some p \<Rightarrow> serves i ds 1 q q1 \<and> ds \<noteq> [] \<and> sent_as (qd_packet (last ds)) p"
        using codel_serves[OF queue_ok_counts[OF q] i, of now] by (auto elim!: yieldsE)
      then obtain k where s: "serves i ds k q q1" by (auto split: option.splits)
      have ok1: "queue_ok q1" by (rule serves_queue_ok[OF q s i])
      have len1: "length (q_flows q1) = FLOWS" using ok1 queue_ok_counts counts_length by blast
      show ?thesis
      proof (cases r)
        case None
        define q2 where "q2 = set_flow i ((q_flows q1 ! i)\<lparr>fl_listed := False\<rparr>) (pop_service was_fresh q1)"
        have n1: "next_bucket q1 = Some (i, was_fresh)"
          using n next_bucket_cong[of q1 q] s by (simp add: serves_def)
        have ok2: "queue_ok q2" unfolding q2_def using r None by (intro retire_ok[OF ok1 n1]) simp
        have on: "on_flow i (\<lambda>f. f\<lparr>fl_listed := False\<rparr>) (pop_service was_fresh q1) = Ok q2"
          using i len1 by (simp add: on_flow_def q2_def out_simps)
        have eq: "dequeue now q = dequeue now q2" using n ix False r None on
          by (subst dequeue.simps) simp
        have w: "waiting q2 j = waiting q1 j" if "j < FLOWS" for j
          using that len1 by (cases "j = i") (simp_all add: q2_def)
        have "yields (dequeue now q2) (\<lambda>(r, q'). departs r q2 q')"
          using 1(2)[OF n refl ix False r(1) refl None on ok2] .
        moreover have "departs r q q'" if "departs r q2 q'" for r q'
        proof (rule departs_after[OF _ _ _ _ _ that])
          show "\<forall>j<FLOWS. suffix (waiting q2 j) (waiting q j)" using w serves_suffix[OF s] by simp
        qed (use r None in \<open>simp_all add: q2_def serves_def\<close>)
        ultimately show ?thesis unfolding eq yields_def by fastforce
      next
        case (Some p)
        define q2 where "q2 = set_flow i ((q_flows q1 ! i)\<lparr>fl_deficit := fl_deficit (q_flows q1 ! i) - int (length p)\<rparr>) q1"
        have eq: "dequeue now q = Ok (Some p, q2)" using n ix False r Some i len1
          by (subst dequeue.simps) (simp add: on_flow_def q2_def out_simps)
        have fl: "fl_listed (q_flows q2 ! j) = fl_listed (q_flows q1 ! j)" "waiting q2 j = waiting q1 j"
          if "j < FLOWS" for j
          using that len1 by (cases "j = i"; simp add: q2_def)+
        have "counts_ok q2" unfolding q2_def using queue_ok_counts[OF ok1] i by (intro counts_same) simp_all
        then have ok2: "queue_ok q2"
          using ok1 fl listed_frame[of q1 q2] by (simp add: queue_ok_def q2_def)
        have split: "waiting q i = butlast ds @ last ds # waiting q2 i"
          using r Some fl(2)[OF i] by (simp add: serves_def)
        have "departs (Some p) q q2" unfolding departs_def
          using ok2 s r Some serves_suffix[OF s] fl split i
          by (auto simp: q2_def serves_def accounted_def)
        then show ?thesis by (simp add: eq)
      qed
    qed
  qed
qed

text \<open>Below the target, or with no more than a quantum behind it, the head of a bucket is delivered as
  it came.\<close>

lemma codel_under_target:
  assumes q: "counts_ok q" and i: "i < FLOWS" and w: "waiting q i = x # rest"
    and calm: "now - qd_at x < q_target q \<or> sum_list (map size_of rest) \<le> QUANTUM"
  shows "\<exists>q'. codel i now q = Ok (Some (qd_packet x), q') \<and> serves i [x] 1 q q'"
proof -
  obtain overdue q1 where t: "take_head i now q = Ok (Some (qd_packet x, overdue), q1)" "serves i [x] 1 q q1"
      "overdue \<longrightarrow> q_target q \<le> now - qd_at x \<and> QUANTUM < sum_list (map size_of rest)"
    using take_head_serves[OF q i w, of now] by (auto elim!: yieldsE)
  have fresh: "\<not> overdue" using t(3) calm by auto
  note q1 = serves_counts[OF t(2)]
  have ix: "(index (q_flows q1) i :: (unit, flow) outcome) = Ok (q_flows q1 ! i)"
    using i counts_length[OF q1] by (simp add: index_def)
  have "serves i [x] 1 q (set_flow i ((q_flows q1 ! i)\<lparr>fl_dropping := False\<rparr>) q1)"
    using serves_trans[OF t(2) serves_set_flow[OF q1 i]] by simp
  then show ?thesis using fresh t ix by (auto simp: codel_def)
qed

section \<open>Stale packets\<close>

abbreviation stale :: "instant \<Rightarrow> duration \<Rightarrow> queued \<Rightarrow> bool" where
  "stale now age x \<equiv> age \<le> now - qd_at x"

lemma drop_old_while: "drop_old now age xs = (takeWhile (stale now age) xs, dropWhile (stale now age) xs)"
  by (induction xs) auto

lemma uncount_all_eq:
  assumes "i < length (q_flows q)" "sum_list (map size_of old) \<le> fl_bytes (q_flows q ! i)"
    "sum_list (map size_of old) \<le> q_bytes q" "length old \<le> q_packets q"
  shows "uncount_all i old q = Ok ((set_flow i ((q_flows q ! i)\<lparr>fl_bytes := fl_bytes (q_flows q ! i) -
      sum_list (map size_of old)\<rparr>) q)\<lparr>q_bytes := q_bytes q - sum_list (map size_of old),
      q_packets := q_packets q - length old\<rparr>)"
  using assms
proof (induction old arbitrary: q)
  case Nil
  then show ?case by (simp add: set_flow_def)
next
  case (Cons x old)
  define q1 where "q1 = (set_flow i ((q_flows q ! i)\<lparr>fl_bytes := fl_bytes (q_flows q ! i) - size_of x\<rparr>) q)
      \<lparr>q_bytes := q_bytes q - size_of x, q_packets := q_packets q - 1\<rparr>"
  have "uncount i (size_of x) q = Ok q1"
    using Cons.prems by (simp add: uncount_def out_simps q1_def)
  moreover have "uncount_all i old q1 = Ok ((set_flow i ((q_flows q1 ! i)\<lparr>fl_bytes := fl_bytes (q_flows q1 ! i) -
      sum_list (map size_of old)\<rparr>) q1)\<lparr>q_bytes := q_bytes q1 - sum_list (map size_of old),
      q_packets := q_packets q1 - length old\<rparr>)"
    by (rule Cons.IH) (use Cons.prems in \<open>simp_all add: q1_def\<close>)
  ultimately show ?case using Cons.prems by (simp add: q1_def set_flow_def)
qed

text \<open>The buckets looked at have lost their stale fronts, \<open>n\<close> packets in all.\<close>

definition aged :: "nat list \<Rightarrow> instant \<Rightarrow> duration \<Rightarrow> nat \<Rightarrow> inner \<Rightarrow> inner \<Rightarrow> bool" where
  "aged idxs now age n q q' \<longleftrightarrow>
     counts_ok q' \<and> q_fresh q' = q_fresh q \<and> q_backlogged q' = q_backlogged q \<and>
     q_closed q' = q_closed q \<and> q_interval q' = q_interval q \<and> q_target q' = q_target q \<and>
     q_bytes q' \<le> q_bytes q \<and> q_packets q' + n = q_packets q \<and> accounted q' + int n = accounted q \<and>
     (\<forall>j<FLOWS. fl_listed (q_flows q' ! j) = fl_listed (q_flows q ! j) \<and>
        fl_deficit (q_flows q' ! j) = fl_deficit (q_flows q ! j) \<and>
        waiting q' j = (if j \<in> set idxs then dropWhile (stale now age) (waiting q j) else waiting q j))"

lemma age_bucket:
  fixes now age
  assumes q: "counts_ok q" and i: "i < FLOWS"
  defines "old \<equiv> takeWhile (stale now age) (waiting q i)"
  defines "kept \<equiv> dropWhile (stale now age) (waiting q i)"
  obtains q1 q2 where "uncount_all i old (set_flow i ((q_flows q ! i)\<lparr>fl_packets := kept\<rparr>) q) = Ok q1"
    "on_flow i (\<lambda>f. f\<lparr>fl_above := None, fl_dropping := False\<rparr>) q1 = Ok q2"
    "aged [i] now age (length old) q q2"
proof -
  have len: "length (q_flows q) = FLOWS" by (rule counts_length[OF q])
  have w: "waiting q i = old @ kept" by (simp add: old_def kept_def)
  have le: "sum_list (map size_of old) \<le> fl_bytes (q_flows q ! i)" "length old \<le> q_packets q"
    "fl_bytes (q_flows q ! i) \<le> q_bytes q"
    using counts_flow[OF q i] counts_le[OF q i] w by auto
  define f where "f = (q_flows q ! i)\<lparr>fl_packets := kept, fl_bytes := fl_bytes (q_flows q ! i) - sum_list (map size_of old)\<rparr>"
  define q1 where "q1 = (set_flow i f q)\<lparr>q_bytes := q_bytes q - sum_list (map size_of old),
      q_packets := q_packets q - length old\<rparr>"
  define q2 where "q2 = set_flow i (f\<lparr>fl_above := None, fl_dropping := False\<rparr>) q1"
  have u: "uncount_all i old (set_flow i ((q_flows q ! i)\<lparr>fl_packets := kept\<rparr>) q) = Ok q1"
    using uncount_all_eq[of i "set_flow i ((q_flows q ! i)\<lparr>fl_packets := kept\<rparr>) q" old] i len le
    by (simp add: q1_def f_def set_flow_def)
  have c1: "counts_ok q1" unfolding q1_def using le w counts_flow[OF q i]
    by (intro counts_set_flow[OF q i, where a = 0 and c = 0 and b = "sum_list (map size_of old)" and d = "length old"])
      (simp_all add: f_def)
  have f1: "q_flows q1 ! i = f" "length (q_flows q1) = FLOWS" using i len by (simp_all add: q1_def)
  have "on_flow i (\<lambda>f. f\<lparr>fl_above := None, fl_dropping := False\<rparr>) q1 = Ok q2"
    using i f1 by (simp add: on_flow_def q2_def out_simps)
  moreover have "counts_ok q2" unfolding q2_def using c1 i f1 by (intro counts_same) simp_all
  moreover have "fl_listed (q_flows q2 ! j) = fl_listed (q_flows q ! j)"
    "fl_deficit (q_flows q2 ! j) = fl_deficit (q_flows q ! j)"
    "waiting q2 j = (if j \<in> set [i] then dropWhile (stale now age) (waiting q j) else waiting q j)"
    if "j < FLOWS" for j
    using that len by (cases "j = i"; simp add: q2_def q1_def f_def kept_def)+
  moreover have "q_fresh q2 = q_fresh q \<and> q_backlogged q2 = q_backlogged q \<and> q_closed q2 = q_closed q \<and>
      q_interval q2 = q_interval q \<and> q_target q2 = q_target q \<and> q_bytes q2 \<le> q_bytes q \<and>
      q_packets q2 + length old = q_packets q"
    using le by (simp add: q2_def q1_def)
  moreover have "accounted q2 + int (length old) = accounted q" using le by (simp add: q2_def q1_def accounted_def)
  ultimately show ?thesis by (intro that[OF u]) (auto simp: aged_def)
qed

lemma aged_trans: "aged is now age m q q' \<Longrightarrow> aged js now age n q' q'' \<Longrightarrow> aged (is @ js) now age (m + n) q q''"
  by (auto simp: aged_def dropWhile_idem)

lemma drop_older_from_aged:
  "counts_ok q \<Longrightarrow> \<forall>i\<in>set idxs. i < FLOWS \<Longrightarrow>
     yields (drop_older_from idxs now age d q) (\<lambda>(n, q'). \<exists>m. n = d + m \<and> aged idxs now age m q q')"
proof (induction idxs arbitrary: d q)
  case Nil
  then show ?case by (simp add: aged_def)
next
  case (Cons i idxs)
  then have i: "i < FLOWS" by simp
  have len: "length (q_flows q) = FLOWS" by (rule counts_length[OF Cons.prems(1)])
  obtain q1 q2 where s: "uncount_all i (takeWhile (stale now age) (waiting q i))
        (set_flow i ((q_flows q ! i)\<lparr>fl_packets := dropWhile (stale now age) (waiting q i)\<rparr>) q) = Ok q1"
      "on_flow i (\<lambda>f. f\<lparr>fl_above := None, fl_dropping := False\<rparr>) q1 = Ok q2"
      "aged [i] now age (length (takeWhile (stale now age) (waiting q i))) q q2"
    by (rule age_bucket[OF Cons.prems(1) i])
  let ?n = "length (takeWhile (stale now age) (waiting q i))"
  have eq: "drop_older_from (i # idxs) now age d q = drop_older_from idxs now age (d + ?n) q2"
    using i len s by (simp add: drop_old_while out_simps)
  have "yields (drop_older_from idxs now age (d + ?n) q2) (\<lambda>(n, q'). \<exists>m. n = d + ?n + m \<and> aged idxs now age m q2 q')"
    using s(3) Cons.prems by (intro Cons.IH) (simp_all add: aged_def)
  then obtain m q' where "drop_older_from idxs now age (d + ?n) q2 = Ok (d + ?n + m, q')" "aged idxs now age m q2 q'"
    by (auto elim!: yieldsE)
  then show ?case using eq aged_trans[OF s(3)] by auto
qed

lemma drop_older_than_sheds:
  assumes "counts_ok q"
  shows "yields (drop_older_than now age q) (\<lambda>(n, q'). sheds suffix q q' \<and> q_bytes q' \<le> q_bytes q \<and>
    q_packets q' + n = q_packets q \<and>
    (\<forall>j<FLOWS. waiting q' j = dropWhile (stale now age) (waiting q j)))"
proof -
  have len: "length (q_flows q) = FLOWS" by (rule counts_length[OF assms])
  obtain n q1 where d: "drop_older_from [0..<FLOWS] now age 0 q = Ok (n, q1)" "aged [0..<FLOWS] now age n q q1"
    using drop_older_from_aged[OF assms, of "[0..<FLOWS]" now age 0] by (auto elim!: yieldsE)
  have "suffix (dropWhile (stale now age) xs) xs" for xs by (simp add: suffix_dropWhile)
  then show ?thesis using d len
    by (simp add: drop_older_than_def sheds_def aged_def counts_ok_def accounted_def)
qed

section \<open>Every queue the operations reach\<close>

text \<open>The clock does not run backwards, and a packet fits the queue (the device hands over at most
  65535 bytes).\<close>

inductive queue_reach :: "instant \<Rightarrow> inner \<Rightarrow> bool" where
  start: "queue_reach now queue_new"
| pushed: "queue_reach before q \<Longrightarrow> before \<le> now \<Longrightarrow> length p \<le> LIMIT_BYTES \<Longrightarrow>
    push p now q = Some (Ok (taken, q')) \<Longrightarrow> queue_reach now q'"
| popped: "queue_reach before q \<Longrightarrow> before \<le> now \<Longrightarrow> pop_batch room now q = Ok (r, q') \<Longrightarrow> queue_reach now q'"
| staled: "queue_reach before q \<Longrightarrow> before \<le> now \<Longrightarrow> drop_stale now q = Ok (n, q') \<Longrightarrow> queue_reach now q'"
| measured: "queue_reach now q \<Longrightarrow> queue_reach now (observe_rtt rtt q)"
| closed: "queue_reach now q \<Longrightarrow> queue_reach now (close q)"
| reported: "queue_reach now q \<Longrightarrow> queue_reach now (snd (stats q))"

definition timely :: "instant \<Rightarrow> inner \<Rightarrow> bool" where
  "timely now q \<longleftrightarrow> (\<forall>i<FLOWS. sorted (map qd_at (waiting q i)) \<and> (\<forall>x\<in>set (waiting q i). qd_at x \<le> now))"

definition paced :: "inner \<Rightarrow> bool" where
  "paced q \<longleftrightarrow> INTERVAL_FLOOR \<le> q_interval q \<and> q_interval q \<le> INTERVAL_CEILING \<and>
     q_target q = q_interval q div TARGET_SHARE"

definition queue_inv :: "instant \<Rightarrow> inner \<Rightarrow> bool" where
  "queue_inv now q \<longleftrightarrow> queue_ok q \<and> timely now q \<and> q_bytes q \<le> LIMIT_BYTES \<and> paced q"

lemma sorted_subseq: "subseq xs ys \<Longrightarrow> sorted (map f ys) \<Longrightarrow> sorted (map f xs)"
  by (induction rule: list_emb.induct) (auto dest: list_emb_set)

lemma timely_shrink:
  assumes "timely before q" "before \<le> now" "\<And>i. i < FLOWS \<Longrightarrow> subseq (waiting q' i) (waiting q i)"
  shows "timely now q'"
proof -
  have "set (waiting q' i) \<subseteq> set (waiting q i)" if "i < FLOWS" for i
    using list_emb_set[OF assms(3)[OF that]] by blast
  then show ?thesis using assms sorted_subseq[OF assms(3)] unfolding timely_def
    by (meson le_trans subsetD)
qed

lemma queue_inv_new: "queue_inv now queue_new"
  unfolding queue_inv_def queue_ok_def counts_ok_def listed_ok_def timely_def paced_def
  by (simp add: queue_new_def flow_default_def INTERVAL_def INTERVAL_FLOOR_def INTERVAL_CEILING_def
      from_millis_def sum_list_replicate)

text \<open>Fewer packets, no more bytes.\<close>

lemma counts_bytes:
  assumes "counts_ok q"
  shows "q_bytes q = (\<Sum>i\<leftarrow>[0..<FLOWS]. sum_list (map size_of (waiting q i)))"
proof -
  have len: "length (q_flows q) = FLOWS" by (rule counts_length[OF assms])
  have "map fl_bytes (q_flows q) = map (\<lambda>i. fl_bytes (q_flows q ! i)) [0..<FLOWS]"
    using len by (intro nth_equalityI) simp_all
  also have "\<dots> = map (\<lambda>i. sum_list (map size_of (waiting q i))) [0..<FLOWS]"
    using counts_flow[OF assms] by simp
  finally show ?thesis using assms by (simp add: counts_ok_def)
qed

lemma sum_subseq: "subseq xs ys \<Longrightarrow> sum_list (map f xs) \<le> (sum_list (map f ys) :: nat)"
  by (induction rule: list_emb.induct) auto

lemma fewer_bytes:
  assumes "counts_ok q" "counts_ok q'" "\<And>i. i < FLOWS \<Longrightarrow> subseq (waiting q' i) (waiting q i)"
  shows "q_bytes q' \<le> q_bytes q"
  unfolding counts_bytes[OF assms(1)] counts_bytes[OF assms(2)]
  by (rule sum_list_mono) (use assms(3) sum_subseq in auto)

text \<open>An operation that lets packets go keeps the invariant.\<close>

lemma shrink_inv:
  assumes "queue_inv before q" "before \<le> now" "queue_ok q'"
    and "\<And>i. i < FLOWS \<Longrightarrow> subseq (waiting q' i) (waiting q i)"
    and "q_interval q' = q_interval q" "q_target q' = q_target q"
  shows "queue_inv now q'"
proof -
  have q: "counts_ok q" "timely before q" "q_bytes q \<le> LIMIT_BYTES" "paced q"
    using assms(1) by (simp_all add: queue_inv_def queue_ok_def)
  have "timely now q'" by (rule timely_shrink[OF q(2) assms(2,4)])
  moreover have "q_bytes q' \<le> q_bytes q" by (rule fewer_bytes[OF q(1) queue_ok_counts[OF assms(3)] assms(4)])
  ultimately show ?thesis using assms(3,5,6) q by (simp add: queue_inv_def paced_def)
qed

lemma departs_inv: "departs r q q' \<Longrightarrow> queue_inv before q \<Longrightarrow> before \<le> now \<Longrightarrow> queue_inv now q'"
  by (rule shrink_inv[of before q]) (simp_all add: departs_def suffix_subseq)

lemma sheds_inv:
  assumes "sheds subseq q q'" "queue_inv before q" "before \<le> now"
  shows "queue_inv now q'"
proof (rule shrink_inv[OF assms(2,3)])
  show "queue_ok q'" using assms(1,2) sheds_queue_ok by (simp add: queue_inv_def)
qed (use assms(1) in \<open>simp_all add: sheds_def\<close>)

text \<open>One batch: as many departures as packets, the last of them possibly in vain.\<close>

lemma fill_batch_departs:
  "queue_inv before q \<Longrightarrow> before \<le> now \<Longrightarrow>
     yields (fill_batch room now q) (\<lambda>(ps, q'). queue_inv now q' \<and> q_closed q' = q_closed q \<and>
       accounted q' + int (length ps) = accounted q \<and> length ps \<le> room \<and>
       (length ps < room \<longrightarrow> (\<forall>j<FLOWS. waiting q' j = [])) \<and>
       (\<forall>j<FLOWS. suffix (waiting q' j) (waiting q j)))"
proof (induction room arbitrary: before q)
  case 0
  then have "queue_inv now q"
    by (intro shrink_inv[OF 0]) (simp_all add: queue_inv_def)
  then show ?case by simp
next
  case (Suc room)
  obtain r q1 where d: "dequeue now q = Ok (r, q1)" "departs r q q1"
    using dequeue_departs[of q now] Suc.prems by (auto simp: queue_inv_def elim!: yieldsE)
  note inv1 = departs_inv[OF d(2) Suc.prems]
  show ?case
  proof (cases r)
    case None
    then show ?thesis using d inv1 by (simp add: departs_def)
  next
    case (Some p)
    obtain ps q' where f: "fill_batch room now q1 = Ok (ps, q')" "queue_inv now q'" "q_closed q' = q_closed q1"
        "accounted q' + int (length ps) = accounted q1" "length ps \<le> room"
        "length ps < room \<longrightarrow> (\<forall>j<FLOWS. waiting q' j = [])"
        "\<forall>j<FLOWS. suffix (waiting q' j) (waiting q1 j)"
      using Suc.IH[OF inv1 le_refl] by (auto elim!: yieldsE)
    have "\<forall>j<FLOWS. suffix (waiting q' j) (waiting q j)"
      using f(7) d(2) unfolding departs_def by (meson suffix_order.trans)
    then show ?thesis using d f Some by (simp add: departs_def)
  qed
qed

end
