(* ===== verification/Queue_Properties.thy ===== *)
theory Queue_Properties
  imports Queue_Service
begin

text \<open>
  The properties of the packet queue, over every queue its operations can reach from an empty one:
  no panic and no loop without end, counters that agree with the contents, a byte limit that holds,
  no packet unaccounted for, order within a flow, no wait for a flow that has just started, and the
  rules by which acknowledgements and stale packets are let go.
\<close>

section \<open>Operations keep the invariant\<close>

lemma timely_bucket:
  assumes "timely before q" "before \<le> now" "i < FLOWS" "subseq xs (waiting q i)"
  shows "sorted (map qd_at xs) \<and> (\<forall>y\<in>set xs. qd_at y \<le> now)"
proof (intro conjI ballI)
  show "sorted (map qd_at xs)" using sorted_subseq[OF assms(4), of qd_at] assms(1,3) by (simp add: timely_def)
  fix y assume "y \<in> set xs"
  then have "y \<in> set (waiting q i)" using list_emb_set[OF assms(4)] by blast
  then have "qd_at y \<le> before" using assms(1,3) by (simp add: timely_def)
  then show "qd_at y \<le> now" using assms(2) by simp
qed

lemma timely_arrives:
  assumes t: "timely before q" "before \<le> now" and a: "arrives i x q q'" and x: "qd_at x = now" and i: "i < FLOWS"
  shows "timely now q'"
  unfolding timely_def
proof (intro allI impI)
  fix j assume j: "j < FLOWS"
  show "sorted (map qd_at (waiting q' j)) \<and> (\<forall>y\<in>set (waiting q' j). qd_at y \<le> now)"
  proof (cases "j = i")
    case True
    obtain kept where k: "subseq kept (waiting q i)" "waiting q' i = kept @ [x]"
      using a by (auto simp: arrives_def)
    then show ?thesis using True x timely_bucket[OF t i k(1)] by (simp add: sorted_append)
  next
    case False
    then have "subseq (waiting q' j) (waiting q j)" using a j by (simp add: arrives_def suffix_subseq)
    then show ?thesis by (rule timely_bucket[OF t j])
  qed
qed

lemma push_yields:
  assumes q: "queue_inv before q" "before \<le> now" and i: "flow_of p = Ok i"
  shows "\<exists>q'. push p now q = Some (Ok (\<not> q_closed q, q')) \<and>
    (length p \<le> LIMIT_BYTES \<longrightarrow> queue_inv now q') \<and>
    (if q_closed q then q' = q else arrives i \<lparr>qd_packet = p, qd_at = now\<rparr> q q')"
proof (cases "q_closed q")
  case True
  then show ?thesis using q shrink_inv[OF q, of q] by (simp add: push_def queue_inv_def)
next
  case False
  have ok: "queue_ok q" using q by (simp add: queue_inv_def)
  have iF: "i < FLOWS" using flow_of_total[of p] i by auto
  obtain q' where e: "enqueue p now q = Some (Ok q')" "arrives i \<lparr>qd_packet = p, qd_at = now\<rparr> q q'"
      "q_bytes q' \<le> max LIMIT_BYTES (length p)"
    using enqueue_arrives[OF ok i, of now] by blast
  have "timely now q'" using timely_arrives[OF _ q(2) e(2) _ iF] q(1) by (simp add: queue_inv_def)
  then have "length p \<le> LIMIT_BYTES \<longrightarrow> queue_inv now q'"
    using e q(1) by (auto simp: queue_inv_def arrives_def paced_def)
  then show ?thesis using False e by (simp add: push_def)
qed

lemma pop_batch_yields:
  assumes q: "queue_inv before q" "before \<le> now"
  shows "yields (pop_batch room now q) (\<lambda>(r, q'). queue_inv now q' \<and> q_closed q' = q_closed q \<and>
    (\<forall>j<FLOWS. suffix (waiting q' j) (waiting q j)) \<and>
    (case r of
       Some (True, ps) \<Rightarrow> ps \<noteq> [] \<and> length ps \<le> room \<and> accounted q' + int (length ps) = accounted q \<and>
         (length ps < room \<longrightarrow> (\<forall>j<FLOWS. waiting q' j = []))
     | Some (False, ps) \<Rightarrow> ps = [] \<and> q_closed q \<and> accounted q' = accounted q \<and>
         (0 < room \<longrightarrow> (\<forall>j<FLOWS. waiting q' j = []))
     | None \<Rightarrow> \<not> q_closed q \<and> accounted q' = accounted q \<and>
         (0 < room \<longrightarrow> (\<forall>j<FLOWS. waiting q' j = []))))"
  using fill_batch_departs[OF q, of room] by (auto simp: pop_batch_def elim!: yieldsE)

lemma drop_stale_yields:
  assumes q: "queue_inv before q" "before \<le> now"
  shows "yields (drop_stale now q) (\<lambda>(n, q'). queue_inv now q' \<and> sheds suffix q q' \<and>
    q_packets q' + n = q_packets q \<and>
    (\<forall>j<FLOWS. waiting q' j = dropWhile (stale now STALE_AFTER) (waiting q j)))"
proof -
  have "counts_ok q" using q by (simp add: queue_inv_def queue_ok_def)
  then obtain n q' where "drop_stale now q = Ok (n, q')" "sheds suffix q q'" "q_packets q' + n = q_packets q"
      "\<forall>j<FLOWS. waiting q' j = dropWhile (stale now STALE_AFTER) (waiting q j)"
    using drop_older_than_sheds[of q now STALE_AFTER] by (auto simp: drop_stale_def elim!: yieldsE)
  moreover from this have "queue_inv now q'"
    by (intro sheds_inv[OF sheds_mono[OF _ suffix_subseq] q])
  ultimately show ?thesis by simp
qed

lemma observe_rtt_inv: "queue_inv now q \<Longrightarrow> queue_inv now (observe_rtt rtt q)"
proof -
  assume q: "queue_inv now q"
  let ?q = "observe_rtt rtt q"
  have same: "q_flows ?q = q_flows q" "q_fresh ?q = q_fresh q" "q_backlogged ?q = q_backlogged q"
    "q_bytes ?q = q_bytes q" "q_packets ?q = q_packets q"
    by (simp_all add: observe_rtt_def Let_def)
  have "paced ?q"
    by (simp add: observe_rtt_def Let_def paced_def INTERVAL_FLOOR_def INTERVAL_CEILING_def from_millis_def)
  then show ?thesis using q same
    by (simp add: queue_inv_def queue_ok_def counts_ok_def listed_ok_def timely_def)
qed

lemma queue_inv_flags:
  "queue_inv now q \<Longrightarrow> queue_inv now (close q)" "queue_inv now q \<Longrightarrow> queue_inv now (snd (stats q))"
  by (simp_all add: queue_inv_def queue_ok_def counts_ok_def listed_ok_def timely_def paced_def close_def stats_def)

lemma queue_reach_inv: "queue_reach now q \<Longrightarrow> queue_inv now q"
proof (induction rule: queue_reach.induct)
  case (start now)
  show ?case by (rule queue_inv_new)
next
  case (pushed before q now p taken q')
  obtain i where "flow_of p = Ok i" using flow_of_total by blast
  from push_yields[OF pushed.IH pushed.hyps(2) this] pushed.hyps(3,4) show ?case by auto
next
  case (popped before q now room r q')
  then show ?case using yieldsD[OF pop_batch_yields] by fastforce
next
  case (staled before q now n q')
  then show ?case using yieldsD[OF drop_stale_yields] by fastforce
qed (auto intro: observe_rtt_inv queue_inv_flags)

lemma queue_inv_returns:
  assumes "queue_inv before q" "before \<le> now"
  shows "\<exists>taken q'. push p now q = Some (Ok (taken, q'))" "\<exists>r q'. pop_batch room now q = Ok (r, q')"
    "\<exists>n q'. drop_stale now q = Ok (n, q')"
proof -
  obtain i where i: "flow_of p = Ok i" using flow_of_total by blast
  show "\<exists>taken q'. push p now q = Some (Ok (taken, q'))" "\<exists>r q'. pop_batch room now q = Ok (r, q')"
    "\<exists>n q'. drop_stale now q = Ok (n, q')"
    using push_yields[OF assms i] pop_batch_yields[OF assms, of room] drop_stale_yields[OF assms]
    by (auto elim!: yieldsE)
qed

section \<open>The properties\<close>

text \<open>C3. On every queue the operations reach, a push, a batch and the dropping of stale packets return:
  no index is out of range, no counter goes below zero, and the loop that makes room ends.\<close>

theorem queue_never_stuck:
  assumes "queue_reach before q" "before \<le> now"
  shows "(\<exists>taken q'. push p now q = Some (Ok (taken, q'))) \<and> (\<exists>r q'. pop_batch room now q = Ok (r, q')) \<and>
    (\<exists>n q'. drop_stale now q = Ok (n, q'))"
  using queue_inv_returns[OF queue_reach_inv[OF assms(1)] assms(2)] by blast

theorem queue_never_stuck_witness:
  "(\<exists>taken q'. push [0x45] 5 queue_new = Some (Ok (taken, q'))) \<and> (\<exists>r q'. pop_batch 64 5 queue_new = Ok (r, q')) \<and>
    (\<exists>n q'. drop_stale 5 queue_new = Ok (n, q'))"
  by (rule queue_never_stuck[OF queue_reach.start[of 3]]) simp

text \<open>C1. On every queue the operations reach, the counters are those of the contents, the bytes waiting are
  within the limit, a bucket that holds packets is in service, no bucket is in service twice, and the
  interval CoDel works with is between its floor and its ceiling.\<close>

theorem queue_invariant:
  assumes "queue_reach now q"
  shows "q_packets q = (\<Sum>i\<leftarrow>[0..<FLOWS]. length (fl_packets (q_flows q ! i))) \<and>
    q_bytes q = (\<Sum>i\<leftarrow>[0..<FLOWS]. sum_list (map (\<lambda>x. length (qd_packet x)) (fl_packets (q_flows q ! i)))) \<and>
    q_bytes q \<le> LIMIT_BYTES \<and> distinct (q_fresh q @ q_backlogged q) \<and>
    (\<forall>i<FLOWS. fl_packets (q_flows q ! i) \<noteq> [] \<longrightarrow> i \<in> set (q_fresh q @ q_backlogged q)) \<and>
    INTERVAL_FLOOR \<le> q_interval q \<and> q_interval q \<le> INTERVAL_CEILING"
proof -
  have inv: "queue_inv now q" by (rule queue_reach_inv[OF assms])
  then have c: "counts_ok q" and l: "listed_ok q" by (simp_all add: queue_inv_def queue_ok_def)
  have len: "length (q_flows q) = FLOWS" by (rule counts_length[OF c])
  have "map (\<lambda>f. length (fl_packets f)) (q_flows q) = map (\<lambda>i. length (waiting q i)) [0..<FLOWS]"
    using len by (intro nth_equalityI) simp_all
  then have "q_packets q = (\<Sum>i\<leftarrow>[0..<FLOWS]. length (waiting q i))" using c by (simp add: counts_ok_def)
  moreover have "i \<in> set (q_fresh q @ q_backlogged q)" if "i < FLOWS" "waiting q i \<noteq> []" for i
    using l that by (simp add: listed_ok_def)
  ultimately show ?thesis using inv l counts_bytes[OF c] by (simp add: queue_inv_def paced_def listed_ok_def)
qed

text \<open>A queue with one packet in it.\<close>

lemma one_pushed:
  obtains q where "push [0x45] 5 queue_new = Some (Ok (True, q))" "queue_reach 5 q" "accounted q = 1"
    "\<exists>i<FLOWS. waiting q i = [\<lparr>qd_packet = [0x45], qd_at = 5\<rparr>]"
proof -
  obtain i where i: "flow_of [0x45] = Ok i" "i < FLOWS" using flow_of_total by blast
  obtain q where q: "push [0x45] 5 queue_new = Some (Ok (True, q))" "arrives i \<lparr>qd_packet = [0x45], qd_at = 5\<rparr> queue_new q"
    using push_yields[OF queue_inv_new le_refl i(1)] by (auto simp: queue_new_def)
  have "waiting q i = [\<lparr>qd_packet = [0x45], qd_at = 5\<rparr>]"
    using q(2) i(2) by (auto simp: arrives_def queue_new_def flow_default_def)
  moreover have "accounted q = 1"
    using q(2) by (simp add: arrives_def) (simp add: accounted_def queue_new_def)
  ultimately show ?thesis
    using that[OF q(1) queue_reach.pushed[OF queue_reach.start le_refl _ q(1)]] i(2)
    by (auto simp: LIMIT_BYTES_def)
qed

theorem queue_invariant_witness:
  "\<exists>q. push [0x45] 5 queue_new = Some (Ok (True, q)) \<and> q_bytes q \<le> LIMIT_BYTES"
proof -
  obtain q where "push [0x45] 5 queue_new = Some (Ok (True, q))" "queue_reach 5 q" by (rule one_pushed)
  then show ?thesis using queue_invariant by blast
qed



text \<open>Dropping stale packets takes exactly those that have waited a second or more, from every flow.\<close>

theorem drop_stale_exact:
  assumes "queue_reach before q" "before \<le> now"
  shows "\<exists>n q'. drop_stale now q = Ok (n, q') \<and>
    (\<forall>j<FLOWS. fl_packets (q_flows q' ! j) = filter (\<lambda>x. now - qd_at x < STALE_AFTER) (fl_packets (q_flows q ! j))) \<and>
    q_packets q' + n = q_packets q"
proof -
  note inv = queue_reach_inv[OF assms(1)]
  have while: "sorted (map qd_at xs) \<Longrightarrow> dropWhile (stale now age) xs = filter (\<lambda>x. now - qd_at x < age) xs" for xs age
  proof (induction xs)
    case (Cons x xs)
    then show ?case by (fastforce intro!: filter_True[symmetric])
  qed simp
  have "dropWhile (stale now STALE_AFTER) (waiting q j) = filter (\<lambda>x. now - qd_at x < STALE_AFTER) (waiting q j)"
    if "j < FLOWS" for j
    using while inv that by (simp add: queue_inv_def timely_def)
  then show ?thesis using drop_stale_yields[OF inv assms(2)] by (auto elim!: yieldsE)
qed

theorem drop_stale_exact_witness:
  "\<exists>q n q'. push [0x45] 5 queue_new = Some (Ok (True, q)) \<and> drop_stale (from_secs 2) q = Ok (n, q')"
proof -
  obtain q where "push [0x45] 5 queue_new = Some (Ok (True, q))" "queue_reach 5 q" by (rule one_pushed)
  then show ?thesis using drop_stale_exact[of 5 q "from_secs 2"] by (auto simp: from_secs_def)
qed

section \<open>Nothing is withheld\<close>

text \<open>CoDel never drops the last packet of a bucket: what it drops has more than a quantum behind it.\<close>

lemma sum_pos_Cons: "(0::nat) < sum_list (map f xs) \<Longrightarrow> xs \<noteq> []"
  by auto

lemma codel_drop_some:
  "counts_ok q \<Longrightarrow> i < FLOWS \<Longrightarrow> (fl_dropping (q_flows q ! i) \<longrightarrow> waiting q i \<noteq> []) \<Longrightarrow>
     on_ok (codel_drop i now packet q) (\<lambda>(r, _). r \<noteq> None)"
proof (induction i now packet q rule: codel_drop.induct)
  case (1 i now packet q)
  note q = 1(2) note i = 1(3) note more = 1(4)
  have len: "length (q_flows q) = FLOWS" by (rule counts_length[OF q])
  define f where "f = q_flows q ! i"
  have ix: "(index (q_flows q) i :: (unit, flow) outcome) = Ok f" using i len by (simp add: index_def f_def)
  show ?case
  proof (cases "fl_dropping f \<and> due f now")
    case False
    then show ?thesis using ix by (subst codel_drop.simps) auto
  next
    case True
    define q0 where "q0 = set_flow i (f\<lparr>fl_count := fl_count f + 1\<rparr>) q"
    have s0: "serves i [] 0 q q0" unfolding q0_def using q i by (intro serves_set_flow) (simp_all add: f_def)
    obtain m p1 q1 where m: "mark packet q0 = Ok (m, p1, q1)" "serves i [] 0 q0 q1"
      using mark_serves[OF serves_counts[OF s0], of packet i] by (auto elim!: yieldsE)
    have s1: "serves i [] 0 q q1" using serves_trans[OF s0 m(2)] by simp
    show ?thesis
    proof (cases m)
      case True
      then show ?thesis using m ix \<open>fl_dropping f \<and> due f now\<close>
        by (subst codel_drop.simps) (simp add: q0_def[symmetric] on_ok_and_then)
    next
      case False
      define q2 where "q2 = q1\<lparr>q_over_target := q_over_target q1 + 1\<rparr>"
      have s2: "serves i [] (- 1) q q2"
        using serves_trans[OF s1 over_target_serves[OF serves_counts[OF s1]]] by (simp add: q2_def)
      note q2 = serves_counts[OF s2]
      have "waiting q2 i \<noteq> []" using more True s2 by (simp add: serves_def f_def)
      then obtain x rest where w: "waiting q2 i = x # rest" by (cases "waiting q2 i") auto
      obtain overdue q3 where t: "take_head i now q2 = Ok (Some (qd_packet x, overdue), q3)" "serves i [x] 1 q2 q3"
          "overdue \<longrightarrow> QUANTUM < sum_list (map size_of rest)"
        using take_head_serves[OF q2 i w, of now] by (auto elim!: yieldsE)
      note q3 = serves_counts[OF t(2)]
      have w3: "waiting q3 i = rest" using t(2) w by (simp add: serves_def)
      have len3: "length (q_flows q3) = FLOWS" by (rule counts_length[OF q3])
      obtain q4 where q4: "(if overdue then schedule_next i now q3
            else on_flow i (\<lambda>f. f\<lparr>fl_dropping := False\<rparr>) q3) = Ok q4" "counts_ok q4"
          "fl_dropping (q_flows q4 ! i) \<longrightarrow> waiting q4 i \<noteq> []"
      proof (cases overdue)
        case True
        obtain q4 where "schedule_next i now q3 = Ok q4" "serves i [] 0 q3 q4"
          using schedule_next_serves[OF q3 i] by (auto elim!: yieldsE)
        moreover have "rest \<noteq> []" using True t(3) by auto
        ultimately show ?thesis using that[of q4] True w3 by (simp add: serves_def)
      next
        case False
        have "counts_ok (set_flow i ((q_flows q3 ! i)\<lparr>fl_dropping := False\<rparr>) q3)"
          using q3 i by (intro counts_same) simp_all
        then show ?thesis
          using that[of "set_flow i ((q_flows q3 ! i)\<lparr>fl_dropping := False\<rparr>) q3"] False i len3
          by (simp add: on_flow_def out_simps)
      qed
      have "on_ok (codel_drop i now (qd_packet x) q4) (\<lambda>(r, _). r \<noteq> None)"
        using 1(1)[OF ix True m(1)[unfolded q0_def] refl refl False t(1)[unfolded q2_def] refl refl refl q4(1)
            q4(2) i q4(3)] .
      moreover have "codel_drop i now packet q = codel_drop i now (qd_packet x) q4"
        using False m t ix True q4(1)
        by (subst codel_drop.simps) (simp add: q0_def[symmetric] q2_def[symmetric] del: One_nat_def)
      ultimately show ?thesis by simp
    qed
  qed
qed

lemma codel_some:
  assumes q: "counts_ok q" and i: "i < FLOWS" and w: "waiting q i = x # rest"
  shows "on_ok (codel i now q) (\<lambda>(r, _). r \<noteq> None)"
proof -
  obtain overdue q1 where t: "take_head i now q = Ok (Some (qd_packet x, overdue), q1)" "serves i [x] 1 q q1"
      "overdue \<longrightarrow> QUANTUM < sum_list (map size_of rest)"
    using take_head_serves[OF q i w, of now] by (auto elim!: yieldsE)
  note q1 = serves_counts[OF t(2)]
  have w1: "waiting q1 i = rest" using t(2) w by (simp add: serves_def)
  have ix: "(index (q_flows q1) i :: (unit, flow) outcome) = Ok (q_flows q1 ! i)"
    using i counts_length[OF q1] by (simp add: index_def)
  show ?thesis
  proof (cases overdue)
    case False
    then show ?thesis using t ix by (auto simp: codel_def)
  next
    case True
    then obtain y ys where more: "rest = y # ys" using t(3) by (cases rest) auto
    obtain m p1 q2 where m: "mark (qd_packet x) q1 = Ok (m, p1, q2)" "serves i [] 0 q1 q2"
      using mark_serves[OF q1, of "qd_packet x" i] by (auto elim!: yieldsE)
    define q3 where "q3 = q2\<lparr>q_over_target := q_over_target q2 + 1\<rparr>"
    have s3: "serves i [] (- 1) q1 q3"
      using serves_trans[OF m(2) over_target_serves[OF serves_counts[OF m(2)]]] by (simp add: q3_def)
    then have w3: "waiting q3 i = y # ys" using w1 more by (simp add: serves_def)
    obtain o' q4 where n: "take_head i now q3 = Ok (Some (qd_packet y, o'), q4)"
      using take_head_serves[OF serves_counts[OF s3] i w3, of now] by (auto elim!: yieldsE)
    have "on_ok (codel_drop i now (qd_packet x) q1) (\<lambda>(r, _). r \<noteq> None)"
      by (rule codel_drop_some[OF q1 i]) (use w1 more in simp)
    then show ?thesis using True t m n ix
      by (cases m; cases "fl_dropping (q_flows q1 ! i)")
        (auto simp: codel_def on_ok_and_then Let_def q3_def[symmetric] simp del: One_nat_def)
  qed
qed

lemma dequeue_some:
  "queue_ok q \<Longrightarrow> j < FLOWS \<Longrightarrow> waiting q j \<noteq> [] \<Longrightarrow> on_ok (dequeue now q) (\<lambda>(r, _). r \<noteq> None)"
proof (induction now q rule: dequeue.induct)
  case (1 now q)
  note q = 1(3) note j = 1(4) note more = 1(5)
  have len: "length (q_flows q) = FLOWS" using q queue_ok_counts counts_length by blast
  show ?case
  proof (cases "next_bucket q")
    case None
    then show ?thesis using queue_empty[OF q None j] more by simp
  next
    case (Some iw)
    obtain i was_fresh where n: "next_bucket q = Some (i, was_fresh)" using Some by (cases iw) simp
    have i: "i < FLOWS" by (rule next_bucket_listed[OF q n])
    have ix: "(index (q_flows q) i :: (unit, flow) outcome) = Ok (q_flows q ! i)" using i len by (simp add: index_def)
    show ?thesis
    proof (cases "fl_deficit (q_flows q ! i) \<le> 0")
      case True
      define q1 where "q1 = to_backlog i (pop_service was_fresh (set_flow i
        ((q_flows q ! i)\<lparr>fl_deficit := fl_deficit (q_flows q ! i) + int QUANTUM\<rparr>) q))"
      have "waiting q1 j = waiting q j" using j len by (cases "j = i") (simp_all add: q1_def)
      then have "on_ok (dequeue now q1) (\<lambda>(r, _). r \<noteq> None)"
        using 1(1)[OF n refl ix True] rotate_ok[OF q n] j more by (simp add: q1_def)
      then show ?thesis using n ix True by (subst dequeue.simps) (simp add: q1_def)
    next
      case False
      obtain r q1 ds where r: "codel i now q = Ok (r, q1)" "case r of
          None \<Rightarrow> serves i ds 0 q q1 \<and> waiting q1 i = []
        | Some p \<Rightarrow> serves i ds 1 q q1 \<and> ds \<noteq> [] \<and> sent_as (qd_packet (last ds)) p"
        using codel_serves[OF queue_ok_counts[OF q] i, of now] by (auto elim!: yieldsE)
      show ?thesis
      proof (cases r)
        case None
        then have s: "serves i ds 0 q q1" "waiting q1 i = []" using r by simp_all
        have "waiting q i = []"
        proof (rule ccontr)
          assume "waiting q i \<noteq> []"
          then obtain x rest where "waiting q i = x # rest" by (cases "waiting q i") auto
          then show False using codel_some[OF queue_ok_counts[OF q] i, of x rest now] r(1) None by simp
        qed
        then have ij: "j \<noteq> i" using more by auto
        have ok1: "queue_ok q1" by (rule serves_queue_ok[OF q s(1) i])
        have len1: "length (q_flows q1) = FLOWS" using ok1 queue_ok_counts counts_length by blast
        define q2 where "q2 = set_flow i ((q_flows q1 ! i)\<lparr>fl_listed := False\<rparr>) (pop_service was_fresh q1)"
        have n1: "next_bucket q1 = Some (i, was_fresh)"
          using n next_bucket_cong[of q1 q] s by (simp add: serves_def)
        have on: "on_flow i (\<lambda>f. f\<lparr>fl_listed := False\<rparr>) (pop_service was_fresh q1) = Ok q2"
          using i len1 by (simp add: on_flow_def q2_def out_simps)
        have "waiting q2 j \<noteq> []" using ij j s more by (simp add: q2_def serves_def)
        then have "on_ok (dequeue now q2) (\<lambda>(r, _). r \<noteq> None)"
          using 1(2)[OF n refl ix False r(1) refl None on _ j] retire_ok[OF ok1 n1 s(2)] by (simp add: q2_def)
        then show ?thesis using n ix False r None on by (subst dequeue.simps) simp
      next
        case (Some p)
        then show ?thesis using n ix False r by (subst dequeue.simps) (simp add: on_ok_and_then)
      qed
    qed
  qed
qed

text \<open>C5. Nothing is withheld: while a packet waits anywhere, the next call hands one over. CoDel never drops
  the last packet of a flow, and a turn without credit comes round to one with it.\<close>

theorem dequeue_work_conserving:
  assumes "queue_reach before q" "i < FLOWS" "fl_packets (q_flows q ! i) \<noteq> []"
  shows "\<exists>p q'. dequeue now q = Ok (Some p, q')"
proof -
  have ok: "queue_ok q" using queue_reach_inv[OF assms(1)] by (simp add: queue_inv_def)
  obtain r q' where r: "dequeue now q = Ok (r, q')" by (rule yields_pairE[OF dequeue_departs[OF ok]])
  then show ?thesis using on_okD[OF dequeue_some[OF ok assms(2,3)] r] by auto
qed

theorem dequeue_work_conserving_witness:
  "\<exists>q p q'. push [0x45] 5 queue_new = Some (Ok (True, q)) \<and> dequeue 7 q = Ok (Some p, q')"
proof -
  obtain q where q: "push [0x45] 5 queue_new = Some (Ok (True, q))" "queue_reach 5 q"
      "\<exists>i<FLOWS. waiting q i = [\<lparr>qd_packet = [0x45], qd_at = 5\<rparr>]" by (rule one_pushed)
  then show ?thesis using dequeue_work_conserving[OF q(2), of _ 7] by (metis list.distinct(1))
qed

text \<open>C4. Within a flow packets leave in the order they came: the one handed over stood behind nothing but
  packets this call dropped, and it is the packet as it came or marked; other flows lose at most
  packets from their front.\<close>

theorem dequeue_in_order:
  assumes "queue_reach before q" "dequeue now q = Ok (Some p, q')"
  shows "(\<exists>i<FLOWS. \<exists>dropped x. fl_packets (q_flows q ! i) = dropped @ x # fl_packets (q_flows q' ! i) \<and>
      (p = qd_packet x \<or> mark_congestion (qd_packet x) = Ok (True, p))) \<and>
    (\<forall>j<FLOWS. suffix (fl_packets (q_flows q' ! j)) (fl_packets (q_flows q ! j)))"
proof -
  have "departs (Some p) q q'"
    using yieldsD[OF dequeue_departs assms(2)] queue_reach_inv[OF assms(1)] by (simp add: queue_inv_def)
  then show ?thesis by (auto simp: departs_def sent_as_def)
qed

theorem dequeue_in_order_witness:
  "\<exists>q p q'. push [0x45] 5 queue_new = Some (Ok (True, q)) \<and> dequeue 7 q = Ok (Some p, q') \<and>
    (\<forall>j<FLOWS. suffix (waiting q' j) (waiting q j))"
proof -
  obtain q where q: "push [0x45] 5 queue_new = Some (Ok (True, q))" "queue_reach 5 q"
      "\<exists>i<FLOWS. waiting q i = [\<lparr>qd_packet = [0x45], qd_at = 5\<rparr>]" by (rule one_pushed)
  have ok: "queue_ok q" using queue_reach_inv[OF q(2)] by (simp add: queue_inv_def)
  obtain r q' where r: "dequeue 7 q = Ok (r, q')" by (rule yields_pairE[OF dequeue_departs[OF ok, of 7]])
  obtain d where d: "dequeue 7 q = Ok (Some d, q')"
    using on_okD[OF dequeue_some[OF ok] r] q(3) r by fastforce
  then show ?thesis using q(1) dequeue_in_order[OF q(2) d] by blast
qed

text \<open>A flow that has just started does not wait behind the others: with no other fresh flow, the first
  packet of a flow out of service is the next to leave, unchanged, whatever the backlog.\<close>

theorem fresh_flow_first:
  assumes "queue_reach before q" "before \<le> now" "\<not> q_closed q" "q_fresh q = []"
    and "flow_of p = Ok i" "\<not> fl_listed (q_flows q ! i)"
  shows "\<exists>q1 q2. push p now q = Some (Ok (True, q1)) \<and> dequeue later q1 = Ok (Some p, q2)"
proof -
  note inv = queue_reach_inv[OF assms(1)]
  have i: "i < FLOWS" using flow_of_total[of p] assms(5) by auto
  obtain q1 where q1: "push p now q = Some (Ok (True, q1))" "arrives i \<lparr>qd_packet = p, qd_at = now\<rparr> q q1"
    using push_yields[OF inv assms(2,5)] assms(3) by auto
  have "waiting q i = []" using inv i assms(6) by (auto simp: queue_inv_def queue_ok_def listed_ok_def)
  then have w: "waiting q1 i = [\<lparr>qd_packet = p, qd_at = now\<rparr>]" using q1(2) by (auto simp: arrives_def)
  have c: "counts_ok q1" using q1(2) by (simp add: arrives_def queue_ok_counts)
  have n: "next_bucket q1 = Some (i, True)" "\<not> fl_deficit (q_flows q1 ! i) \<le> 0"
    using q1(2) assms(4,6) by (simp_all add: arrives_def next_bucket_def QUANTUM_def)
  obtain q2 where q2: "codel i later q1 = Ok (Some p, q2)" "serves i [\<lparr>qd_packet = p, qd_at = now\<rparr>] 1 q1 q2"
    using codel_under_target[OF c i w, of later] by auto
  have len: "length (q_flows q1) = FLOWS" "length (q_flows q2) = FLOWS"
    using c q2(2) counts_length serves_counts by blast+
  have "\<exists>q3. dequeue later q1 = Ok (Some p, q3)"
    using n q2(1) len i by (subst dequeue.simps) (simp add: on_flow_def out_simps)
  then show ?thesis using q1(1) by blast
qed

theorem fresh_flow_first_witness:
  "\<exists>q1 q2. push [0x45] 5 queue_new = Some (Ok (True, q1)) \<and> dequeue 1000 q1 = Ok (Some [0x45], q2)"
proof -
  obtain i where i: "flow_of [0x45] = Ok i" "i < FLOWS" using flow_of_total by blast
  show ?thesis
    by (rule fresh_flow_first[OF queue_reach.start le_refl _ _ i(1)])
      (use i(2) in \<open>simp_all add: queue_new_def flow_default_def\<close>)
qed

text \<open>A packet that fits displaces nothing but acknowledgements.\<close>

lemma push_fits:
  assumes "queue_inv before q" "before \<le> now" "\<not> q_closed q" "q_bytes q + length p \<le> LIMIT_BYTES"
    and "flow_of p = Ok i"
  obtains q' where "push p now q = Some (Ok (True, q'))" "queue_inv now q'" "q_closed q' = q_closed q"
    "q_bytes q' \<le> q_bytes q + length p"
    "waiting q' i = (case pure_ack p of Ok (Some acked) \<Rightarrow> thinned p acked (waiting q i) | _ \<Rightarrow> waiting q i) @
      [\<lparr>qd_packet = p, qd_at = now\<rparr>]"
proof -
  have ok: "queue_ok q" using assms(1) by (simp add: queue_inv_def)
  have room: "make_room (length p) q = Some (Ok q)" using assms(4) by (subst make_room.simps) simp
  obtain q' where q': "file_packet p now q = Ok q'" "arrives i \<lparr>qd_packet = p, qd_at = now\<rparr> q q'"
      "q_bytes q' \<le> q_bytes q + length p"
      "waiting q' i = (case pure_ack p of Ok (Some acked) \<Rightarrow> thinned p acked (waiting q i) | _ \<Rightarrow> waiting q i) @
      [\<lparr>qd_packet = p, qd_at = now\<rparr>]"
    using file_packet_arrives[OF ok assms(5), of now] by (auto elim!: yieldsE)
  have push: "push p now q = Some (Ok (True, q'))" using room assms(3) q'(1) by (simp add: push_def enqueue_def)
  have "queue_inv now q'" using push_yields[OF assms(1,2,5)] push assms(4) by auto
  then show ?thesis using that[OF push _ _ q'(3,4)] q'(2) by (simp add: arrives_def)
qed

text \<open>C6. An acknowledgement that arrives takes with it the ones of its own connection it covers, all but the
  newest of those, and no other packet; its own place is at the back.\<close>

theorem push_thins_acks:
  assumes "queue_reach before q" "before \<le> now" "\<not> q_closed q" "q_bytes q + length p \<le> LIMIT_BYTES"
    and "flow_of p = Ok i" "pure_ack p = Ok (Some acked)"
    and "fl_packets (q_flows q ! i) = earlier @ x # after"
    and "covered p acked x" "\<forall>y\<in>set after. \<not> covered p acked y"
  shows "\<exists>q'. push p now q = Some (Ok (True, q')) \<and>
    fl_packets (q_flows q' ! i) = filter (\<lambda>y. \<not> covered p acked y) earlier @ x # after @
      [\<lparr>qd_packet = p, qd_at = now\<rparr>]"
proof -
  obtain q' where "push p now q = Some (Ok (True, q'))"
      "waiting q' i = thinned p acked (waiting q i) @ [\<lparr>qd_packet = p, qd_at = now\<rparr>]"
    using push_fits[OF queue_reach_inv[OF assms(1)] assms(2-5)] assms(6) by auto
  then show ?thesis using thinned_some[OF assms(8,9), of earlier] assms(7) by simp
qed

lemma sample_acks:
  "flow_of (sample_ack 1) = Ok 61" "flow_of (sample_ack 2) = Ok 61" "flow_of (sample_ack 3) = Ok 61"
  "pure_ack (sample_ack 2) = Ok (Some 2)" "pure_ack (sample_ack 3) = Ok (Some 3)"
  "covered (sample_ack 2) 2 \<lparr>qd_packet = sample_ack 1, qd_at = 5\<rparr>"
  "covered (sample_ack 3) 3 \<lparr>qd_packet = sample_ack 1, qd_at = 5\<rparr>"
  "covered (sample_ack 3) 3 \<lparr>qd_packet = sample_ack 2, qd_at = 6\<rparr>"
  by code_simp+

theorem push_thins_acks_witness:
  "\<exists>q q'. queue_reach 6 q \<and> map qd_packet (fl_packets (q_flows q ! 61)) = [sample_ack 1, sample_ack 2] \<and>
    push (sample_ack 3) 7 q = Some (Ok (True, q')) \<and>
    map qd_packet (fl_packets (q_flows q' ! 61)) = [sample_ack 2, sample_ack 3]"
proof -
  have len: "length (sample_ack n) = 40" for n by (simp add: sample_ack_def)
  have lim: "120 \<le> LIMIT_BYTES" by (simp add: LIMIT_BYTES_def)
  have new: "\<not> q_closed queue_new" "q_bytes queue_new = 0" "waiting queue_new 61 = []"
    by (simp_all add: queue_new_def flow_default_def FLOWS_def)
  have fit0: "q_bytes queue_new + length (sample_ack 1) \<le> LIMIT_BYTES" using new len lim by simp
  obtain q1 where q1: "push (sample_ack 1) 5 queue_new = Some (Ok (True, q1))" "queue_inv 5 q1" "\<not> q_closed q1"
      "q_bytes q1 \<le> 40" "waiting q1 61 = [\<lparr>qd_packet = sample_ack 1, qd_at = 5\<rparr>]"
    by (rule push_fits[OF queue_inv_new le_refl new(1) fit0 sample_acks(1)])
      (use new len in \<open>auto simp: thinned_none split: outcome.splits option.splits\<close>)
  have fit1: "q_bytes q1 + length (sample_ack 2) \<le> LIMIT_BYTES" using q1(4) len lim by simp
  have thin: "thinned (sample_ack 2) 2 (waiting q1 61) = [\<lparr>qd_packet = sample_ack 1, qd_at = 5\<rparr>]"
    using thinned_some[OF sample_acks(6), of "[]" "[]"] q1(5) by simp
  obtain q2 where q2: "push (sample_ack 2) 6 q1 = Some (Ok (True, q2))" "queue_inv 6 q2" "\<not> q_closed q2"
      "q_bytes q2 \<le> 80"
      "waiting q2 61 = [\<lparr>qd_packet = sample_ack 1, qd_at = 5\<rparr>] @ \<lparr>qd_packet = sample_ack 2, qd_at = 6\<rparr> # []"
    by (rule push_fits[OF q1(2) _ q1(3) fit1 sample_acks(2), of 6])
      (use q1 len thin sample_acks(4) in auto)
  have reach1: "queue_reach 5 q1"
    by (rule queue_reach.pushed[OF queue_reach.start le_refl _ q1(1)]) (use len lim in simp)
  have reach2: "queue_reach 6 q2"
    by (rule queue_reach.pushed[OF reach1 _ _ q2(1)]) (use len lim in simp_all)
  have fit2: "q_bytes q2 + length (sample_ack 3) \<le> LIMIT_BYTES" using q2(4) len lim by simp
  obtain q3 where "push (sample_ack 3) 7 q2 = Some (Ok (True, q3)) \<and>
      waiting q3 61 = filter (\<lambda>y. \<not> covered (sample_ack 3) 3 y) [\<lparr>qd_packet = sample_ack 1, qd_at = 5\<rparr>] @
        \<lparr>qd_packet = sample_ack 2, qd_at = 6\<rparr> # [] @ [\<lparr>qd_packet = sample_ack 3, qd_at = 7\<rparr>]"
    using push_thins_acks[OF reach2 _ q2(3) fit2 sample_acks(3,5) q2(5) sample_acks(8), of 7] by auto
  then have "push (sample_ack 3) 7 q2 = Some (Ok (True, q3))"
    "map qd_packet (waiting q3 61) = [sample_ack 2, sample_ack 3]"
    using sample_acks(7) by simp_all
  moreover have "map qd_packet (waiting q2 61) = [sample_ack 1, sample_ack 2]" using q2(5) by simp
  ultimately show ?thesis using reach2
    by (intro exI[of _ q2] exI[of _ q3] conjI)
qed

end
