(* ===== verification/Dns_Upstream.thy ===== *)
theory Dns_Upstream
  imports Dns_Message Dns_Policy
begin

text \<open>
  Asking an upstream resolver, \<open>src/dns/upstream.rs\<close>: the two transports, the fall back to TCP for an
  answer that did not fit, the check that a reply belongs to its query, and the client of a DoH
  resolver, which is rebuilt when the address it must dial from changes.

  What the network and the HTTP client answer are parameters: the datagram that comes back, the bytes
  a TCP connection delivers before it ends, the HTTP response, the reading of a URL and the building
  of a client.
\<close>

section \<open>Messages\<close>

definition MAX_MESSAGE :: nat where "MAX_MESSAGE = 65535"
definition QUERY_TIMEOUT :: duration where "QUERY_TIMEOUT = from_secs 4"
definition DNS_PORT :: u16 where "DNS_PORT = 53"
definition FLAG_TRUNCATED :: u8 where "FLAG_TRUNCATED = 0x02"

datatype ('x, 'st) upstream_error =
    BadUrl string
  | NoHost string
  | ClientFailed string 'x
  | UpstreamIo 'x
  | QueryTooLong
  | EndedEarly
  | UpstreamTimeout
  | UpstreamHttp 'st
  | UpstreamRequest 'x
  | UpstreamShort nat
  | Mismatched

definition transaction_id :: "bytes \<Rightarrow> (('x, 'st) upstream_error, u16) outcome" where
  "transaction_id message =
     (if length message < HEADER_LEN then Err (UpstreamShort (length message))
      else and_then (index message 0) (\<lambda>a. and_then (index message 1) (\<lambda>b. Ok (be16 a b))))"

definition is_truncated :: "bytes \<Rightarrow> (('x, 'st) upstream_error, bool) outcome" where
  "is_truncated message =
     (if length message < HEADER_LEN then Err (UpstreamShort (length message))
      else and_then (index message 3) (\<lambda>b. Ok (b AND FLAG_TRUNCATED \<noteq> 0)))"

section \<open>The network\<close>

type_synonym sock_addr = "ip_addr \<times> u16"

datatype 'x datagram_answer = GotDatagram bytes | DatagramIo 'x | NoDatagram

datatype 'x stream_answer = StreamBytes bytes | StreamIo 'x | StreamTimeout

datatype ('x, 'st) http_answer =
    HttpTimeout
  | HttpFailed 'x
  | HttpStatus 'st
  | HttpBody bytes
  | HttpBodyFailed 'x

record ('x, 'st, 'cl) net =
  nt_udp :: "sock_addr \<Rightarrow> ip_addr \<Rightarrow> bytes \<Rightarrow> 'x datagram_answer"
  nt_tcp :: "sock_addr \<Rightarrow> ip_addr option \<Rightarrow> bytes \<Rightarrow> 'x stream_answer"
  nt_http :: "'cl \<Rightarrow> string \<Rightarrow> bytes \<Rightarrow> ('x, 'st) http_answer"
  nt_client :: "string \<Rightarrow> sock_addr \<Rightarrow> ip_addr option \<Rightarrow> 'x + 'cl"
  nt_url :: "string \<Rightarrow> (string option \<times> u16 option) option"

definition unspecified_like :: "ip_addr \<Rightarrow> ip_addr" where
  "unspecified_like target = (case target of V4 _ \<Rightarrow> V4 0 | V6 _ \<Rightarrow> V6 0)"

definition local_for :: "sock_addr \<Rightarrow> ip_addr option \<Rightarrow> ip_addr" where
  "local_for target source = (case source of Some a \<Rightarrow> a | None \<Rightarrow> unspecified_like (fst target))"

section \<open>Upstreams\<close>

record 'cl doh =
  dh_id :: string
  dh_url :: string
  dh_host :: string
  dh_dialled :: sock_addr
  dh_from :: "ip_addr option"
  dh_client :: 'cl

datatype 'cl upstream = PlainUpstream ip_addr | DohUpstream "'cl doh"

text \<open>\<open>client_from\<close>: the client that dials from the given address, built afresh when the current one
  does not.\<close>

definition client_from :: "('x, 'st, 'cl) net \<Rightarrow> ip_addr option \<Rightarrow> 'cl doh \<Rightarrow>
    (('x, 'st) upstream_error, 'cl \<times> 'cl doh) outcome" where
  "client_from net source d =
     (if dh_from d \<noteq> source then
        (case nt_client net (dh_host d) (dh_dialled d) source of
           Inl x \<Rightarrow> Err (ClientFailed (dh_id d) x)
         | Inr client \<Rightarrow> Ok (client, d\<lparr>dh_client := client, dh_from := source\<rparr>))
      else Ok (dh_client d, d))"

definition ask_doh :: "('x, 'st, 'cl) net \<Rightarrow> 'cl \<Rightarrow> string \<Rightarrow> bytes \<Rightarrow> (('x, 'st) upstream_error, bytes) outcome" where
  "ask_doh net client url query =
     (case nt_http net client url query of
        HttpTimeout \<Rightarrow> Err UpstreamTimeout
      | HttpFailed x \<Rightarrow> Err (UpstreamRequest x)
      | HttpStatus st \<Rightarrow> Err (UpstreamHttp st)
      | HttpBody body \<Rightarrow> Ok body
      | HttpBodyFailed x \<Rightarrow> Err (UpstreamRequest x))"

text \<open>The two reads of a length-prefixed reply; a stream that ends inside one is an error.\<close>

definition read_framed :: "bytes \<Rightarrow> (('x, 'st) upstream_error, bytes) outcome" where
  "read_framed stream =
     (case stream of
        a # b # rest \<Rightarrow>
          let n = min (unat (be16 a b)) MAX_MESSAGE in
          if length rest < n then Err EndedEarly else Ok (take n rest)
      | _ \<Rightarrow> Err EndedEarly)"

text \<open>The query over TCP behind its length, which has to fit 16 bits.\<close>

definition ask_over_tcp :: "('x, 'st, 'cl) net \<Rightarrow> sock_addr \<Rightarrow> ip_addr option \<Rightarrow> bytes \<Rightarrow>
    (('x, 'st) upstream_error, bytes) outcome" where
  "ask_over_tcp net target source query =
     (if 65535 < length query then Err QueryTooLong
      else (case nt_tcp net target source (be_bytes 2 (of_nat (length query) :: u16) @ query) of
          StreamTimeout \<Rightarrow> Err UpstreamTimeout
        | StreamIo x \<Rightarrow> Err (UpstreamIo x)
        | StreamBytes stream \<Rightarrow> read_framed stream))"

definition ask_plain :: "('x, 'st, 'cl) net \<Rightarrow> sock_addr \<Rightarrow> ip_addr option \<Rightarrow> bytes \<Rightarrow>
    (('x, 'st) upstream_error, bytes) outcome" where
  "ask_plain net target source query =
     (case nt_udp net target (local_for target source) query of
        NoDatagram \<Rightarrow> Err UpstreamTimeout
      | DatagramIo x \<Rightarrow> Err (UpstreamIo x)
      | GotDatagram buffer \<Rightarrow>
          and_then (is_truncated buffer) (\<lambda>truncated.
            if truncated then ask_over_tcp net target source query else Ok buffer))"

text \<open>The exchange over the upstream's transport, and \<open>ask\<close>: the reply, and the upstream after it.\<close>

definition exchange :: "('x, 'st, 'cl) net \<Rightarrow> 'cl upstream \<Rightarrow> bytes \<Rightarrow> ip_addr option \<Rightarrow>
    (('x, 'st) upstream_error, bytes) outcome \<times> 'cl upstream" where
  "exchange net up query source =
     (case up of
        PlainUpstream address \<Rightarrow> (ask_plain net (address, DNS_PORT) source query, up)
      | DohUpstream d \<Rightarrow>
          (case client_from net source d of
             Ok (client, d) \<Rightarrow> (ask_doh net client (dh_url d) query, DohUpstream d)
           | Err e \<Rightarrow> (Err e, up)
           | Panic \<Rightarrow> (Panic, up)))"

definition ask :: "('x, 'st, 'cl) net \<Rightarrow> 'cl upstream \<Rightarrow> bytes \<Rightarrow> ip_addr option \<Rightarrow>
    (('x, 'st) upstream_error, bytes) outcome \<times> 'cl upstream" where
  "ask net up query source =
     (case transaction_id query of
        Err e \<Rightarrow> (Err e, up)
      | Panic \<Rightarrow> (Panic, up)
      | Ok wanted \<Rightarrow>
          (case exchange net up query source of
             (reply, up) \<Rightarrow>
               (and_then reply (\<lambda>reply. and_then (transaction_id reply) (\<lambda>got.
                  if got \<noteq> wanted then Err Mismatched else Ok reply)), up)))"

section \<open>The set of them\<close>

definition build_upstream :: "('x, 'st, 'cl) net \<Rightarrow> resolver \<Rightarrow> (('x, 'st) upstream_error, 'cl upstream) outcome" where
  "build_upstream net r =
     (case rs_kind r of
        Plain \<Rightarrow> Ok (PlainUpstream (rs_address r))
      | Doh \<Rightarrow>
          let url = (case rs_url r of Some url \<Rightarrow> url | None \<Rightarrow> []) in
          and_then (ok_or (nt_url net url) (BadUrl url)) (\<lambda>(host, port).
          and_then (ok_or host (NoHost url)) (\<lambda>host.
          let dialled = (rs_address r, case port of Some p \<Rightarrow> p | None \<Rightarrow> 443) in
          (case nt_client net host dialled None of
             Inl x \<Rightarrow> Err (ClientFailed (rs_id r) x)
           | Inr client \<Rightarrow> Ok (DohUpstream \<lparr>dh_id = rs_id r, dh_url = url, dh_host = host,
               dh_dialled = dialled, dh_from = None, dh_client = client\<rparr>)))))"

fun upstreams_build :: "('x, 'st, 'cl) net \<Rightarrow> resolver list \<Rightarrow> (string \<Rightarrow> 'cl upstream option) \<Rightarrow>
    (('x, 'st) upstream_error, string \<Rightarrow> 'cl upstream option) outcome" where
  "upstreams_build net [] by_id = Ok by_id"
| "upstreams_build net (r # rs) by_id =
     and_then (build_upstream net r) (\<lambda>up. upstreams_build net rs (by_id(rs_id r \<mapsto> up)))"

section \<open>Replies that belong\<close>

lemma be16_inject: "be16 a b = be16 c d \<Longrightarrow> a = c \<and> b = d"
proof -
  assume eq: "be16 a b = be16 c d"
  have a: "a = c"
  proof (rule bit_word_eqI)
    fix j assume j: "j < LENGTH(8)"
    have "bit (be16 a b) (8 + j) = bit (be16 c d) (8 + j)" by (simp only: eq)
    then show "bit a j = bit c j" using j by (auto simp: be16_def bit_simps dest: bit_imp_le_length)
  qed
  have "b = d"
  proof (rule bit_word_eqI)
    fix j assume j: "j < LENGTH(8)"
    have "bit (be16 a b) j = bit (be16 c d) j" by (simp only: eq)
    then show "bit b j = bit d j" using j by (auto simp: be16_def bit_simps)
  qed
  with a show ?thesis by simp
qed

lemma header_index: "\<not> length m < HEADER_LEN \<Longrightarrow> k < 12 \<Longrightarrow> (index m k :: ('e, u8) outcome) = Ok (m ! k)"
  by (simp add: HEADER_LEN_def index_def)

lemma transaction_id_Ok:
  "transaction_id m = Ok i \<longleftrightarrow> HEADER_LEN \<le> length m \<and> i = be16 (m ! 0) (m ! 1)"
  by (auto simp: transaction_id_def header_index)

lemma transaction_id_total: "transaction_id m \<noteq> Panic" "is_truncated m \<noteq> Panic"
  by (simp_all add: transaction_id_def is_truncated_def header_index)

lemma ask_belongs:
  fixes net :: "('x, 'st, 'cl) net"
  shows "(case fst (ask net up query source) of
      Ok reply \<Rightarrow> HEADER_LEN \<le> length reply \<and> take 2 reply = take 2 query
    | Err _ \<Rightarrow> True
    | Panic \<Rightarrow> False)"
proof (cases "transaction_id query :: (('x, 'st) upstream_error, u16) outcome")
  case (Ok wanted)
  have asked: "ask_plain net t s q \<noteq> Panic" "ask_doh net cl u q \<noteq> Panic" for t s q cl u
    using transaction_id_total(2)
    by (auto simp: ask_plain_def ask_over_tcp_def read_framed_def ask_doh_def and_then_eq_Panic Let_def
        split: datagram_answer.splits stream_answer.splits http_answer.splits list.splits)
  have "client_from net s d \<noteq> Panic" for s d by (simp add: client_from_def split: sum.splits)
  then have "fst (exchange net up query source) \<noteq> Panic"
    using asked by (auto simp: exchange_def split: upstream.splits outcome.splits)
  then obtain reply where r: "fst (ask net up query source) = and_then reply (\<lambda>reply. and_then (transaction_id reply)
      (\<lambda>got. if got \<noteq> wanted then Err Mismatched else Ok reply))" "reply \<noteq> Panic"
    using Ok by (cases "exchange net up query source") (auto simp: ask_def)
  have two: "take 2 m = [m ! 0, m ! 1]" if "HEADER_LEN \<le> length m" for m :: bytes
    using that by (cases m; cases "tl m") (auto simp: HEADER_LEN_def numeral_2_eq_2)
  show ?thesis
  proof (cases reply)
    case (Ok m)
    show ?thesis
    proof (cases "transaction_id m :: (('x, 'st) upstream_error, u16) outcome")
      case (Ok got)
      have "got = wanted \<Longrightarrow> take 2 m = take 2 query"
        using Ok \<open>transaction_id query = Ok wanted\<close> by (auto simp: transaction_id_Ok two dest!: be16_inject)
      moreover have "HEADER_LEN \<le> length m" using Ok by (simp add: transaction_id_Ok)
      ultimately show ?thesis using r \<open>reply = Ok m\<close> Ok by simp
    qed (use r \<open>reply = Ok m\<close> transaction_id_total in auto)
  qed (use r in auto)
qed (simp_all add: ask_def transaction_id_total)

text \<open>No reply is taken for the answer to another query: what \<open>ask\<close> returns has a whole header and the
  query's own identifier, and asking ends in a reply or an error whatever comes back.\<close>

theorem ask_matches:
  "(case fst (ask net up query source) of
      Ok reply \<Rightarrow> HEADER_LEN \<le> length reply \<and> take 2 reply = take 2 query
    | Err _ \<Rightarrow> True
    | Panic \<Rightarrow> False)"
  by (rule ask_belongs)

text \<open>The client of a DoH resolver is one built for the address it dials from.\<close>

definition doh_ok :: "('x, 'st, 'cl) net \<Rightarrow> 'cl upstream \<Rightarrow> bool" where
  "doh_ok net up = (case up of PlainUpstream _ \<Rightarrow> True
     | DohUpstream d \<Rightarrow> nt_client net (dh_host d) (dh_dialled d) (dh_from d) = Inr (dh_client d))"

lemma ask_doh_ok: "doh_ok net up \<Longrightarrow> doh_ok net (snd (ask net up query source))"
  by (cases up) (auto simp: ask_def exchange_def doh_ok_def client_from_def split: outcome.splits sum.splits prod.splits if_splits)

lemma build_doh_ok:
  assumes "build_upstream net r = Ok up"
  shows "doh_ok net up"
proof (cases "rs_kind r")
  case Doh
  define url where "url = (case rs_url r of Some u \<Rightarrow> u | None \<Rightarrow> [])"
  obtain host port where u: "nt_url net url = Some (Some host, port)"
    using assms Doh by (auto simp: build_upstream_def and_then_eq_Ok Let_def url_def)
  show ?thesis using assms Doh u[unfolded url_def]
    by (cases "nt_client net host (rs_address r, case port of Some p \<Rightarrow> p | None \<Rightarrow> 443) None")
      (auto simp: build_upstream_def Let_def doh_ok_def)
qed (use assms in \<open>auto simp: build_upstream_def doh_ok_def\<close>)

text \<open>A DoH query is made over a client built for the very address it is to leave from, however often
  that address changed since the resolver was prepared.\<close>

theorem doh_dials_from:
  assumes "doh_ok net (DohUpstream d)" "fst (ask net (DohUpstream d) query source) = Ok reply"
  shows "\<exists>client. nt_client net (dh_host d) (dh_dialled d) source = Inr client \<and>
    nt_http net client (dh_url d) query = HttpBody reply"
  using assms
  by (auto simp: ask_def exchange_def doh_ok_def client_from_def ask_doh_def and_then_eq_Ok
      split: outcome.splits sum.splits prod.splits if_splits http_answer.splits)

definition sample_net :: "(unit, unit, ip_addr option) net" where
  "sample_net = \<lparr>nt_udp = (\<lambda>_ _ _. NoDatagram), nt_tcp = (\<lambda>_ _ _. StreamTimeout),
     nt_http = (\<lambda>_ _ query. HttpBody query), nt_client = (\<lambda>_ _ source. Inr source),
     nt_url = (\<lambda>_. Some (Some ''dns.test'', None))\<rparr>"

definition sample_doh :: "ip_addr option doh" where
  "sample_doh = \<lparr>dh_id = ''a'', dh_url = ''u'', dh_host = ''dns.test'', dh_dialled = (V4 1, 443),
     dh_from = None, dh_client = None\<rparr>"

theorem doh_dials_from_witness:
  "\<exists>client. nt_client sample_net ''dns.test'' (V4 1, 443) (Some (V4 9)) = Inr client \<and>
    nt_http sample_net client ''u'' (replicate 12 0) = HttpBody (replicate 12 0)"
proof -
  have "fst (ask sample_net (DohUpstream sample_doh) (replicate 12 0) (Some (V4 9))) = Ok (replicate 12 0)"
    by (simp add: ask_def exchange_def sample_net_def sample_doh_def transaction_id_def client_from_def ask_doh_def HEADER_LEN_def out_simps)
  moreover have "doh_ok sample_net (DohUpstream sample_doh)"
    by (simp add: doh_ok_def sample_net_def sample_doh_def)
  ultimately show ?thesis
    using doh_dials_from[of sample_net sample_doh "replicate 12 0" "Some (V4 9)" "replicate 12 0"]
    by (simp add: sample_doh_def)
qed

end
