(* ===== verification/Dns_Asker.thy ===== *)
theory Dns_Asker
  imports Dns_Upstream "HOL-Library.AList"
begin

text \<open>
  Which program asked, \<open>src/dns/asker.rs\<close>: the owner of the loopback port a query came from, out of a
  reading of the protocol's port table that is reused for a second, and the program a process runs,
  remembered by its identifier. The system's tables and the image of a process are parameters.
\<close>

definition TABLE_TTL :: duration where "TABLE_TTL = from_millis 1000"
definition MAX_IMAGES :: nat where "MAX_IMAGES = 512"

record program =
  pg_path :: string
  pg_name :: string

text \<open>What follows the last separator of a path.\<close>

definition after_separator :: "string \<Rightarrow> string" where
  "after_separator path = rev (takeWhile (\<lambda>c. c \<noteq> char_of (92 :: nat) \<and> c \<noteq> CHR ''/'') (rev path))"

definition program_from_path :: "string \<Rightarrow> program" where
  "program_from_path path =
     (let path = lowercase path in \<lparr>pg_path = path, pg_name = after_separator path\<rparr>)"

datatype origin = FromUdp sock_addr | FromTcp sock_addr

fun origin_port :: "origin \<Rightarrow> u16" where
  "origin_port (FromUdp a) = snd a"
| "origin_port (FromTcp a) = snd a"

section \<open>The port tables\<close>

record port_row =
  po_addr :: u32
  po_port :: u32
  po_pid :: u32

definition swap16 :: "u16 \<Rightarrow> u16" where
  "swap16 w = push_bit 8 w OR drop_bit 8 w"

definition swap32 :: "u32 \<Rightarrow> u32" where
  "swap32 w = push_bit 24 w OR (push_bit 8 w AND 0xff0000) OR (drop_bit 8 w AND 0xff00) OR drop_bit 24 w"

definition port_of :: "u32 \<Rightarrow> u16" where
  "port_of stored = swap16 (ucast (stored AND 0xffff))"

text \<open>The rows of loopback, in the UDP table also those bound to every address; a later row of a port
  replaces an earlier one.\<close>

fun udp_owners :: "port_row list \<Rightarrow> (u16 \<Rightarrow> u32 option) \<Rightarrow> (u16 \<Rightarrow> u32 option)" where
  "udp_owners [] owners = owners"
| "udp_owners (row # rows) owners =
     (let local_addr = swap32 (po_addr row) in
      udp_owners rows (if local_addr \<noteq> 0x7f000001 \<and> local_addr \<noteq> 0 then owners
        else owners(port_of (po_port row) \<mapsto> po_pid row)))"

fun tcp_owners :: "port_row list \<Rightarrow> (u16 \<Rightarrow> u32 option) \<Rightarrow> (u16 \<Rightarrow> u32 option)" where
  "tcp_owners [] owners = owners"
| "tcp_owners (row # rows) owners =
     tcp_owners rows (if swap32 (po_addr row) \<noteq> 0x7f000001 then owners
       else owners(port_of (po_port row) \<mapsto> po_pid row))"

text \<open>What the system answers: its two tables, or an error, and the image of a process.\<close>

record system =
  sy_udp :: "port_row list option"
  sy_tcp :: "port_row list option"
  sy_image :: "u32 \<Rightarrow> string option"

definition read_udp_owners :: "system \<Rightarrow> (u16 \<Rightarrow> u32 option) option" where
  "read_udp_owners sy = map_option (\<lambda>rows. udp_owners rows Map.empty) (sy_udp sy)"

definition read_tcp_owners :: "system \<Rightarrow> (u16 \<Rightarrow> u32 option) option" where
  "read_tcp_owners sy = map_option (\<lambda>rows. tcp_owners rows Map.empty) (sy_tcp sy)"

section \<open>Asking\<close>

record snapshot =
  sn_at :: instant
  sn_owners :: "u16 \<Rightarrow> u32 option"

record askers =
  ak_udp :: "snapshot option"
  ak_tcp :: "snapshot option"
  ak_images :: "(u32 \<times> program) list"

definition askers_new :: askers where
  "askers_new = \<lparr>ak_udp = None, ak_tcp = None, ak_images = []\<rparr>"

definition owner_of :: "snapshot option \<Rightarrow> (u16 \<Rightarrow> u32 option) option \<Rightarrow> u16 \<Rightarrow> instant \<Rightarrow>
    u32 option \<times> snapshot option" where
  "owner_of held read_table port now =
     (let fresh = (case held of Some s \<Rightarrow> now - sn_at s < TABLE_TTL | None \<Rightarrow> False) in
      if fresh then (Option.bind held (\<lambda>s. sn_owners s port), held)
      else (case read_table of
          None \<Rightarrow> (None, held)
        | Some owners \<Rightarrow> (owners port, Some \<lparr>sn_at = now, sn_owners = owners\<rparr>)))"

definition of_port :: "system \<Rightarrow> origin \<Rightarrow> instant \<Rightarrow> askers \<Rightarrow> program option \<times> askers" where
  "of_port sy source now ak =
     (case (case source of
          FromUdp _ \<Rightarrow> (case owner_of (ak_udp ak) (read_udp_owners sy) (origin_port source) now of
              (pid, held) \<Rightarrow> (pid, ak\<lparr>ak_udp := held\<rparr>))
        | FromTcp _ \<Rightarrow> (case owner_of (ak_tcp ak) (read_tcp_owners sy) (origin_port source) now of
              (pid, held) \<Rightarrow> (pid, ak\<lparr>ak_tcp := held\<rparr>))) of
        (None, ak) \<Rightarrow> (None, ak)
      | (Some pid, ak) \<Rightarrow>
          (case map_of (ak_images ak) pid of
             Some known \<Rightarrow> (Some known, ak)
           | None \<Rightarrow>
               (case sy_image sy pid of
                  None \<Rightarrow> (None, ak)
                | Some path \<Rightarrow>
                    let program = program_from_path path;
                      images = (if MAX_IMAGES \<le> length (ak_images ak) then [] else ak_images ak)
                    in (Some program, ak\<lparr>ak_images := AList.update pid program images\<rparr>))))"

section \<open>The properties\<close>

definition asked_udp :: "origin \<Rightarrow> bool" where
  "asked_udp source = (case source of FromUdp _ \<Rightarrow> True | FromTcp _ \<Rightarrow> False)"

text \<open>A program named for a query owns the port on the query's own protocol, as the table was within the
  last second; and what is remembered of the other protocol is not touched.\<close>

lemma of_port_protocol:
  "(if asked_udp source then ak_tcp (snd (of_port sy source now ak)) = ak_tcp ak
    else ak_udp (snd (of_port sy source now ak)) = ak_udp ak)"
  by (auto simp: of_port_def asked_udp_def Let_def split: origin.split prod.split option.split)

lemma length_AList_update_le: "length (AList.update k v xs) \<le> Suc (length xs)"
  by (induction xs) auto

lemma of_port_bounded: "length (ak_images ak) \<le> MAX_IMAGES \<Longrightarrow>
    length (ak_images (snd (of_port sy source now ak))) \<le> MAX_IMAGES"
  using length_AList_update_le[of _ _ "ak_images ak"] length_AList_update_le[of _ _ "[]"]
  by (auto simp: of_port_def Let_def MAX_IMAGES_def not_le split: origin.split prod.split option.split)
    (meson Suc_leI le_trans)+

text \<open>A process identifier that has been given to another program is still taken for the first one: a
  remembered image is used for as long as it is remembered, whatever the table and the process say.\<close>

theorem remembered_image_outlives_process:
  assumes "map_of (ak_images ak) pid = Some known"
    and "read_udp_owners sy = Some owners" "owners port = Some pid" "sy_image sy pid = Some other"
    and "\<forall>s. ak_udp ak = Some s \<longrightarrow> sn_at s + TABLE_TTL \<le> now"
  shows "fst (of_port sy (FromUdp (address, port)) now ak) = Some known"
  using assms
  by (auto simp: of_port_def owner_of_def Let_def split: option.split)

definition reused_system :: system where
  "reused_system = \<lparr>sy_udp = Some [\<lparr>po_addr = 0x0100007f, po_port = 0x3500, po_pid = 40\<rparr>], sy_tcp = None,
     sy_image = (\<lambda>_. Some ''C:/second.exe'')\<rparr>"

theorem remembered_image_outlives_process_witness:
  "fst (of_port reused_system (FromUdp (V4 0x7f000001, 53)) 5
     \<lparr>ak_udp = None, ak_tcp = None, ak_images = [(40, program_from_path ''C:/first.exe'')]\<rparr>) =
   Some (program_from_path ''C:/first.exe'')"
proof -
  have "swap32 0x0100007f = 0x7f000001" "port_of 0x3500 = 53" by code_simp+
  then have table: "read_udp_owners reused_system = Some (Map.empty(53 \<mapsto> 40))"
    by (simp add: read_udp_owners_def reused_system_def)
  have image: "sy_image reused_system 40 = Some ''C:/second.exe''" by (simp add: reused_system_def)
  show ?thesis by (rule remembered_image_outlives_process[OF _ table _ image]) simp_all
qed

end
