(* ===== verification/Routes.thy ===== *)
theory Routes
  imports Masqr_Prelude "HOL-Library.Product_Lexorder"
begin

text \<open>
  The prefixes routed into the tunnel, \<open>src/tun/mod.rs\<close>: the two operations on the operating
  system's forwarding table with the statuses each takes as success, and \<open>Routes::apply\<close>, which makes
  the installed set match a wanted one and keeps the books when rows are refused. The choice of the
  line's interface for a destination, \<open>src/tun/outside.rs\<close>, and the wait for the adapter's name.

  The forwarding table itself is the operating system's: creating and deleting a row are parameters,
  functions on a state of their own, and what IP Helper documents of them is the locale
  \<open>forward_table\<close>.
\<close>

section \<open>Prefixes\<close>

type_synonym prefix = "ip_addr \<times> u8"

datatype tun_error =
    TunCreate u32
  | NameHeld duration
  | RouteRefused ip_addr u8 u32
  | RouteRemoval ip_addr u8 u32

datatype prefix_error = NotAddress string | NoLength string | TooLongFor string

text \<open>\<open>split_once('/')\<close> and \<open>parse::<u8>\<close>: an optional plus sign, then decimal digits, at most 255.\<close>

fun split_once :: "char \<Rightarrow> string \<Rightarrow> (string \<times> string) option" where
  "split_once c [] = None"
| "split_once c (x # xs) =
     (if x = c then Some ([], xs) else map_option (\<lambda>(a, b). (x # a, b)) (split_once c xs))"

definition digit :: "char \<Rightarrow> nat option" where
  "digit c = (let n = of_char c :: nat in if 48 \<le> n \<and> n \<le> 57 then Some (n - 48) else None)"

fun parse_digits :: "nat \<Rightarrow> string \<Rightarrow> nat option" where
  "parse_digits v [] = Some v"
| "parse_digits v (c # cs) =
     Option.bind (digit c) (\<lambda>d. if 10 * v + d < 256 then parse_digits (10 * v + d) cs else None)"

definition parse_u8 :: "string \<Rightarrow> u8 option" where
  "parse_u8 s =
     (case s of
        [] \<Rightarrow> None
      | c # cs \<Rightarrow> let ds = if c = CHR ''+'' then cs else s in
          if ds = [] then None else map_option of_nat (parse_digits 0 ds))"

text \<open>How an address is read from its text is the standard library's business, and a parameter.\<close>

definition parse_prefix :: "(string \<Rightarrow> ip_addr option) \<Rightarrow> string \<Rightarrow> prefix_error + prefix" where
  "parse_prefix parse_ip written =
     (case (case split_once CHR ''/'' written of
          Some (address, len) \<Rightarrow> (address, Some len) | None \<Rightarrow> (written, None)) of
        (address, len) \<Rightarrow>
     (case parse_ip address of
        None \<Rightarrow> Inl (NotAddress written)
      | Some address \<Rightarrow>
          let whole = if is_ipv4 address then 32 else 128 in
          (case (case len of Some len \<Rightarrow> parse_u8 len | None \<Rightarrow> Some whole) of
             None \<Rightarrow> Inl (NoLength written)
           | Some len \<Rightarrow> if whole < len then Inl (TooLongFor written) else Inr (address, len))))"

section \<open>Rows\<close>

definition NO_ERROR :: u32 where "NO_ERROR = 0"
definition ERROR_ALREADY_EXISTS :: u32 where "ERROR_ALREADY_EXISTS = 183"
definition ERROR_NOT_FOUND :: u32 where "ERROR_NOT_FOUND = 1168"
definition ERROR_OBJECT_ALREADY_EXISTS :: u32 where "ERROR_OBJECT_ALREADY_EXISTS = 5010"

text \<open>An operation on one row: whether it was refused, and the table after it.\<close>

type_synonym 't row_op = "prefix \<Rightarrow> 't \<Rightarrow> (tun_error + unit) \<times> 't"

definition add_route :: "(prefix \<Rightarrow> 'os \<Rightarrow> u32 \<times> 'os) \<Rightarrow> 'os row_op" where
  "add_route create p os =
     (case create p os of (status, os) \<Rightarrow>
        if status \<noteq> NO_ERROR \<and> status \<noteq> ERROR_OBJECT_ALREADY_EXISTS
        then (Inl (RouteRefused (fst p) (snd p) status), os) else (Inr (), os))"

definition remove_route :: "(prefix \<Rightarrow> 'os \<Rightarrow> u32 \<times> 'os) \<Rightarrow> 'os row_op" where
  "remove_route delete p os =
     (case delete p os of (status, os) \<Rightarrow>
        if status \<noteq> NO_ERROR \<and> status \<noteq> ERROR_NOT_FOUND
        then (Inl (RouteRemoval (fst p) (snd p) status), os) else (Inr (), os))"

section \<open>Applying a set\<close>

record change =
  ch_added :: "prefix list"
  ch_removed :: "prefix list"

definition change_is_empty :: "change \<Rightarrow> bool" where
  "change_is_empty c = (ch_added c = [] \<and> ch_removed c = [])"

text \<open>One row of a loop of \<open>apply\<close>: the installed set and the list of what moved follow a row that
  moved; the first refusal is kept.\<close>

definition apply_row :: "'t row_op \<Rightarrow> (prefix \<Rightarrow> prefix set \<Rightarrow> prefix set) \<Rightarrow> prefix \<Rightarrow>
    prefix set \<times> prefix list \<times> tun_error option \<times> 't \<Rightarrow> prefix set \<times> prefix list \<times> tun_error option \<times> 't" where
  "apply_row op upd p = (\<lambda>(installed, moved, refused, t).
     (case op p t of
        (Inr _, t) \<Rightarrow> (upd p installed, moved @ [p], refused, t)
      | (Inl problem, t) \<Rightarrow>
          (installed, moved, (case refused of None \<Rightarrow> Some problem | Some first \<Rightarrow> Some first), t)))"

definition routes_apply :: "'t row_op \<Rightarrow> 't row_op \<Rightarrow> prefix set \<Rightarrow> prefix set \<Rightarrow> 't \<Rightarrow>
    (tun_error + change) \<times> prefix set \<times> 't" where
  "routes_apply add remove installed wanted t =
     (let going = sorted_list_of_set (installed - wanted) in
     (case fold (apply_row remove (\<lambda>p s. s - {p})) going (installed, [], None, t) of
        (installed, removed, refused, t) \<Rightarrow>
      let coming = sorted_list_of_set (wanted - installed) in
     (case fold (apply_row add insert) coming (installed, [], refused, t) of
        (installed, added, refused, t) \<Rightarrow>
          (case refused of
             Some problem \<Rightarrow> (Inl problem, installed, t)
           | None \<Rightarrow> (Inr \<lparr>ch_added = added, ch_removed = removed\<rparr>, installed, t)))))"

lemma apply_row_refused:
  "op p t = (Inl e, t') \<Longrightarrow> apply_row op upd p (installed, moved, refused, t) =
     (installed, moved, Some (case refused of None \<Rightarrow> e | Some e' \<Rightarrow> e'), t')"
  by (simp add: apply_row_def split: option.split)

lemma apply_row_moved:
  "op p t = (Inr u, t') \<Longrightarrow> apply_row op upd p (installed, moved, refused, t) =
     (upd p installed, moved @ [p], refused, t')"
  by (simp add: apply_row_def)

text \<open>Where no row is refused, no error is returned.\<close>

lemma loop_accepts:
  assumes "\<And>p t. \<exists>t'. op p t = (Inr (), t')"
  shows "fst (snd (snd (fold (apply_row op upd) ps (installed, moved, None, t)))) = None"
proof (induction ps arbitrary: installed moved t)
  case (Cons p ps)
  obtain t' where "op p t = (Inr (), t')" using assms by blast
  then show ?case using Cons by (simp add: apply_row_moved)
qed simp

lemma apply_accepts:
  assumes "\<And>p t. \<exists>t'. add p t = (Inr (), t')" "\<And>p t. \<exists>t'. remove p t = (Inr (), t')"
  shows "\<exists>c. fst (routes_apply add remove installed wanted t) = Inr c"
proof -
  let ?going = "sorted_list_of_set (installed - wanted)"
  obtain i1 old f1 t1 where g: "fold (apply_row remove (\<lambda>p s. s - {p})) ?going (installed, [], None, t) = (i1, old, f1, t1)"
    by (cases "fold (apply_row remove (\<lambda>p s. s - {p})) ?going (installed, [], None, t)") auto
  let ?coming = "sorted_list_of_set (wanted - i1)"
  obtain i2 new f2 t2 where c: "fold (apply_row add insert) ?coming (i1, [], f1, t1) = (i2, new, f2, t2)"
    by (cases "fold (apply_row add insert) ?coming (i1, [], f1, t1)") auto
  have "f1 = None" using loop_accepts[of remove "\<lambda>p s. s - {p}" ?going installed "[]" t] assms(2) g by simp
  moreover from this have "f2 = None" using loop_accepts[of add insert ?coming i1 "[]" t1] assms(1) c by simp
  ultimately show ?thesis using g c by (simp add: routes_apply_def Let_def)
qed

lemma add_route_accepts:
  "fst (create p os) \<in> {NO_ERROR, ERROR_OBJECT_ALREADY_EXISTS} \<Longrightarrow> \<exists>os'. add_route create p os = (Inr (), os')"
  by (auto simp: add_route_def split: prod.splits)

lemma remove_route_accepts:
  "fst (delete p os) \<in> {NO_ERROR, ERROR_NOT_FOUND} \<Longrightarrow> \<exists>os'. remove_route delete p os = (Inr (), os')"
  by (auto simp: remove_route_def split: prod.splits)

section \<open>What a table promises\<close>

locale route_table =
  fixes add remove :: "'t row_op"
    and rows :: "'t \<Rightarrow> prefix set"
  assumes add_ok: "add p t = (Inr u, t') \<Longrightarrow> rows t' = insert p (rows t)"
    and add_refused: "add p t = (Inl e, t') \<Longrightarrow> rows t' = rows t"
    and remove_ok: "remove p t = (Inr u, t') \<Longrightarrow> rows t' = rows t - {p}"
    and remove_refused: "remove p t = (Inl e, t') \<Longrightarrow> rows t' = rows t"
begin

text \<open>After either loop the set has moved as the rows did: by the prefixes that moved, which are all of
  them when none was refused.\<close>

lemma coming_loop:
  "fold (apply_row add insert) ps (installed, moved, refused, t) = (installed', moved', refused', t') \<Longrightarrow>
     distinct ps \<Longrightarrow> \<exists>new. moved' = moved @ new \<and> set new \<subseteq> set ps \<and> installed' = installed \<union> set new \<and>
       rows t' = rows t \<union> set new \<and> (refused' = None \<longleftrightarrow> refused = None \<and> set new = set ps) \<and>
       (refused' = None \<longrightarrow> new = ps)"
proof (induction ps arbitrary: installed moved refused t)
  case Nil
  then show ?case by auto
next
  case (Cons p ps)
  obtain r t1 where op: "add p t = (r, t1)" by fastforce
  show ?case
  proof (cases r)
    case (Inl e)
    then have "fold (apply_row add insert) ps (installed, moved, Some (case refused of None \<Rightarrow> e | Some f \<Rightarrow> f), t1) =
        (installed', moved', refused', t')"
      using Cons.prems(1) op by (simp add: apply_row_refused)
    from Cons.IH[OF this] Cons.prems(2) add_refused[OF op[unfolded Inl]] show ?thesis by auto
  next
    case (Inr u)
    then have "fold (apply_row add insert) ps (insert p installed, moved @ [p], refused, t1) =
        (installed', moved', refused', t')"
      using Cons.prems(1) op by (simp add: apply_row_moved)
    from Cons.IH[OF this] Cons.prems(2) obtain new where n: "moved' = (moved @ [p]) @ new" "set new \<subseteq> set ps"
        "installed' = insert p installed \<union> set new" "rows t' = rows t1 \<union> set new"
        "refused' = None \<longleftrightarrow> refused = None \<and> set new = set ps" "refused' = None \<longrightarrow> new = ps" by auto
    show ?thesis by (rule exI[of _ "p # new"]) (use n Cons.prems(2) add_ok[OF op[unfolded Inr]] in auto)
  qed
qed

lemma going_loop:
  "fold (apply_row remove (\<lambda>p s. s - {p})) ps (installed, moved, refused, t) = (installed', moved', refused', t') \<Longrightarrow>
     distinct ps \<Longrightarrow> \<exists>old. moved' = moved @ old \<and> set old \<subseteq> set ps \<and> installed' = installed - set old \<and>
       rows t' = rows t - set old \<and> (refused' = None \<longleftrightarrow> refused = None \<and> set old = set ps) \<and>
       (refused' = None \<longrightarrow> old = ps)"
proof (induction ps arbitrary: installed moved refused t)
  case Nil
  then show ?case by auto
next
  case (Cons p ps)
  obtain r t1 where op: "remove p t = (r, t1)" by fastforce
  show ?case
  proof (cases r)
    case (Inl e)
    then have "fold (apply_row remove (\<lambda>p s. s - {p})) ps
        (installed, moved, Some (case refused of None \<Rightarrow> e | Some f \<Rightarrow> f), t1) = (installed', moved', refused', t')"
      using Cons.prems(1) op by (simp add: apply_row_refused)
    from Cons.IH[OF this] Cons.prems(2) remove_refused[OF op[unfolded Inl]] show ?thesis by auto
  next
    case (Inr u)
    then have "fold (apply_row remove (\<lambda>p s. s - {p})) ps (installed - {p}, moved @ [p], refused, t1) =
        (installed', moved', refused', t')"
      using Cons.prems(1) op by (simp add: apply_row_moved)
    from Cons.IH[OF this] Cons.prems(2) obtain old where n: "moved' = (moved @ [p]) @ old" "set old \<subseteq> set ps"
        "installed' = (installed - {p}) - set old" "rows t' = rows t1 - set old"
        "refused' = None \<longleftrightarrow> refused = None \<and> set old = set ps" "refused' = None \<longrightarrow> old = ps" by auto
    show ?thesis by (rule exI[of _ "p # old"]) (use n Cons.prems(2) remove_ok[OF op[unfolded Inr]] in auto)
  qed
qed

text \<open>\<open>apply\<close> keeps the books: the installed set follows the table row by row, and is the wanted set
  when nothing was refused; what is refused stays as it was.\<close>

lemma apply_books:
  assumes a: "routes_apply add remove installed wanted t = (r, installed', t')"
    and fin: "finite installed" "finite wanted"
  shows "\<exists>old new. old \<subseteq> installed - wanted \<and> new \<subseteq> wanted - installed \<and>
    installed' = installed - old \<union> new \<and> rows t' = rows t - old \<union> new \<and>
    (\<forall>c. r = Inr c \<longrightarrow> installed' = wanted \<and> set (ch_removed c) = old \<and> set (ch_added c) = new \<and>
       distinct (ch_removed c) \<and> distinct (ch_added c)) \<and>
    (\<forall>e. r = Inl e \<longrightarrow> installed' \<noteq> wanted)"
proof -
  let ?going = "sorted_list_of_set (installed - wanted)"
  obtain i1 old f1 t1 where g: "fold (apply_row remove (\<lambda>p s. s - {p})) ?going (installed, [], None, t) = (i1, old, f1, t1)"
    by (cases "fold (apply_row remove (\<lambda>p s. s - {p})) ?going (installed, [], None, t)") auto
  let ?coming = "sorted_list_of_set (wanted - i1)"
  obtain i2 new f2 t2 where c: "fold (apply_row add insert) ?coming (i1, [], f1, t1) = (i2, new, f2, t2)"
    by (cases "fold (apply_row add insert) ?coming (i1, [], f1, t1)") auto
  have sg: "set ?going = installed - wanted" "distinct ?going" and sc: "set ?coming = wanted - i1" "distinct ?coming"
    using fin by simp_all
  have G: "set old \<subseteq> installed - wanted" "i1 = installed - set old" "rows t1 = rows t - set old"
    "f1 = None \<longleftrightarrow> set old = installed - wanted" "f1 = None \<longrightarrow> old = ?going"
    using going_loop[OF g sg(2)] sg(1) by auto
  have C: "set new \<subseteq> wanted - i1" "i2 = i1 \<union> set new" "rows t2 = rows t1 \<union> set new"
    "f2 = None \<longleftrightarrow> f1 = None \<and> set new = wanted - i1" "f2 = None \<longrightarrow> new = ?coming"
    using coming_loop[OF c sc(2)] sc(1) by auto
  have new: "set new \<subseteq> wanted - installed" using C(1) G(1,2) by auto
  have r: "installed' = i2" "t' = t2" "r = (case f2 of Some e \<Rightarrow> Inl e | None \<Rightarrow> Inr \<lparr>ch_added = new, ch_removed = old\<rparr>)"
    using a g c by (auto simp: routes_apply_def Let_def split: option.splits)
  have made: "installed' = wanted \<longleftrightarrow> f2 = None" using r(1) C G by auto
  have lists: "old = ?going \<and> new = ?coming" if "f2 = None" using that C(4,5) G(5) by blast
  then have dist: "distinct old" "distinct new" if "f2 = None" using that sg(2) sc(2) by metis+
  have "rows t2 = rows t - set old \<union> set new" "installed' = installed - set old \<union> set new"
    using r C G by auto
  then show ?thesis using r(2,3) G(1) new made dist
    by (intro exI[of _ "set old"] exI[of _ "set new"]) (cases f2; simp)
qed

end

section \<open>The adapter as a table\<close>

text \<open>What IP Helper documents of the two calls: a row created is there, a row that could not be created
  is there only if it was before, and likewise for deleting.\<close>

locale forward_table =
  fixes create delete :: "prefix \<Rightarrow> 'os \<Rightarrow> u32 \<times> 'os"
    and rows :: "'os \<Rightarrow> prefix set"
  assumes created: "create p os = (NO_ERROR, os') \<Longrightarrow> rows os' = insert p (rows os)"
    and existed: "create p os = (ERROR_OBJECT_ALREADY_EXISTS, os') \<Longrightarrow> rows os' = rows os \<and> p \<in> rows os"
    and not_created: "create p os = (status, os') \<Longrightarrow> status \<noteq> NO_ERROR \<Longrightarrow> rows os' = rows os"
    and deleted: "delete p os = (NO_ERROR, os') \<Longrightarrow> rows os' = rows os - {p}"
    and absent: "delete p os = (ERROR_NOT_FOUND, os') \<Longrightarrow> rows os' = rows os \<and> p \<notin> rows os"
    and not_deleted: "delete p os = (status, os') \<Longrightarrow> status \<noteq> NO_ERROR \<Longrightarrow> rows os' = rows os"

text \<open>The adapter's own operations are then a table in the sense above: a row already there, or already
  gone, is the state asked for.\<close>

sublocale forward_table \<subseteq> adapter: route_table "add_route create" "remove_route delete" rows
proof
  fix p os os' u e
  show "add_route create p os = (Inr u, os') \<Longrightarrow> rows os' = insert p (rows os)"
    using created[of p os os'] existed[of p os os']
    by (auto simp: add_route_def split: prod.splits if_splits)
  show "add_route create p os = (Inl e, os') \<Longrightarrow> rows os' = rows os"
    using not_created[of p os] by (auto simp: add_route_def split: prod.splits if_splits)
  show "remove_route delete p os = (Inr u, os') \<Longrightarrow> rows os' = rows os - {p}"
    using deleted[of p os os'] absent[of p os os']
    by (auto simp: remove_route_def split: prod.splits if_splits)
  show "remove_route delete p os = (Inl e, os') \<Longrightarrow> rows os' = rows os"
    using not_deleted[of p os] by (auto simp: remove_route_def split: prod.splits if_splits)
qed

context forward_table
begin

lemma adapter_books:
  assumes "routes_apply (add_route create) (remove_route delete) installed wanted os = (r, installed', os')"
    and "finite installed" "finite wanted"
  shows "rows os' = rows os - (installed - installed') \<union> (installed' - installed)"
    "installed \<inter> wanted \<subseteq> installed'" "installed' \<subseteq> installed \<union> wanted"
    "r = Inl e \<Longrightarrow> installed' \<noteq> wanted"
    "r = Inr c \<Longrightarrow> installed' = wanted \<and> set (ch_removed c) = installed - wanted \<and>
      set (ch_added c) = wanted - installed \<and> distinct (ch_added c)"
proof -
  obtain old new where b: "old \<subseteq> installed - wanted" "new \<subseteq> wanted - installed"
      "installed' = installed - old \<union> new" "rows os' = rows os - old \<union> new"
    and ok: "\<forall>c. r = Inr c \<longrightarrow> installed' = wanted \<and> set (ch_removed c) = old \<and> set (ch_added c) = new \<and>
       distinct (ch_removed c) \<and> distinct (ch_added c)"
    and err: "\<forall>e. r = Inl e \<longrightarrow> installed' \<noteq> wanted"
    using adapter.apply_books[OF assms] by blast
  have eq: "installed - installed' = old" "installed' - installed = new" using b by auto
  show "rows os' = rows os - (installed - installed') \<union> (installed' - installed)" using b(4) eq by simp
  show "installed \<inter> wanted \<subseteq> installed'" "installed' \<subseteq> installed \<union> wanted" using b by auto
  show "r = Inl e \<Longrightarrow> installed' \<noteq> wanted" using err by blast
  show "r = Inr c \<Longrightarrow> installed' = wanted \<and> set (ch_removed c) = installed - wanted \<and>
      set (ch_added c) = wanted - installed \<and> distinct (ch_added c)"
    using ok eq by metis
qed

end

text \<open>The bench of \<open>src/tun/mod.rs\<close>: a table that refuses the rows it is told to, as an operating
  system that answers with statuses.\<close>

record bench =
  bench_rows :: "prefix set"
  bench_refuse :: "prefix set"

definition bench_create :: "prefix \<Rightarrow> bench \<Rightarrow> u32 \<times> bench" where
  "bench_create p b =
     (if p \<in> bench_refuse b then (1, b)
      else if p \<in> bench_rows b then (ERROR_OBJECT_ALREADY_EXISTS, b)
      else (NO_ERROR, b\<lparr>bench_rows := insert p (bench_rows b)\<rparr>))"

definition bench_delete :: "prefix \<Rightarrow> bench \<Rightarrow> u32 \<times> bench" where
  "bench_delete p b =
     (if p \<in> bench_refuse b then (1, b)
      else if p \<notin> bench_rows b then (ERROR_NOT_FOUND, b)
      else (NO_ERROR, b\<lparr>bench_rows := bench_rows b - {p}\<rparr>))"

interpretation bench: forward_table bench_create bench_delete bench_rows
  by unfold_locales
    (auto simp: bench_create_def bench_delete_def NO_ERROR_def ERROR_OBJECT_ALREADY_EXISTS_def
      ERROR_NOT_FOUND_def split: if_splits)

section \<open>The properties\<close>

text \<open>C15. Whatever rows the system refuses, the installed set and the table move together, row for row: no
  prefix outside the difference is touched; without an error the wanted set is what is installed, and
  what is reported as moved is the difference; with one the set still differs from the wanted one, so
  the next call will see to what is left.\<close>

theorem apply_keeps_books:
  assumes "forward_table create delete rows" "finite installed" "finite wanted"
    and "routes_apply (add_route create) (remove_route delete) installed wanted os = (r, installed', os')"
  shows "rows os' = rows os - (installed - installed') \<union> (installed' - installed) \<and>
    installed \<inter> wanted \<subseteq> installed' \<and> installed' \<subseteq> installed \<union> wanted \<and>
    (case r of
       Inl e \<Rightarrow> installed' \<noteq> wanted
     | Inr c \<Rightarrow> installed' = wanted \<and> set (ch_removed c) = installed - wanted \<and> set (ch_added c) = wanted - installed)"
  using forward_table.adapter_books[OF assms(1,4,2,3)] by (auto split: sum.split)

definition sample_bench :: bench where
  "sample_bench = \<lparr>bench_rows = {(V4 1, 32), (V4 2, 32)}, bench_refuse = {(V4 2, 32), (V4 4, 32)}\<rparr>"

theorem apply_keeps_books_witness:
  "routes_apply (add_route bench_create) (remove_route bench_delete) {(V4 1, 32), (V4 2, 32)} {(V4 3, 32), (V4 4, 32)}
      sample_bench = (Inl (RouteRemoval (V4 2) 32 1), {(V4 2, 32), (V4 3, 32)},
        sample_bench\<lparr>bench_rows := {(V4 2, 32), (V4 3, 32)}\<rparr>) \<and>
   {(V4 2, 32), (V4 3, 32)} \<noteq> {(V4 3, 32 :: u8), (V4 4, 32)}"
proof -
  have run: "routes_apply (add_route bench_create) (remove_route bench_delete) {(V4 1, 32), (V4 2, 32)} {(V4 3, 32), (V4 4, 32)}
      sample_bench = (Inl (RouteRemoval (V4 2) 32 1), {(V4 2, 32), (V4 3, 32)},
        sample_bench\<lparr>bench_rows := {(V4 2, 32), (V4 3, 32)}\<rparr>)"
    by code_simp
  then show ?thesis
    using apply_keeps_books[OF bench.forward_table_axioms _ _ run] by simp
qed

end
