(* ===== verification/Line_Source.thy ===== *)
theory Line_Source
  imports Masqr_Prelude
begin

text \<open>
  The line side of a destination, \<open>src/tun/outside.rs\<close>: which interface would carry a packet there if
  this core's adapter were not in the table. The rows of the forwarding table, an interface's metric
  and the source address the stack would choose_line on an interface are the operating system's answers,
  and parameters.
\<close>

section \<open>Covering\<close>

text \<open>The mask \<open>MAX << (w - length)\<close>; a length of zero is treated apart, as in the source, where the
  shift would be by the whole width.\<close>

definition covers :: "ip_addr \<Rightarrow> u8 \<Rightarrow> ip_addr \<Rightarrow> bool" where
  "covers prefix len destination =
     (case (prefix, destination) of
        (V4 p, V4 d) \<Rightarrow>
          let n = min (unat len) 32 in n = 0 \<or>
            (let mask = push_bit (32 - n) (- 1) in p AND mask = d AND mask)
      | (V6 p, V6 d) \<Rightarrow>
          let n = min (unat len) 128 in n = 0 \<or>
            (let mask = push_bit (128 - n) (- 1) in p AND mask = d AND mask)
      | _ \<Rightarrow> False)"

definition is_link_local :: "ip_addr \<Rightarrow> bool" where
  "is_link_local address =
     (case address of
        V4 a \<Rightarrow> drop_bit 16 a = 0xA9FE
      | V6 a \<Rightarrow> drop_bit 112 a AND 0xffc0 = 0xfe80)"

section \<open>Choosing\<close>

record candidate =
  cd_luid :: u64
  cd_prefix :: u8
  cd_metric :: u32

text \<open>\<open>a.prefix.cmp(&b.prefix).then_with(|| b.metric.cmp(&a.metric))\<close>, as at most.\<close>

definition no_better :: "candidate \<Rightarrow> candidate \<Rightarrow> bool" where
  "no_better a b \<longleftrightarrow> cd_prefix a < cd_prefix b \<or> cd_prefix a = cd_prefix b \<and> cd_metric b \<le> cd_metric a"

definition choose_line :: "candidate list \<Rightarrow> u64 option" where
  "choose_line candidates = map_option cd_luid (max_by no_better candidates)"

text \<open>A row of the forwarding table; the prefix is \<open>None\<close> for a family this does not read.\<close>

record forward_row =
  fr_luid :: u64
  fr_prefix :: "ip_addr option"
  fr_length :: u8
  fr_metric :: u32

definition saturating_add :: "u32 \<Rightarrow> u32 \<Rightarrow> u32" where
  "saturating_add a b = (if uint a + uint b < 2 ^ 32 then a + b else - 1)"

fun routes_to :: "(u64 \<Rightarrow> u32 option) \<Rightarrow> u64 \<Rightarrow> ip_addr \<Rightarrow> forward_row list \<Rightarrow> candidate list" where
  "routes_to interface_metric ours destination [] = []"
| "routes_to interface_metric ours destination (row # rows) =
     (if fr_luid row = ours then routes_to interface_metric ours destination rows
      else (case fr_prefix row of
          None \<Rightarrow> routes_to interface_metric ours destination rows
        | Some prefix \<Rightarrow>
            if \<not> covers prefix (fr_length row) destination then routes_to interface_metric ours destination rows
            else (case interface_metric (fr_luid row) of
                None \<Rightarrow> routes_to interface_metric ours destination rows
              | Some interface \<Rightarrow>
                  \<lparr>cd_luid = fr_luid row, cd_prefix = fr_length row,
                    cd_metric = saturating_add (fr_metric row) interface\<rparr>
                  # routes_to interface_metric ours destination rows)))"

text \<open>What the operating system answers: its forwarding table for a family (or an error), the metric of
  a connected interface, and the source address its best route over one interface would use.\<close>

record stack =
  sk_rows :: "bool \<Rightarrow> forward_row list option"
  sk_metric :: "bool \<Rightarrow> u64 \<Rightarrow> u32 option"
  sk_source :: "u64 \<Rightarrow> ip_addr \<Rightarrow> ip_addr option"

definition is_unspecified :: "ip_addr \<Rightarrow> bool" where
  "is_unspecified address = (case address of V4 a \<Rightarrow> a = 0 | V6 a \<Rightarrow> a = 0)"

definition source_for :: "stack \<Rightarrow> u64 \<Rightarrow> ip_addr \<Rightarrow> ip_addr option" where
  "source_for sk ours destination =
     (if is_link_local destination then None
      else let family = is_ipv4 destination;
          rows = (case sk_rows sk family of None \<Rightarrow> [] | Some rows \<Rightarrow> rows) in
        (case choose_line (routes_to (sk_metric sk family) ours destination rows) of
           None \<Rightarrow> None
         | Some luid \<Rightarrow> Option.bind (sk_source sk luid destination)
             (\<lambda>address. if is_unspecified address then None else Some address)))"

section \<open>The properties\<close>

lemma mask_agree:
  fixes p d :: "'a::len word"
  assumes "n \<le> LENGTH('a)"
  shows "p AND push_bit (LENGTH('a) - n) (- 1) = d AND push_bit (LENGTH('a) - n) (- 1) \<longleftrightarrow>
    drop_bit (LENGTH('a) - n) p = drop_bit (LENGTH('a) - n) d"
proof
  let ?k = "LENGTH('a) - n"
  assume eq: "p AND push_bit ?k (- 1) = d AND push_bit ?k (- 1)"
  show "drop_bit ?k p = drop_bit ?k d"
  proof (rule bit_word_eqI)
    fix j assume "j < LENGTH('a)"
    have "bit (p AND push_bit ?k (- 1)) (?k + j) = bit (d AND push_bit ?k (- 1)) (?k + j)" by (simp only: eq)
    then show "bit (drop_bit ?k p) j = bit (drop_bit ?k d) j"
      by (auto simp: bit_simps dest: bit_imp_le_length)
  qed
next
  let ?k = "LENGTH('a) - n"
  assume eq: "drop_bit ?k p = drop_bit ?k d"
  show "p AND push_bit ?k (- 1) = d AND push_bit ?k (- 1)"
  proof (rule bit_word_eqI)
    fix j assume "j < LENGTH('a)"
    have "bit (drop_bit ?k p) (j - ?k) = bit (drop_bit ?k d) (j - ?k)" by (simp only: eq)
    then show "bit (p AND push_bit ?k (- 1)) j = bit (d AND push_bit ?k (- 1)) j"
      by (auto simp: bit_simps)
  qed
qed

text \<open>A prefix covers an address exactly when they are of one family and agree on the first \<open>length\<close>
  bits, a length beyond the family's width meaning all of them.\<close>

theorem covers_iff:
  "covers prefix len destination \<longleftrightarrow>
     (\<exists>p d. prefix = V4 p \<and> destination = V4 d \<and> drop_bit (32 - unat len) p = drop_bit (32 - unat len) d) \<or>
     (\<exists>p d. prefix = V6 p \<and> destination = V6 d \<and> drop_bit (128 - unat len) p = drop_bit (128 - unat len) d)"
proof (cases prefix; cases destination)
  fix p d assume a: "prefix = V4 p" "destination = V4 d"
  have eq: "32 - min (unat len) 32 = 32 - unat len" by simp
  have "drop_bit 32 p = drop_bit 32 d" by (simp add: bit_eq_iff bit_simps) 
  then show ?thesis using mask_agree[of "min (unat len) 32" p d] a eq
    by (auto simp: covers_def Let_def)
next
  fix p d assume a: "prefix = V6 p" "destination = V6 d"
  have eq: "128 - min (unat len) 128 = 128 - unat len" by simp
  have "drop_bit 128 p = drop_bit 128 d" by (simp add: bit_eq_iff bit_simps)
  then show ?thesis using mask_agree[of "min (unat len) 128" p d] a eq
    by (auto simp: covers_def Let_def)
qed (simp_all add: covers_def)

lemma choose_best:
  assumes "choose_line cs = Some luid"
  obtains c where "c \<in> set cs" "cd_luid c = luid" "\<forall>d\<in>set cs. no_better d c"
proof -
  obtain c where m: "max_by no_better cs = Some c" "cd_luid c = luid" using assms by (auto simp: choose_line_def)
  have "\<forall>a b. no_better a b \<or> no_better b a" "\<forall>a b c. no_better a b \<longrightarrow> no_better b c \<longrightarrow> no_better a c"
    by (auto simp: no_better_def)
  from max_by_Some[OF m(1) this] m(2) show ?thesis using that by blast
qed

lemma routes_to_set:
  "c \<in> set (routes_to metric ours destination rows) \<longleftrightarrow>
     (\<exists>row\<in>set rows. \<exists>prefix interface. fr_luid row \<noteq> ours \<and> fr_prefix row = Some prefix \<and>
       covers prefix (fr_length row) destination \<and> metric (fr_luid row) = Some interface \<and>
       c = \<lparr>cd_luid = fr_luid row, cd_prefix = fr_length row, cd_metric = saturating_add (fr_metric row) interface\<rparr>)"
  by (induction rows) (auto split: option.split)

text \<open>The source address is taken from the interface the stack would pick with this core's adapter left
  out of the table: its row covers the destination, no covering row of another connected interface is
  longer, and none as long is cheaper.\<close>

theorem source_for_line:
  assumes "source_for sk ours destination = Some address"
  shows "\<exists>rows row prefix interface. sk_rows sk (is_ipv4 destination) = Some rows \<and> row \<in> set rows \<and>
    fr_luid row \<noteq> ours \<and> fr_prefix row = Some prefix \<and> covers prefix (fr_length row) destination \<and>
    sk_metric sk (is_ipv4 destination) (fr_luid row) = Some interface \<and>
    sk_source sk (fr_luid row) destination = Some address \<and> \<not> is_unspecified address \<and>
    (\<forall>other\<in>set rows. \<forall>p m. fr_luid other \<noteq> ours \<longrightarrow> fr_prefix other = Some p \<longrightarrow>
       covers p (fr_length other) destination \<longrightarrow> sk_metric sk (is_ipv4 destination) (fr_luid other) = Some m \<longrightarrow>
       fr_length other < fr_length row \<or> fr_length other = fr_length row \<and>
         saturating_add (fr_metric row) interface \<le> saturating_add (fr_metric other) m)"
proof -
  let ?f = "is_ipv4 destination"
  define rows where "rows = (case sk_rows sk ?f of None \<Rightarrow> [] | Some rows \<Rightarrow> rows)"
  obtain luid where luid: "choose_line (routes_to (sk_metric sk ?f) ours destination rows) = Some luid"
      "sk_source sk luid destination = Some address" "\<not> is_unspecified address"
    using assms by (auto simp: source_for_def Let_def rows_def bind_eq_Some_conv split: if_splits option.splits)
  obtain c where c: "c \<in> set (routes_to (sk_metric sk ?f) ours destination rows)" "cd_luid c = luid"
      "\<forall>d\<in>set (routes_to (sk_metric sk ?f) ours destination rows). no_better d c"
    by (rule choose_best[OF luid(1)])
  obtain row prefix interface where r: "row \<in> set rows" "fr_luid row \<noteq> ours" "fr_prefix row = Some prefix"
      "covers prefix (fr_length row) destination" "sk_metric sk ?f (fr_luid row) = Some interface"
      "c = \<lparr>cd_luid = fr_luid row, cd_prefix = fr_length row, cd_metric = saturating_add (fr_metric row) interface\<rparr>"
    using c(1) unfolding routes_to_set by blast
  have "sk_rows sk ?f = Some rows" using r(1) by (cases "sk_rows sk ?f") (auto simp: rows_def)
  moreover have "fr_length other < fr_length row \<or> fr_length other = fr_length row \<and>
         saturating_add (fr_metric row) interface \<le> saturating_add (fr_metric other) m"
    if "other \<in> set rows" "fr_luid other \<noteq> ours" "fr_prefix other = Some p" "covers p (fr_length other) destination"
      "sk_metric sk ?f (fr_luid other) = Some m" for other p m
  proof -
    have "\<lparr>cd_luid = fr_luid other, cd_prefix = fr_length other, cd_metric = saturating_add (fr_metric other) m\<rparr>
        \<in> set (routes_to (sk_metric sk ?f) ours destination rows)"
      unfolding routes_to_set using that by blast
    then show ?thesis using c(3) r(6) by (fastforce simp: no_better_def)
  qed
  moreover have "fr_luid row = luid" using c(2) r(6) by simp
  ultimately show ?thesis using r luid by (intro exI[of _ rows] exI[of _ row] exI[of _ prefix] exI[of _ interface]) simp
qed

definition sample_stack :: stack where
  "sample_stack = \<lparr>sk_rows = (\<lambda>_. Some
      [\<lparr>fr_luid = 7, fr_prefix = Some (V4 0x08080808), fr_length = 32, fr_metric = 0\<rparr>,
       \<lparr>fr_luid = 9, fr_prefix = Some (V4 0), fr_length = 0, fr_metric = 25\<rparr>]),
     sk_metric = (\<lambda>_ _. Some 10), sk_source = (\<lambda>luid _. if luid = 9 then Some (V4 0xC0A80002) else None)\<rparr>"

theorem source_for_line_witness:
  "source_for sample_stack 7 (V4 0x08080808) = Some (V4 0xC0A80002) \<and>
   sk_source sample_stack 9 (V4 0x08080808) = Some (V4 0xC0A80002)"
proof -
  have "source_for sample_stack 7 (V4 0x08080808) = Some (V4 0xC0A80002)" by code_simp
  from this source_for_line[OF this] show ?thesis by (auto simp: sample_stack_def)
qed

end
