(* ===== verification/Dns_Lease.thy ===== *)
theory Dns_Lease
  imports Dns_Message "HOL-Library.AList" "HOL-Library.List_Lexorder" "HOL-Library.Char_ord"
begin

text \<open>
  How long an address stays routed because a name resolved to it, \<open>src/dns/lease.rs\<close>: the table of
  leases, their bounds, renewal by an answer and by use, expiry, and the eviction that holds the
  table to its size.

  The hash map is an association list in the order it is iterated in; the order matters only to which
  of several leases with one expiry is evicted, and no property here depends on it. Locks and atomics
  are steps of one state.
\<close>

section \<open>The table\<close>

definition MIN_LEASE :: duration where "MIN_LEASE = from_secs 600"
definition MAX_LEASE :: duration where "MAX_LEASE = from_secs 3600"
definition MAX_LEASES :: nat where "MAX_LEASES = 8192"

record lease =
  ls_expires :: nat
  ls_names :: "string set"

type_synonym held = "(ip_addr \<times> lease) list"

record leases =
  ls_base :: instant
  ls_held :: held

definition leases_new :: "instant \<Rightarrow> leases" where
  "leases_new now = \<lparr>ls_base = now, ls_held = []\<rparr>"

definition as_millis :: "duration \<Rightarrow> nat" where
  "as_millis d = d div 1000000"

definition lease_lifetime :: "u32 \<Rightarrow> duration" where
  "lease_lifetime ttl = min (max (from_secs (unat ttl)) MIN_LEASE) MAX_LEASE"

definition lease_millis :: "leases \<Rightarrow> instant \<Rightarrow> nat" where
  "lease_millis t now = as_millis (now - ls_base t)"

section \<open>Operations\<close>

definition evict_one :: "held \<Rightarrow> held" where
  "evict_one held =
     (case min_by (\<lambda>x y. ls_expires (snd x) \<le> ls_expires (snd y)) held of
        None \<Rightarrow> held
      | Some (address, _) \<Rightarrow> AList.delete address held)"

text \<open>One record of an answer; the flag says whether an address came in.\<close>

definition record_one :: "string \<Rightarrow> nat \<Rightarrow> dns_record \<Rightarrow> held \<times> bool \<Rightarrow> held \<times> bool" where
  "record_one name now_ms r = (\<lambda>(held, changed).
     let expires = now_ms + as_millis (lease_lifetime (r_ttl r)) in
     (case map_of held (r_address r) of
        Some l \<Rightarrow>
          (AList.update (r_address r)
             (l\<lparr>ls_expires := max (ls_expires l) expires, ls_names := insert name (ls_names l)\<rparr>) held,
           changed)
      | None \<Rightarrow>
          (AList.update (r_address r) \<lparr>ls_expires = expires, ls_names = {name}\<rparr>
             (if MAX_LEASES \<le> length held then evict_one held else held),
           True)))"

definition lease_record :: "string \<Rightarrow> dns_record list \<Rightarrow> instant \<Rightarrow> leases \<Rightarrow> bool \<times> leases" where
  "lease_record name records now t =
     (if records = [] then (False, t)
      else (case fold (record_one name (lease_millis t now)) records (ls_held t, False) of
          (held, changed) \<Rightarrow> (changed, t\<lparr>ls_held := held\<rparr>)))"

definition lease_touch :: "ip_addr \<Rightarrow> instant \<Rightarrow> leases \<Rightarrow> leases" where
  "lease_touch address now t =
     (case map_of (ls_held t) address of
        None \<Rightarrow> t
      | Some l \<Rightarrow> t\<lparr>ls_held := AList.update address
          (l\<lparr>ls_expires := max (ls_expires l) (lease_millis t now + as_millis MIN_LEASE)\<rparr>) (ls_held t)\<rparr>)"

definition lease_expire :: "instant \<Rightarrow> leases \<Rightarrow> bool \<times> leases" where
  "lease_expire now t =
     (let held = filter (\<lambda>(_, l). lease_millis t now < ls_expires l) (ls_held t)
      in (length held \<noteq> length (ls_held t), t\<lparr>ls_held := held\<rparr>))"

definition lease_addresses :: "leases \<Rightarrow> ip_addr list" where
  "lease_addresses t = map fst (ls_held t)"

definition names_for :: "ip_addr \<Rightarrow> leases \<Rightarrow> string list" where
  "names_for address t =
     (case map_of (ls_held t) address of None \<Rightarrow> [] | Some l \<Rightarrow> sorted_list_of_set (ls_names l))"

definition lease_len :: "leases \<Rightarrow> nat" where
  "lease_len t = length (ls_held t)"

definition lease_is_empty :: "leases \<Rightarrow> bool" where
  "lease_is_empty t = (lease_len t = 0)"

section \<open>The table stays a table, and within its size\<close>

definition held_ok :: "held \<Rightarrow> bool" where
  "held_ok held \<longleftrightarrow> distinct (map fst held) \<and> length held \<le> MAX_LEASES"

definition leases_ok :: "leases \<Rightarrow> bool" where
  "leases_ok t \<longleftrightarrow> held_ok (ls_held t)"

abbreviation lease_of :: "leases \<Rightarrow> ip_addr \<Rightarrow> lease option" where
  "lease_of t \<equiv> map_of (ls_held t)"

lemma length_AList_update:
  "length (AList.update k v xs) = (if k \<in> fst ` set xs then length xs else Suc (length xs))"
  by (induction xs) auto

lemma length_AList_delete_less: "k \<in> fst ` set xs \<Longrightarrow> length (AList.delete k xs) < length xs"
  by (auto simp: AList.delete_eq intro!: length_filter_less)

text \<open>The victim has the least expiry of the table.\<close>

lemma evict_one_cases:
  assumes "held \<noteq> []"
  obtains victim l where "(victim, l) \<in> set held" "evict_one held = AList.delete victim held"
    "\<forall>(a, m)\<in>set held. ls_expires l \<le> ls_expires m"
proof -
  obtain victim l where m: "min_by (\<lambda>x y. ls_expires (snd x) \<le> ls_expires (snd y)) held = Some (victim, l)"
    using assms by (cases "min_by (\<lambda>x y. ls_expires (snd x) \<le> ls_expires (snd y)) held") auto
  show ?thesis
  proof (rule that)
    show "(victim, l) \<in> set held" "\<forall>(a, m)\<in>set held. ls_expires l \<le> ls_expires m"
      using min_by_Some[OF m] by (auto simp: linear)
    show "evict_one held = AList.delete victim held" by (simp add: evict_one_def m)
  qed
qed

text \<open>One record, on what the table says of each address.\<close>

lemma record_one_present:
  assumes "map_of held (r_address r) = Some l"
  shows "record_one name now_ms r (held, changed) =
    (AList.update (r_address r) (l\<lparr>ls_expires := max (ls_expires l) (now_ms + as_millis (lease_lifetime (r_ttl r))),
       ls_names := insert name (ls_names l)\<rparr>) held, changed)"
  using assms by (simp add: record_one_def)

lemma record_one_room:
  assumes "map_of held (r_address r) = None" "length held < MAX_LEASES"
  shows "record_one name now_ms r (held, changed) =
    (AList.update (r_address r) \<lparr>ls_expires = now_ms + as_millis (lease_lifetime (r_ttl r)), ls_names = {name}\<rparr> held, True)"
  using assms by (simp add: record_one_def)

lemma record_one_full:
  assumes "map_of held (r_address r) = None" "MAX_LEASES \<le> length held"
  obtains victim l where "map_of held victim \<noteq> None" "(victim, l) \<in> set held"
    "\<forall>(a, m)\<in>set held. ls_expires l \<le> ls_expires m"
    "record_one name now_ms r (held, changed) =
      (AList.update (r_address r) \<lparr>ls_expires = now_ms + as_millis (lease_lifetime (r_ttl r)), ls_names = {name}\<rparr>
        (AList.delete victim held), True)"
proof -
  have "held \<noteq> []" using assms(2) by (auto simp: MAX_LEASES_def)
  then obtain victim l where v: "(victim, l) \<in> set held" "evict_one held = AList.delete victim held"
    "\<forall>(a, m)\<in>set held. ls_expires l \<le> ls_expires m" by (rule evict_one_cases)
  have "map_of held victim \<noteq> None" using v(1) by (metis weak_map_of_SomeI option.distinct(1))
  then show ?thesis by (rule that[OF _ v(1,3)]) (use assms v(2) in \<open>simp add: record_one_def\<close>)
qed

lemma record_one_ok:
  assumes "held_ok held"
  shows "held_ok (fst (record_one name now_ms r (held, changed)))"
proof (cases "map_of held (r_address r)")
  case (Some l)
  then have "r_address r \<in> fst ` set held" by (force dest: map_of_SomeD)
  then show ?thesis using assms record_one_present[OF Some, of name now_ms changed]
    by (simp add: held_ok_def length_AList_update distinct_update)
next
  case None
  then have new: "r_address r \<notin> fst ` set held" by (simp add: map_of_eq_None_iff)
  show ?thesis
  proof (cases "length held < MAX_LEASES")
    case True
    then show ?thesis using assms new record_one_room[OF None True, of name now_ms changed]
      by (simp add: held_ok_def length_AList_update distinct_update)
  next
    case False
    then obtain victim l where v: "(victim, l) \<in> set held"
      "record_one name now_ms r (held, changed) =
        (AList.update (r_address r) \<lparr>ls_expires = now_ms + as_millis (lease_lifetime (r_ttl r)), ls_names = {name}\<rparr>
          (AList.delete victim held), True)"
      by (metis record_one_full[OF None] not_less)
    have "length (AList.delete victim held) < length held"
      using v(1) by (intro length_AList_delete_less) force
    then show ?thesis using assms v(2)
      by (simp add: held_ok_def length_AList_update distinct_update distinct_delete)
  qed
qed

lemma record_fold_ok: "held_ok (fst s) \<Longrightarrow> held_ok (fst (fold (record_one name now_ms) rs s))"
proof (induction rs arbitrary: s)
  case (Cons r rs)
  have "held_ok (fst (record_one name now_ms r s))"
    using record_one_ok[of "fst s" name now_ms r "snd s"] Cons.prems by simp
  then show ?case by (simp add: Cons.IH)
qed simp

section \<open>Recording with room\<close>

text \<open>One record when there is room: the address is held at least as long as the record asks, nothing
  is let go or shortened, and the flag is raised only for an address that was not held.\<close>

definition grows :: "(ip_addr \<rightharpoonup> lease) \<Rightarrow> (ip_addr \<rightharpoonup> lease) \<Rightarrow> bool" where
  "grows m m' \<longleftrightarrow> (\<forall>a l. m a = Some l \<longrightarrow>
     (\<exists>l'. m' a = Some l' \<and> ls_expires l \<le> ls_expires l' \<and> ls_names l \<subseteq> ls_names l'))"

lemma grows_refl: "grows m m"
  by (auto simp: grows_def)

lemma grows_trans: "grows m m' \<Longrightarrow> grows m' m'' \<Longrightarrow> grows m m''"
  unfolding grows_def by (meson order_trans)

definition believed :: "string \<Rightarrow> nat \<Rightarrow> dns_record \<Rightarrow> (ip_addr \<rightharpoonup> lease) \<Rightarrow> bool" where
  "believed name now_ms r m \<longleftrightarrow> (\<exists>l. m (r_address r) = Some l \<and>
     now_ms + as_millis (lease_lifetime (r_ttl r)) \<le> ls_expires l \<and> name \<in> ls_names l)"

lemma believed_grows: "believed name now_ms r m \<Longrightarrow> grows m m' \<Longrightarrow> believed name now_ms r m'"
  unfolding believed_def grows_def by (meson order_trans subsetD)

lemma card_held: "held_ok held \<Longrightarrow> card (dom (map_of held)) = length held"
  unfolding held_ok_def dom_map_of_conv_image_fst by (metis distinct_card length_map list.set_map)

lemma record_one_grows:
  assumes "held_ok held" "card (insert (r_address r) (dom (map_of held))) \<le> MAX_LEASES"
    and "record_one name now_ms r (held, changed) = (held', changed')"
  shows "grows (map_of held) (map_of held') \<and> believed name now_ms r (map_of held') \<and>
    dom (map_of held') = insert (r_address r) (dom (map_of held)) \<and>
    (changed' \<longleftrightarrow> changed \<or> r_address r \<notin> dom (map_of held))"
proof (cases "map_of held (r_address r)")
  case (Some l)
  then show ?thesis
    using assms(3) record_one_present[OF Some, of name now_ms changed]
    by (auto simp: grows_def believed_def update_conv')
next
  case None
  then have "length held < MAX_LEASES" using assms(1,2) card_held[OF assms(1)]
    by (simp add: domIff finite_dom_map_of)
  then show ?thesis
    using assms(3) None record_one_room[OF None, of name now_ms changed]
    by (auto simp: grows_def believed_def update_conv')
qed

lemma record_fold_grows:
  assumes "held_ok held" "card (dom (map_of held) \<union> r_address ` set rs) \<le> MAX_LEASES"
    and "fold (record_one name now_ms) rs (held, changed) = (held', changed')"
  shows "grows (map_of held) (map_of held') \<and> (\<forall>r\<in>set rs. believed name now_ms r (map_of held')) \<and>
    dom (map_of held') = dom (map_of held) \<union> r_address ` set rs \<and>
    (changed' \<longleftrightarrow> changed \<or> \<not> r_address ` set rs \<subseteq> dom (map_of held))"
  using assms
proof (induction rs arbitrary: held changed)
  case Nil
  then show ?case by (simp add: grows_refl)
next
  case (Cons r rs)
  obtain h c where one: "record_one name now_ms r (held, changed) = (h, c)" by fastforce
  have "card (insert (r_address r) (dom (map_of held))) \<le> card (dom (map_of held) \<union> r_address ` set (r # rs))"
    by (intro card_mono) (auto simp: finite_dom_map_of)
  then have "card (insert (r_address r) (dom (map_of held))) \<le> MAX_LEASES" using Cons.prems(2) by simp
  note g = record_one_grows[OF Cons.prems(1) this one]
  have ok: "held_ok h" using record_one_ok[OF Cons.prems(1), of name now_ms r changed] one by simp
  have rest: "grows (map_of h) (map_of held') \<and> (\<forall>r\<in>set rs. believed name now_ms r (map_of held')) \<and>
      dom (map_of held') = dom (map_of h) \<union> r_address ` set rs \<and>
      (changed' \<longleftrightarrow> c \<or> \<not> r_address ` set rs \<subseteq> dom (map_of h))"
    by (rule Cons.IH[OF ok]) (use Cons.prems(2,3) one g in simp_all)
  have g1: "grows (map_of held) (map_of h)" "believed name now_ms r (map_of h)"
    "dom (map_of h) = insert (r_address r) (dom (map_of held))"
    "c \<longleftrightarrow> changed \<or> r_address r \<notin> dom (map_of held)" by (use g in argo)+
  have r1: "grows (map_of h) (map_of held')" by (use rest in argo)
  have "grows (map_of held) (map_of held')" by (rule grows_trans[OF g1(1) r1])
  moreover have "believed name now_ms r (map_of held')" by (rule believed_grows[OF g1(2) r1])
  ultimately show ?case using rest unfolding g1(3,4) by auto
qed

text \<open>An answer that brings no new address leaves the set of addresses as it was, full table or not.\<close>

lemma record_one_flag: "snd s \<Longrightarrow> snd (record_one name now_ms r s)"
  by (auto simp: record_one_def Let_def split: prod.split option.split)

lemma record_fold_flag: "snd s \<Longrightarrow> snd (fold (record_one name now_ms) rs s)"
proof (induction rs arbitrary: s)
  case (Cons r rs)
  then show ?case using Cons.IH[OF record_one_flag[OF Cons.prems]] by simp
qed simp

lemma record_fold_unchanged:
  "\<not> snd (fold (record_one name now_ms) rs s) \<Longrightarrow>
     fst ` set (fst (fold (record_one name now_ms) rs s)) = fst ` set (fst s)"
proof (induction rs arbitrary: s)
  case (Cons r rs)
  have "\<not> snd (record_one name now_ms r s)" using Cons.prems record_fold_flag[of "record_one name now_ms r s"] by auto
  then have "fst ` set (fst (record_one name now_ms r s)) = fst ` set (fst s)"
    by (auto simp: record_one_def Let_def dom_update image_iff map_of_eq_None_iff
        split: prod.splits option.splits) (force dest: map_of_SomeD)+
  then show ?case using Cons by simp
qed simp

lemma lease_record_unchanged:
  assumes "lease_record name records now t = (changed, t')" "\<not> changed"
  shows "set (lease_addresses t') = set (lease_addresses t)"
proof (cases "records = []")
  case False
  then obtain held where "fold (record_one name (lease_millis t now)) records (ls_held t, False) = (held, changed)"
      "t' = t\<lparr>ls_held := held\<rparr>"
    using assms(1) by (auto simp: lease_record_def split: prod.splits)
  then show ?thesis using assms(2) record_fold_unchanged[of name "lease_millis t now" records "(ls_held t, False)"]
    by (simp add: lease_addresses_def)
qed (use assms in \<open>simp add: lease_record_def\<close>)

section \<open>The properties\<close>

text \<open>While the table has room for what an answer names, every address of the answer is held at least as
  long as its record says, within the bounds, and under the name asked for; nothing held before is let
  go or shortened; and the change that is reported is a change of the set of addresses.\<close>

theorem lease_record_holds:
  assumes "leases_ok t" "card (set (lease_addresses t) \<union> r_address ` set records) \<le> MAX_LEASES"
    and "lease_record name records now t = (changed, t')"
  shows "(\<forall>r\<in>set records. \<exists>l. lease_of t' (r_address r) = Some l \<and> name \<in> ls_names l \<and>
      lease_millis t now + as_millis (lease_lifetime (r_ttl r)) \<le> ls_expires l) \<and>
    (\<forall>a l. lease_of t a = Some l \<longrightarrow> (\<exists>l'. lease_of t' a = Some l' \<and> ls_expires l \<le> ls_expires l')) \<and>
    set (lease_addresses t') = set (lease_addresses t) \<union> r_address ` set records \<and>
    (changed \<longleftrightarrow> set (lease_addresses t') \<noteq> set (lease_addresses t))"
proof (cases "records = []")
  case True
  then show ?thesis using assms(3) by (auto simp: lease_record_def)
next
  case False
  obtain held where f: "fold (record_one name (lease_millis t now)) records (ls_held t, False) = (held, changed)"
      "t' = t\<lparr>ls_held := held\<rparr>"
    using assms(3) False by (auto simp: lease_record_def split: prod.splits)
  have dom: "set (lease_addresses u) = dom (lease_of u)" for u
    by (simp add: lease_addresses_def dom_map_of_conv_image_fst)
  have g: "grows (lease_of t) (map_of held)" "\<forall>r\<in>set records. believed name (lease_millis t now) r (map_of held)"
    "dom (map_of held) = dom (lease_of t) \<union> r_address ` set records"
    "changed \<longleftrightarrow> \<not> r_address ` set records \<subseteq> dom (lease_of t)"
    using record_fold_grows[of "ls_held t" records name "lease_millis t now" False held changed]
      assms(1,2) f(1) dom[of t] by (simp_all add: leases_ok_def)
  show ?thesis using g f(2) unfolding dom grows_def believed_def by (auto 4 3)
qed

definition sample_record :: dns_record where
  "sample_record = \<lparr>r_name = ''edge.example.com'', r_address = V4 0x01020304, r_ttl = 30\<rparr>"

theorem lease_record_holds_witness:
  "\<exists>l. lease_of (snd (lease_record ''a.test'' [sample_record] 0 (leases_new 0))) (V4 0x01020304) = Some l \<and>
    600000 \<le> ls_expires l"
proof -
  define r where "r = lease_record ''a.test'' [sample_record] 0 (leases_new 0)"
  have "leases_ok (leases_new 0)"
    by (simp add: leases_ok_def held_ok_def leases_new_def)
  moreover have "card (set (lease_addresses (leases_new 0)) \<union> r_address ` set [sample_record]) \<le> MAX_LEASES"
    by (simp add: lease_addresses_def leases_new_def MAX_LEASES_def)
  moreover have "lease_record ''a.test'' [sample_record] 0 (leases_new 0) = (fst r, snd r)" by (simp add: r_def)
  ultimately have "\<forall>x\<in>set [sample_record]. \<exists>l. lease_of (snd r) (r_address x) = Some l \<and> ''a.test'' \<in> ls_names l \<and>
      lease_millis (leases_new 0) 0 + as_millis (lease_lifetime (r_ttl x)) \<le> ls_expires l"
    by (rule lease_record_holds[THEN conjunct1])
  then show ?thesis
    by (auto simp: r_def sample_record_def lease_millis_def as_millis_def lease_lifetime_def MIN_LEASE_def
        MAX_LEASE_def from_secs_def)
qed

section \<open>Sequences of operations\<close>

datatype lease_op = Answered string "dns_record list" | Used ip_addr | Swept

fun lease_step :: "instant \<times> lease_op \<Rightarrow> leases \<Rightarrow> leases" where
  "lease_step (now, Answered name records) t = snd (lease_record name records now t)"
| "lease_step (now, Used address) t = lease_touch address now t"
| "lease_step (now, Swept) t = snd (lease_expire now t)"

fun named :: "lease_op \<Rightarrow> ip_addr set" where
  "named (Answered name records) = r_address ` set records"
| "named _ = {}"

lemma finite_named: "finite (named op)"
  by (cases op) auto

lemma lease_touch_of:
  "lease_of (lease_touch a now t) b =
     (if b = a then map_option (\<lambda>l. l\<lparr>ls_expires := max (ls_expires l) (lease_millis t now + as_millis MIN_LEASE)\<rparr>) (lease_of t a)
      else lease_of t b)"
  by (auto simp: lease_touch_def update_conv' split: option.split)

lemma touch_addresses [simp]: "set (lease_addresses (lease_touch a now t)) = set (lease_addresses t)"
proof (cases "map_of (ls_held t) a")
  case (Some l)
  then have "a \<in> fst ` set (ls_held t)" by (metis domI dom_map_of_conv_image_fst)
  then show ?thesis using Some by (simp add: lease_touch_def lease_addresses_def dom_update insert_absorb)
qed (simp add: lease_touch_def)

lemma map_of_filter_val: "distinct (map fst xs) \<Longrightarrow> map_of (filter (\<lambda>(_, l). P l) xs) a =
    (case map_of xs a of Some l \<Rightarrow> if P l then Some l else None | None \<Rightarrow> None)"
  by (induction xs) (auto simp: map_of_eq_None_iff split: option.splits dest: map_of_SomeD)

lemma lease_expire_of:
  assumes "leases_ok t"
  shows "lease_of (snd (lease_expire now t)) a =
    (case lease_of t a of Some l \<Rightarrow> if lease_millis t now < ls_expires l then Some l else None | None \<Rightarrow> None)"
  using assms by (simp add: lease_expire_def Let_def map_of_filter_val leases_ok_def held_ok_def)

lemma lease_base [simp]:
  "ls_base (lease_touch a now t) = ls_base t" "ls_base (snd (lease_expire now t)) = ls_base t"
  "ls_base (snd (lease_record name records now t)) = ls_base t"
  by (auto simp: lease_touch_def lease_expire_def lease_record_def Let_def split: option.split prod.split)

lemma lease_record_grows:
  assumes "leases_ok t" "card (dom (lease_of t) \<union> r_address ` set records) \<le> MAX_LEASES"
  shows "grows (lease_of t) (lease_of (snd (lease_record name records now t)))"
    "dom (lease_of (snd (lease_record name records now t))) = dom (lease_of t) \<union> r_address ` set records"
proof -
  obtain held changed where f: "fold (record_one name (lease_millis t now)) records (ls_held t, False) = (held, changed)"
    by fastforce
  show "grows (lease_of t) (lease_of (snd (lease_record name records now t)))"
    "dom (lease_of (snd (lease_record name records now t))) = dom (lease_of t) \<union> r_address ` set records"
    using record_fold_grows[OF _ assms(2) f] assms(1) f
    by (auto simp: lease_record_def leases_ok_def grows_refl split: if_splits)
qed

lemma leases_ok_step: "leases_ok t \<Longrightarrow> leases_ok (lease_step nop t)"
proof -
  assume "leases_ok t"
  then have ok: "held_ok (ls_held t)" by (simp add: leases_ok_def)
  obtain now op where nop: "nop = (now, op)" by fastforce
  show ?thesis
  proof (cases op)
    case (Answered name records)
    have "held_ok (fst (fold (record_one name (lease_millis t now)) records (ls_held t, False)))"
      by (rule record_fold_ok) (simp add: ok)
    then show ?thesis using ok Answered nop
      by (auto simp: lease_record_def leases_ok_def split: prod.splits)
  next
    case (Used a)
    show ?thesis
    proof (cases "lease_of t a")
      case (Some l)
      then have "a \<in> fst ` set (ls_held t)" by (force dest: map_of_SomeD)
      then show ?thesis using ok Some Used nop
        by (simp add: lease_touch_def leases_ok_def held_ok_def length_AList_update distinct_update)
    qed (use ok Used nop in \<open>simp add: lease_touch_def leases_ok_def\<close>)
  next
    case Swept
    have "held_ok (filter P (ls_held t))" for P
      using ok order_trans[OF length_filter_le[of P "ls_held t"]] by (simp add: held_ok_def distinct_map_filter)
    then show ?thesis using Swept nop by (simp add: lease_expire_def leases_ok_def Let_def)
  qed
qed

lemma leases_ok_run: "leases_ok t \<Longrightarrow> leases_ok (fold lease_step ops t)"
  by (induction ops arbitrary: t) (auto intro: leases_ok_step)

lemma leases_ok_new: "leases_ok (leases_new base)"
  by (simp add: leases_ok_def held_ok_def leases_new_def)

text \<open>Whatever answers come in, the table has one lease for an address and never more than it may.\<close>

theorem leases_bounded:
  "distinct (lease_addresses (fold lease_step ops (leases_new base))) \<and>
   lease_len (fold lease_step ops (leases_new base)) \<le> MAX_LEASES"
  using leases_ok_run[OF leases_ok_new, of ops base]
  by (simp add: leases_ok_def held_ok_def lease_addresses_def lease_len_def)

text \<open>One step, before an address's time has passed: it is held still, and no less long.\<close>

lemma lease_step_holds:
  assumes "leases_ok t" "lease_of t a = Some l" "lease_millis t now < ls_expires l"
    and "card (dom (lease_of t) \<union> named op) \<le> MAX_LEASES"
  shows "\<exists>l'. lease_of (lease_step (now, op) t) a = Some l' \<and> ls_expires l \<le> ls_expires l'"
    "dom (lease_of (lease_step (now, op) t)) \<subseteq> dom (lease_of t) \<union> named op"
proof -
  show "\<exists>l'. lease_of (lease_step (now, op) t) a = Some l' \<and> ls_expires l \<le> ls_expires l'"
  proof (cases op)
    case (Answered name records)
    then have "grows (lease_of t) (lease_of (lease_step (now, op) t))"
      using lease_record_grows(1)[OF assms(1), of records name now] assms(4) by simp
    then show ?thesis using assms(2) unfolding grows_def by blast
  next
    case (Used b)
    then show ?thesis using assms(2) by (cases "a = b") (auto simp: lease_touch_of)
  next
    case Swept
    then show ?thesis using assms(2,3) lease_expire_of[OF assms(1)] by simp
  qed
  show "dom (lease_of (lease_step (now, op) t)) \<subseteq> dom (lease_of t) \<union> named op"
  proof (cases op)
    case (Answered name records)
    then show ?thesis using lease_record_grows(2)[OF assms(1), of records name now] assms(4) by simp
  next
    case (Used b)
    then show ?thesis by (auto simp: lease_touch_of split: if_splits)
  next
    case Swept
    then show ?thesis using lease_expire_of[OF assms(1)] by (auto split: option.splits if_splits)
  qed
qed

lemma lease_step_base [simp]: "ls_base (lease_step op t) = ls_base t"
  by (cases op; cases "snd op") auto

text \<open>An address is held until its time passes: no sequence of answers, uses and sweeps before then lets
  it go or shortens its lease, while everything the answers name has room in the table.\<close>

theorem lease_held_until:
  assumes "leases_ok t" "lease_of t a = Some l"
    and "\<forall>(now, op)\<in>set ops. lease_millis t now < ls_expires l"
    and "card (dom (lease_of t) \<union> (\<Union>(now, op)\<in>set ops. named op)) \<le> MAX_LEASES"
  shows "\<exists>l'. lease_of (fold lease_step ops t) a = Some l' \<and> ls_expires l \<le> ls_expires l'"
  using assms
proof (induction ops arbitrary: t l)
  case Nil
  then show ?case by simp
next
  case (Cons nop ops)
  obtain now op where nop: "nop = (now, op)" by fastforce
  let ?named = "\<Union>(now, op)\<in>set ops. named op"
  let ?t = "lease_step nop t"
  have fin: "finite (dom (lease_of t) \<union> (named op \<union> ?named))"
    by (auto simp: finite_dom_map_of finite_named)
  have "card (dom (lease_of t) \<union> named op) \<le> card (dom (lease_of t) \<union> (named op \<union> ?named))"
    using fin by (intro card_mono) auto
  then have room: "card (dom (lease_of t) \<union> named op) \<le> MAX_LEASES" using Cons.prems(4) by (simp add: nop)
  have early: "lease_millis t now < ls_expires l" using Cons.prems(3) by (simp add: nop)
  obtain l' where l': "lease_of ?t a = Some l'" "ls_expires l \<le> ls_expires l'"
    using lease_step_holds(1)[OF Cons.prems(1,2) early room] by (auto simp: nop)
  have dom: "dom (lease_of ?t) \<subseteq> dom (lease_of t) \<union> named op"
    using lease_step_holds(2)[OF Cons.prems(1,2) early room] by (simp add: nop)
  have "card (dom (lease_of ?t) \<union> ?named) \<le> card (dom (lease_of t) \<union> (named op \<union> ?named))"
    using dom fin by (intro card_mono) auto
  then have room': "card (dom (lease_of ?t) \<union> ?named) \<le> MAX_LEASES" using Cons.prems(4) by (simp add: nop)
  have "\<forall>(now, op)\<in>set ops. lease_millis ?t now < ls_expires l'"
    using Cons.prems(3) l'(2) by (fastforce simp: lease_millis_def)
  from Cons.IH[OF leases_ok_step[OF Cons.prems(1)] l'(1) this room'] l'(2) show ?case
    by (auto intro: order_trans)
qed

theorem lease_held_until_witness:
  "\<exists>l'. lease_of (fold lease_step [(from_secs 100, Swept), (from_secs 500, Used (V4 1)), (from_secs 700, Swept)]
      \<lparr>ls_base = 0, ls_held = [(V4 1, \<lparr>ls_expires = 800000, ls_names = {}\<rparr>)]\<rparr>) (V4 1) = Some l' \<and>
    800000 \<le> ls_expires l'"
  using lease_held_until[of "\<lparr>ls_base = 0, ls_held = [(V4 1, \<lparr>ls_expires = 800000, ls_names = {}\<rparr>)]\<rparr>" "V4 1"
      "\<lparr>ls_expires = 800000, ls_names = {}\<rparr>" "[(from_secs 100, Swept), (from_secs 500, Used (V4 1)), (from_secs 700, Swept)]"]
  by (simp add: leases_ok_def held_ok_def MAX_LEASES_def lease_millis_def as_millis_def from_secs_def)

section \<open>What a full table gives up\<close>

text \<open>A full table gives up the lease that expires soonest, even one whose address traffic has just
  renewed: renewal lifts a lease to ten minutes from now and no further, and a new address in an
  answer takes the place of the soonest.\<close>

theorem touched_lease_evicted:
  assumes "leases_ok t" "lease_len t = MAX_LEASES" "lease_of t a \<noteq> None"
    and "\<forall>l. lease_of t a = Some l \<longrightarrow> ls_expires l \<le> lease_millis t now + as_millis MIN_LEASE"
    and "\<forall>b l. b \<noteq> a \<longrightarrow> lease_of t b = Some l \<longrightarrow> lease_millis t now + as_millis MIN_LEASE < ls_expires l"
    and "lease_of t (r_address r) = None"
  shows "lease_of (snd (lease_record name [r] now (lease_touch a now t))) a = None"
proof -
  let ?t = "lease_touch a now t"
  obtain l where l: "lease_of t a = Some l" using assms(3) by auto
  have ok: "leases_ok ?t" using leases_ok_step[OF assms(1), of "(now, Used a)"] by simp
  have "a \<in> fst ` set (ls_held t)" using l by (force dest: map_of_SomeD)
  then have full: "MAX_LEASES \<le> length (ls_held ?t)" using assms(2) l
    by (simp add: lease_touch_def lease_len_def length_AList_update)
  have new: "lease_of ?t (r_address r) = None" "r_address r \<noteq> a" using assms(6) l by (auto simp: lease_touch_of)
  obtain victim m where v: "(victim, m) \<in> set (ls_held ?t)" "\<forall>(b, k)\<in>set (ls_held ?t). ls_expires m \<le> ls_expires k"
    "record_one name (lease_millis ?t now) r (ls_held ?t, False) =
      (AList.update (r_address r) \<lparr>ls_expires = lease_millis ?t now + as_millis (lease_lifetime (r_ttl r)), ls_names = {name}\<rparr>
        (AList.delete victim (ls_held ?t)), True)"
    by (rule record_one_full[OF new(1) full])
  have mv: "lease_of ?t victim = Some m" using v(1) ok by (simp add: leases_ok_def held_ok_def)
  have "victim = a"
  proof (rule ccontr)
    assume "victim \<noteq> a"
    then have "lease_of t victim = Some m" using mv by (simp add: lease_touch_of)
    then have "lease_millis t now + as_millis MIN_LEASE < ls_expires m" using assms(5) \<open>victim \<noteq> a\<close> by blast
    moreover obtain k where k: "lease_of ?t a = Some k" "ls_expires k \<le> lease_millis t now + as_millis MIN_LEASE"
      using l assms(4) by (auto simp: lease_touch_of)
    ultimately show False using v(2) map_of_SomeD[OF k(1)] by fastforce
  qed
  then show ?thesis using v(3) new(2) by (simp add: lease_record_def update_conv' delete_conv')
qed

text \<open>A table filled by long leases on other addresses.\<close>

definition full_table :: leases where
  "full_table = \<lparr>ls_base = 0, ls_held = (V6 0, \<lparr>ls_expires = 10, ls_names = {}\<rparr>) #
     map (\<lambda>i. (V4 (of_nat i), \<lparr>ls_expires = 3000000, ls_names = {}\<rparr>)) [1..<MAX_LEASES]\<rparr>"

lemma full_table_of: "lease_of full_table b = (if b = V6 0 then Some \<lparr>ls_expires = 10, ls_names = {}\<rparr>
    else if \<exists>i\<in>{1..<MAX_LEASES}. b = V4 (of_nat i) then Some \<lparr>ls_expires = 3000000, ls_names = {}\<rparr> else None)"
proof -
  have "map_of (map (\<lambda>i. (V4 (of_nat i), l)) xs) b = (if \<exists>i\<in>set xs. b = V4 (of_nat i) then Some l else None)" for xs and l :: lease
    by (induction xs) auto
  then show ?thesis by (simp add: full_table_def)
qed

theorem touched_lease_evicted_witness:
  "lease_of full_table (V6 0) \<noteq> None \<and>
   lease_of (snd (lease_record ''a.test'' [\<lparr>r_name = ''a.test'', r_address = V6 1, r_ttl = 60\<rparr>] 0
     (lease_touch (V6 0) 0 full_table))) (V6 0) = None"
proof -
  have un: "unat (of_nat x :: u32) = x" if "x < 8192" for x using that by (simp add: unat_of_nat)
  have inj: "inj_on (\<lambda>i. V4 (of_nat i)) {1..<MAX_LEASES}"
  proof (rule inj_onI)
    fix x y assume "x \<in> {1..<MAX_LEASES}" "y \<in> {1..<MAX_LEASES}" "V4 (of_nat x) = V4 (of_nat y)"
    then have "x < 8192" "y < 8192" "unat (of_nat x :: u32) = unat (of_nat y :: u32)"
      by (simp_all only: ip_addr.inject atLeastLessThan_iff MAX_LEASES_def)
    then show "x = y" by (simp only: un)
  qed
  have pos: "0 < MAX_LEASES" by (simp add: MAX_LEASES_def)
  have len: "lease_len full_table = MAX_LEASES" using pos by (simp add: lease_len_def full_table_def)
  have ok: "leases_ok full_table"
    using inj pos by (auto simp: leases_ok_def held_ok_def full_table_def distinct_map comp_def)
  have soon: "lease_millis full_table 0 + as_millis MIN_LEASE = 600000"
    by (simp add: lease_millis_def full_table_def as_millis_def MIN_LEASE_def from_secs_def)
  have "lease_of (snd (lease_record ''a.test'' [\<lparr>r_name = ''a.test'', r_address = V6 1, r_ttl = 60\<rparr>] 0
     (lease_touch (V6 0) 0 full_table))) (V6 0) = None"
    by (rule touched_lease_evicted[OF ok len]) (simp_all add: full_table_of soon)
  then show ?thesis by (simp add: full_table_of)
qed

end
