(* ===== verification/Core_State.thy ===== *)
theory Core_State
  imports Routes Line_Source Dns_Lease Connect_Ip
begin

text \<open>
  The state the parts of the core share, \<open>src/core.rs\<close>: counters, the phase, what is known of IPv6, the
  two halves of the routing table and the union of them that is installed, the line and the addresses
  looked up on it.

  A watch channel is its current value; a lock is a step of the state. The forwarding table is a
  component of the state, and the two calls on it are parameters, as in \<open>Routes\<close>.
\<close>

section \<open>State\<close>

record counter =
  cn_packets :: u64
  cn_bytes :: u64

definition counter_record :: "nat \<Rightarrow> counter \<Rightarrow> counter" where
  "counter_record bytes c = \<lparr>cn_packets = cn_packets c + 1, cn_bytes = cn_bytes c + of_nat bytes\<rparr>"

definition counter_read :: "counter \<Rightarrow> u64 \<times> u64" where
  "counter_read c = (cn_packets c, cn_bytes c)"

record path_reading =
  pr_rtt :: duration
  pr_cwnd :: u64
  pr_sent :: u64
  pr_lost :: u64
  pr_datagrams :: u64
  pr_read :: u64

datatype phase =
    Connecting (attempt: nat)
  | Up (up_stages: stages)
  | Lost (lost_reason: string) (retry_in: duration) (lost_blocked: bool)

fun phase_name :: "phase \<Rightarrow> string" where
  "phase_name (Connecting _) = ''connecting''"
| "phase_name (Up _) = ''up''"
| "phase_name (Lost _ _ _) = ''lost''"

datatype ipv6_support = Unknown | Carries | DoesNot

definition LINE_SOURCE_TTL :: duration where "LINE_SOURCE_TTL = from_secs 30"

record line_entry =
  le_line :: u64
  le_at :: instant
  le_from :: "ip_addr option"

record 'os core =
  co_out :: counter
  co_back :: counter
  co_phase :: phase
  co_luid :: u64
  co_table :: 'os
  co_routes :: "prefix set"
  co_asked :: "prefix set"
  co_leases :: leases
  co_stop :: bool
  co_reconnects :: u64
  co_line :: u64
  co_change_interface :: u64
  co_change_kind :: "32 word"
  co_wants_v6 :: bool
  co_v6 :: u8
  co_line_sources :: "ip_addr \<Rightarrow> line_entry option"
  co_path :: "path_reading option"

definition ipv6_code :: "ipv6_support \<Rightarrow> u8" where
  "ipv6_code s = (case s of Unknown \<Rightarrow> 0 | Carries \<Rightarrow> 1 | DoesNot \<Rightarrow> 2)"

definition core_new :: "instant \<Rightarrow> u64 \<Rightarrow> 'os \<Rightarrow> 'os core" where
  "core_new now luid os = \<lparr>co_out = \<lparr>cn_packets = 0, cn_bytes = 0\<rparr>, co_back = \<lparr>cn_packets = 0, cn_bytes = 0\<rparr>,
     co_phase = Connecting 1, co_luid = luid, co_table = os, co_routes = {}, co_asked = {},
     co_leases = leases_new now, co_stop = False, co_reconnects = 0, co_line = 0,
     co_change_interface = 0, co_change_kind = 0, co_wants_v6 = False, co_v6 = ipv6_code Unknown,
     co_line_sources = Map.empty, co_path = None\<rparr>"

section \<open>IPv6\<close>

definition set_wants_ipv6 :: "bool \<Rightarrow> 'os core \<Rightarrow> 'os core" where
  "set_wants_ipv6 wanted c = c\<lparr>co_wants_v6 := wanted\<rparr>"

definition core_ipv6_support :: "'os core \<Rightarrow> ipv6_support" where
  "core_ipv6_support c = (if co_v6 c = 1 then Carries else if co_v6 c = 2 then DoesNot else Unknown)"

definition should_probe_ipv6 :: "'os core \<Rightarrow> bool" where
  "should_probe_ipv6 c = (core_ipv6_support c \<noteq> DoesNot)"

definition routes_ipv6 :: "'os core \<Rightarrow> bool" where
  "routes_ipv6 c = (co_wants_v6 c \<and> core_ipv6_support c = Carries)"

section \<open>Routing\<close>

definition host_route :: "ip_addr \<Rightarrow> prefix" where
  "host_route address = (address, if is_ipv4 address then 32 else 128)"

text \<open>What should be routed: what was asked for and a host route for each leased address, without the
  IPv6 prefixes while they may not be installed.\<close>

definition wanted_routes :: "'os core \<Rightarrow> prefix set" where
  "wanted_routes c =
     Set.filter (\<lambda>(address, _). routes_ipv6 c \<or> is_ipv4 address)
       (co_asked c \<union> host_route ` set (lease_addresses (co_leases c)))"


definition install_union :: "(prefix \<Rightarrow> 'os \<Rightarrow> u32 \<times> 'os) \<Rightarrow> (prefix \<Rightarrow> 'os \<Rightarrow> u32 \<times> 'os) \<Rightarrow> 'os core \<Rightarrow>
    (tun_error + change) \<times> 'os core" where
  "install_union create delete c =
     (case routes_apply (add_route create) (remove_route delete) (co_routes c) (wanted_routes c) (co_table c) of
        (r, installed, os) \<Rightarrow> (r, c\<lparr>co_routes := installed, co_table := os\<rparr>))"

definition set_routes :: "(prefix \<Rightarrow> 'os \<Rightarrow> u32 \<times> 'os) \<Rightarrow> (prefix \<Rightarrow> 'os \<Rightarrow> u32 \<times> 'os) \<Rightarrow> prefix set \<Rightarrow> 'os core \<Rightarrow>
    (tun_error + change) \<times> 'os core" where
  "set_routes create delete wanted c = install_union create delete (c\<lparr>co_asked := wanted\<rparr>)"

definition set_carries_ipv6 :: "(prefix \<Rightarrow> 'os \<Rightarrow> u32 \<times> 'os) \<Rightarrow> (prefix \<Rightarrow> 'os \<Rightarrow> u32 \<times> 'os) \<Rightarrow> bool \<Rightarrow>
    'os core \<Rightarrow> 'os core" where
  "set_carries_ipv6 create delete carries c =
     (let state = (if carries then Carries else DoesNot) in
      if core_ipv6_support c = state then c
      else snd (install_union create delete (c\<lparr>co_v6 := ipv6_code state\<rparr>)))"

text \<open>How many prefixes went in; a refusal counts as none.\<close>

definition core_routes_changed :: "(prefix \<Rightarrow> 'os \<Rightarrow> u32 \<times> 'os) \<Rightarrow> (prefix \<Rightarrow> 'os \<Rightarrow> u32 \<times> 'os) \<Rightarrow> 'os core \<Rightarrow>
    nat \<times> 'os core" where
  "core_routes_changed create delete c =
     (case install_union create delete c of
        (Inr change, c) \<Rightarrow> (length (ch_added change), c)
      | (Inl _, c) \<Rightarrow> (0, c))"

section \<open>The line\<close>

definition core_line_source :: "stack \<Rightarrow> instant \<Rightarrow> ip_addr \<Rightarrow> 'os core \<Rightarrow> ip_addr option \<times> 'os core" where
  "core_line_source sk now destination c =
     (let walk = (let found = source_for sk (co_luid c) destination in
          (found, c\<lparr>co_line_sources := (co_line_sources c)
             (destination \<mapsto> \<lparr>le_line = co_line c, le_at = now, le_from = found\<rparr>)\<rparr>))
      in (case co_line_sources c destination of
            Some known \<Rightarrow>
              if le_line known = co_line c \<and> now - le_at known < LINE_SOURCE_TTL then (le_from known, c) else walk
          | None \<Rightarrow> walk))"

definition line_changed :: "u64 \<Rightarrow> 32 word \<Rightarrow> 'os core \<Rightarrow> 'os core" where
  "line_changed interface notice c =
     c\<lparr>co_change_interface := interface, co_change_kind := notice, co_line := co_line c + 1\<rparr>"

definition core_reconnect :: "'os core \<Rightarrow> 'os core" where
  "core_reconnect c = c\<lparr>co_reconnects := co_reconnects c + 1\<rparr>"

definition core_stop :: "'os core \<Rightarrow> 'os core" where
  "core_stop c = c\<lparr>co_stop := True\<rparr>"

text \<open>What \<open>stopped\<close>, \<open>reconnect_asked\<close> and \<open>line_change\<close> wait for: the latch, and a count that is
  not the one seen when the wait began.\<close>

definition is_stopped :: "'os core \<Rightarrow> bool" where
  "is_stopped c = co_stop c"

definition reconnect_asked :: "u64 \<Rightarrow> 'os core \<Rightarrow> bool" where
  "reconnect_asked seen c = (co_reconnects c \<noteq> seen)"

definition line_change :: "u64 \<Rightarrow> 'os core \<Rightarrow> bool" where
  "line_change seen c = (co_line c \<noteq> seen)"

definition set_path :: "path_reading option \<Rightarrow> 'os core \<Rightarrow> 'os core" where
  "set_path reading c = c\<lparr>co_path := reading\<rparr>"

section \<open>The union is installed\<close>

context forward_table
begin

lemma install_books:
  assumes "install_union create delete c = (r, c')" "finite (co_routes c)" "finite (co_asked c)"
  shows "rows (co_table c') = rows (co_table c) - (co_routes c - co_routes c') \<union> (co_routes c' - co_routes c)"
    "finite (co_routes c')" "co_routes c' \<subseteq> co_routes c \<union> wanted_routes c"
    "r = Inr ch \<Longrightarrow> co_routes c' = wanted_routes c \<and> set (ch_added ch) = wanted_routes c - co_routes c \<and>
      distinct (ch_added ch)"
    "\<exists>installed os. c' = c\<lparr>co_routes := installed, co_table := os\<rparr>"
proof -
  obtain installed os where a: "routes_apply (add_route create) (remove_route delete) (co_routes c) (wanted_routes c)
      (co_table c) = (r, installed, os)" "c' = c\<lparr>co_routes := installed, co_table := os\<rparr>"
    using assms(1) by (auto simp: install_union_def split: prod.splits)
  have fin: "finite (wanted_routes c)" using assms(3) by (simp add: wanted_routes_def)
  note b = adapter_books[OF a(1) assms(2) fin]
  show "rows (co_table c') = rows (co_table c) - (co_routes c - co_routes c') \<union> (co_routes c' - co_routes c)"
    using b(1) a(2) by simp
  show "co_routes c' \<subseteq> co_routes c \<union> wanted_routes c" using b(3) a(2) by simp
  then show "finite (co_routes c')" using assms(2) fin by (meson finite_UnI finite_subset)
  show "r = Inr ch \<Longrightarrow> co_routes c' = wanted_routes c \<and> set (ch_added ch) = wanted_routes c - co_routes c \<and>
      distinct (ch_added ch)"
    using b(5)[of ch] a(2) by simp
  show "\<exists>installed os. c' = c\<lparr>co_routes := installed, co_table := os\<rparr>" using a(2) by blast
qed

end

text \<open>A system that refuses nothing.\<close>

definition willing :: "(prefix \<Rightarrow> 'os \<Rightarrow> u32 \<times> 'os) \<Rightarrow> (prefix \<Rightarrow> 'os \<Rightarrow> u32 \<times> 'os) \<Rightarrow> bool" where
  "willing create delete \<longleftrightarrow> (\<forall>p os. fst (create p os) \<in> {NO_ERROR, ERROR_OBJECT_ALREADY_EXISTS} \<and>
     fst (delete p os) \<in> {NO_ERROR, ERROR_NOT_FOUND})"

lemma install_willing:
  assumes "willing create delete"
  shows "\<exists>ch c'. install_union create delete c = (Inr ch, c')"
proof -
  have "\<exists>ch. fst (routes_apply (add_route create) (remove_route delete) (co_routes c) (wanted_routes c) (co_table c)) = Inr ch"
    using assms unfolding willing_def by (intro apply_accepts add_route_accepts remove_route_accepts) blast+
  then show ?thesis by (auto simp: install_union_def split: prod.splits)
qed

lemma wanted_routes_eq:
  "wanted_routes c = {(a, len). ((a, len) \<in> co_asked c \<or>
        a \<in> set (lease_addresses (co_leases c)) \<and> len = (if is_ipv4 a then 32 else 128)) \<and>
      (is_ipv4 a \<or> co_wants_v6 c \<and> core_ipv6_support c = Carries)}"
  by (auto simp: wanted_routes_def host_route_def routes_ipv6_def)

text \<open>When the system refuses nothing, what is installed after the table is brought up to date is
  exactly what the application asked for together with a host route for every leased address, an IPv6
  prefix among them only while the application wants IPv6 and the tunnel was measured carrying it; and
  the number reported is that of the prefixes that went in.\<close>

theorem union_installed:
  assumes "forward_table create delete rows" "willing create delete" "finite (co_routes c)" "finite (co_asked c)"
    and "core_routes_changed create delete c = (n, c')"
  shows "co_routes c' = {(a, len). ((a, len) \<in> co_asked c \<or>
        a \<in> set (lease_addresses (co_leases c)) \<and> len = (if is_ipv4 a then 32 else 128)) \<and>
      (is_ipv4 a \<or> co_wants_v6 c \<and> core_ipv6_support c = Carries)} \<and>
    n = card (co_routes c' - co_routes c)"
proof -
  obtain ch c1 where i: "install_union create delete c = (Inr ch, c1)" using install_willing[OF assms(2)] by blast
  have eq: "n = length (ch_added ch)" "c' = c1" using assms(5) i by (auto simp: core_routes_changed_def)
  have b: "co_routes c1 = wanted_routes c" "set (ch_added ch) = wanted_routes c - co_routes c" "distinct (ch_added ch)"
    using forward_table.install_books(4)[OF assms(1) i assms(3,4) refl] by simp_all
  then show ?thesis unfolding eq wanted_routes_eq[symmetric] using distinct_card[OF b(3)] by simp
qed

text \<open>A forwarding table that refuses nothing, as a set of rows.\<close>

definition open_create :: "prefix \<Rightarrow> prefix set \<Rightarrow> u32 \<times> prefix set" where
  "open_create p os = (if p \<in> os then (ERROR_OBJECT_ALREADY_EXISTS, os) else (NO_ERROR, insert p os))"

definition open_delete :: "prefix \<Rightarrow> prefix set \<Rightarrow> u32 \<times> prefix set" where
  "open_delete p os = (if p \<notin> os then (ERROR_NOT_FOUND, os) else (NO_ERROR, os - {p}))"

interpretation unrefused: forward_table open_create open_delete "\<lambda>os. os"
  by unfold_locales
    (auto simp: open_create_def open_delete_def NO_ERROR_def ERROR_OBJECT_ALREADY_EXISTS_def
      ERROR_NOT_FOUND_def split: if_splits)

lemma open_willing: "willing open_create open_delete"
  by (simp add: willing_def open_create_def open_delete_def)

definition sample_core :: "prefix set core" where
  "sample_core = (core_new 0 7 {})\<lparr>co_asked := {(V4 0x0A000000, 8), (V6 1, 128)},
     co_leases := \<lparr>ls_base = 0, ls_held = [(V4 5, \<lparr>ls_expires = 600000, ls_names = {}\<rparr>)]\<rparr>\<rparr>"

theorem union_installed_witness:
  "(V4 0x0A000000, 8) \<in> co_routes (snd (core_routes_changed open_create open_delete sample_core)) \<and>
   (V4 5, 32) \<in> co_routes (snd (core_routes_changed open_create open_delete sample_core)) \<and>
   (V6 1, 128) \<notin> co_routes (snd (core_routes_changed open_create open_delete sample_core))"
proof -
  have fin: "finite (co_routes sample_core)" "finite (co_asked sample_core)"
    by (simp_all add: sample_core_def core_new_def)
  have "co_routes (snd (core_routes_changed open_create open_delete sample_core)) =
      {(a, len). ((a, len) \<in> co_asked sample_core \<or>
        a \<in> set (lease_addresses (co_leases sample_core)) \<and> len = (if is_ipv4 a then 32 else 128)) \<and>
      (is_ipv4 a \<or> co_wants_v6 sample_core \<and> core_ipv6_support sample_core = Carries)}"
    using union_installed[OF unrefused.forward_table_axioms open_willing fin prod.collapse[symmetric]] by blast
  then show ?thesis by (simp add: sample_core_def core_new_def lease_addresses_def)
qed

section \<open>Over the core's life\<close>

datatype core_op =
    Asked bool "prefix set"
  | Measured bool
  | Learned instant string "dns_record list"
  | Renewed instant ip_addr
  | Expired instant
  | Refreshed
  | Moved u64 "32 word"

fun core_step :: "(prefix \<Rightarrow> 'os \<Rightarrow> u32 \<times> 'os) \<Rightarrow> (prefix \<Rightarrow> 'os \<Rightarrow> u32 \<times> 'os) \<Rightarrow> core_op \<Rightarrow> 'os core \<Rightarrow> 'os core" where
  "core_step create delete (Asked ipv6 wanted) c =
     snd (set_routes create delete wanted (set_wants_ipv6 ipv6 c))"
| "core_step create delete (Measured carries) c = set_carries_ipv6 create delete carries c"
| "core_step create delete (Learned now name records) c =
     c\<lparr>co_leases := snd (lease_record name records now (co_leases c))\<rparr>"
| "core_step create delete (Renewed now a) c = c\<lparr>co_leases := lease_touch a now (co_leases c)\<rparr>"
| "core_step create delete (Expired now) c = c\<lparr>co_leases := snd (lease_expire now (co_leases c))\<rparr>"
| "core_step create delete Refreshed c = snd (core_routes_changed create delete c)"
| "core_step create delete (Moved interface notice) c = line_changed interface notice c"

fun finite_op :: "core_op \<Rightarrow> bool" where
  "finite_op (Asked _ wanted) = finite wanted"
| "finite_op _ = True"

definition core_books :: "('os \<Rightarrow> prefix set) \<Rightarrow> 'os core \<Rightarrow> bool" where
  "core_books rows c \<longleftrightarrow> co_routes c = rows (co_table c) \<and> finite (co_routes c) \<and> finite (co_asked c)"

context forward_table
begin

lemma install_keeps_books: "core_books rows c \<Longrightarrow> core_books rows (snd (install_union create delete c))"
proof -
  assume ok: "core_books rows c"
  then have q: "co_routes c = rows (co_table c)" "finite (co_routes c)" "finite (co_asked c)"
    unfolding core_books_def by blast+
  obtain r c' where i: "install_union create delete c = (r, c')" by fastforce
  have b: "rows (co_table c') = rows (co_table c) - (co_routes c - co_routes c') \<union> (co_routes c' - co_routes c)"
    "finite (co_routes c')" "\<exists>installed os. c' = c\<lparr>co_routes := installed, co_table := os\<rparr>"
    using install_books[OF i q(2,3)] by blast+
  have "rows (co_table c') = co_routes c'" using b(1) q(1) by blast
  moreover have "co_asked c' = co_asked c" using b(3) by auto
  ultimately show ?thesis using i b(2) q(3) unfolding core_books_def by simp
qed

lemma step_keeps_books: "core_books rows c \<Longrightarrow> finite_op op \<Longrightarrow> core_books rows (core_step create delete op c)"
proof (cases op)
  case (Asked ipv6 wanted)
  assume "core_books rows c" "finite_op op"
  then have "core_books rows ((set_wants_ipv6 ipv6 c)\<lparr>co_asked := wanted\<rparr>)"
    using Asked unfolding core_books_def by (auto simp: set_wants_ipv6_def)
  from install_keeps_books[OF this] show ?thesis using Asked by (simp add: set_routes_def)
next
  case (Measured carries)
  assume "core_books rows c"
  then have "core_books rows (c\<lparr>co_v6 := v\<rparr>)" for v by (auto simp: core_books_def)
  then show ?thesis using Measured \<open>core_books rows c\<close> install_keeps_books
    by (simp add: set_carries_ipv6_def Let_def)
next
  case Refreshed
  assume "core_books rows c"
  from install_keeps_books[OF this] show ?thesis
    using Refreshed by (auto simp: core_routes_changed_def split: prod.split sum.split)
qed (auto simp: core_books_def line_changed_def)

lemma run_keeps_books: "core_books rows c \<Longrightarrow> list_all finite_op ops \<Longrightarrow>
    core_books rows (fold (core_step create delete) ops c)"
  by (induction ops arbitrary: c) (auto intro: step_keeps_books)

end

text \<open>C16. Throughout the core's life the routes it reports are the rows that are in the system's table: no
  order of requests, measurements, answers, expiries and refused rows makes them differ.\<close>

theorem routes_are_the_rows:
  assumes "forward_table create delete rows" "rows os = {}" "list_all finite_op ops"
  shows "co_routes (fold (core_step create delete) ops (core_new now luid os)) =
    rows (co_table (fold (core_step create delete) ops (core_new now luid os)))"
proof -
  have "core_books rows (core_new now luid os)" using assms(2) by (simp add: core_books_def core_new_def)
  from forward_table.run_keeps_books[OF assms(1) this assms(3)] show ?thesis by (simp add: core_books_def)
qed

theorem routes_are_the_rows_witness:
  "co_routes (fold (core_step bench_create bench_delete) [Asked False {(V4 4, 32), (V4 5, 32)}, Expired 9, Refreshed]
      (core_new 0 7 \<lparr>bench_rows = {}, bench_refuse = {(V4 4, 32)}\<rparr>)) =
   bench_rows (co_table (fold (core_step bench_create bench_delete) [Asked False {(V4 4, 32), (V4 5, 32)}, Expired 9, Refreshed]
      (core_new 0 7 \<lparr>bench_rows = {}, bench_refuse = {(V4 4, 32)}\<rparr>)))"
  by (rule routes_are_the_rows[OF bench.forward_table_axioms]) simp_all

text \<open>An address looked up on the line is looked up afresh once the line has changed, whatever was
  remembered of it and however short a time ago.\<close>

theorem line_source_follows_line:
  "fst (core_line_source sk now destination
      (line_changed interface notice (snd (core_line_source sk0 before destination c)))) =
    source_for sk (co_luid c) destination"
proof -
  let ?c = "snd (core_line_source sk0 before destination c)"
  have luid: "co_luid ?c = co_luid c" "co_line ?c = co_line c"
    by (auto simp: core_line_source_def Let_def split: option.split)
  have "\<exists>e. co_line_sources ?c destination = Some e \<and> le_line e = co_line c"
    by (auto simp: core_line_source_def Let_def split: option.split)
  then obtain e where e: "co_line_sources ?c destination = Some e" "le_line e = co_line c" by blast
  have "co_line c \<noteq> co_line c + 1" by simp
  then show ?thesis using e luid by (simp add: core_line_source_def Let_def line_changed_def)
qed

end
