(* ===== verification/Dns_Server.thy ===== *)
theory Dns_Server
  imports Dns_Asker Core_State
begin

text \<open>
  The resolver the machine talks to, \<open>src/dns/server.rs\<close>: installing a policy, answering one query
  (the decision, the upstream, the leases and the route they become), the name that is only watched
  for, the failure reply, expiry, and the conversation over TCP.

  What owns the routing table is reached through a trait; here it is a record of its operations on a
  state that also holds the shared leases, with the locale \<open>route_sink\<close> for what it promises and an
  interpretation on \<open>Core_State\<close>. The permits that bound the work in flight are counted by whoever
  serves, and are not part of this state.
\<close>

section \<open>State\<close>

definition MAX_IN_FLIGHT :: nat where "MAX_IN_FLIGHT = 512"

record 's sink =
  sk_leases :: "'s \<Rightarrow> leases"
  sk_with_leases :: "leases \<Rightarrow> 's \<Rightarrow> 's"
  sk_routes_changed :: "'s \<Rightarrow> nat \<times> 's"
  sk_line_source :: "instant \<Rightarrow> ip_addr \<Rightarrow> 's \<Rightarrow> ip_addr option \<times> 's"

record 'cl installed =
  in_policy :: policy
  in_upstreams :: "string \<Rightarrow> 'cl upstream option"

record server_stats =
  ss_queries :: nat
  ss_answered :: nat
  ss_failed :: nat
  ss_routed :: nat

text \<open>A watch is the name and the number of the waiter; \<open>rv_told\<close> are the waiters told.\<close>

record 'cl resolver_state =
  rv_installed :: "'cl installed option"
  rv_stats :: server_stats
  rv_askers :: askers
  rv_watching :: "(string \<times> nat) option"
  rv_watched :: bool
  rv_waiters :: nat
  rv_told :: "nat list"
  rv_listen :: "sock_addr option"

definition resolver_new :: "sock_addr option \<Rightarrow> 'cl resolver_state" where
  "resolver_new listen = \<lparr>rv_installed = None,
     rv_stats = \<lparr>ss_queries = 0, ss_answered = 0, ss_failed = 0, ss_routed = 0\<rparr>,
     rv_askers = askers_new, rv_watching = None, rv_watched = False, rv_waiters = 0, rv_told = [],
     rv_listen = listen\<rparr>"

section \<open>The name watched for\<close>

definition watch_for :: "string \<Rightarrow> 'cl resolver_state \<Rightarrow> nat \<times> 'cl resolver_state" where
  "watch_for name rv =
     (rv_waiters rv, rv\<lparr>rv_watching := Some (lowercase name, rv_waiters rv), rv_watched := True,
        rv_waiters := rv_waiters rv + 1\<rparr>)"

definition stop_watching :: "'cl resolver_state \<Rightarrow> 'cl resolver_state" where
  "stop_watching rv = rv\<lparr>rv_watched := False, rv_watching := None\<rparr>"

definition watching_for :: "string \<Rightarrow> 'cl resolver_state \<Rightarrow> bool \<times> 'cl resolver_state" where
  "watching_for name rv =
     (if \<not> rv_watched rv then (False, rv)
      else (case rv_watching rv of
          Some (wanted, waiter) \<Rightarrow>
            if lowercase wanted = lowercase name
            then (True, rv\<lparr>rv_watching := None, rv_told := rv_told rv @ [waiter]\<rparr>)
            else (False, rv)
        | None \<Rightarrow> (False, rv)))"

section \<open>Installing\<close>

record install_report =
  ir_rules :: nat
  ir_resolvers :: nat
  ir_tunnelled :: nat

datatype ('x, 'st) install_error =
    InstallPolicy policy_error
  | InstallUpstream "('x, 'st) upstream_error"
  | NoCatchAll
  | Circular string

definition circular_resolver :: "ip_addr \<Rightarrow> resolver list \<Rightarrow> resolver option" where
  "circular_resolver listen rs = List.find (\<lambda>r. rs_kind r = Plain \<and> rs_address r = listen) rs"

definition install :: "'s sink \<Rightarrow> ('x, 'st, 'cl) net \<Rightarrow> policy_input \<Rightarrow> 'cl resolver_state \<times> 's \<Rightarrow>
    (('x, 'st) install_error, install_report) outcome \<times> 'cl resolver_state \<times> 's" where
  "install sink net input = (\<lambda>(rv, s).
     (case policy_build input of
        Panic \<Rightarrow> (Panic, rv, s)
      | Err e \<Rightarrow> (Err (InstallPolicy e), rv, s)
      | Ok policy \<Rightarrow>
          let resolvers = map snd (p_resolvers policy) in
          if \<not> decides_everything policy then (Err NoCatchAll, rv, s)
          else
            (case Option.bind (rv_listen rv) (\<lambda>listen. circular_resolver (fst listen) resolvers) of
               Some circular \<Rightarrow> (Err (Circular (rs_id circular)), rv, s)
             | None \<Rightarrow>
                 (case upstreams_build net resolvers (\<lambda>_. None) of
                    Panic \<Rightarrow> (Panic, rv, s)
                  | Err e \<Rightarrow> (Err (InstallUpstream e), rv, s)
                  | Ok upstreams \<Rightarrow>
                      (Ok \<lparr>ir_rules = rule_count policy, ir_resolvers = resolver_count policy,
                         ir_tunnelled = length (tunnelled_resolvers policy)\<rparr>,
                       rv\<lparr>rv_installed := Some \<lparr>in_policy = policy, in_upstreams = upstreams\<rparr>\<rparr>,
                       snd (sk_routes_changed sink s))))))"

section \<open>Answering\<close>

text \<open>The query, marked as a reply that could not be served.\<close>

definition failure_reply :: "bytes \<Rightarrow> bytes option" where
  "failure_reply query =
     (if length query < HEADER_LEN then None
      else
        let reply = (query[2 := query ! 2 OR 0x80])[3 := 0x82]
        in Some (take 6 reply @ replicate 6 0 @ drop 12 reply))"

definition count_query :: "'cl resolver_state \<Rightarrow> 'cl resolver_state" where
  "count_query rv = rv\<lparr>rv_stats := (rv_stats rv)\<lparr>ss_queries := ss_queries (rv_stats rv) + 1\<rparr>\<rparr>"

definition count_failed :: "'cl resolver_state \<Rightarrow> 'cl resolver_state" where
  "count_failed rv = rv\<lparr>rv_stats := (rv_stats rv)\<lparr>ss_failed := ss_failed (rv_stats rv) + 1\<rparr>\<rparr>"

definition count_answered :: "'cl resolver_state \<Rightarrow> 'cl resolver_state" where
  "count_answered rv = rv\<lparr>rv_stats := (rv_stats rv)\<lparr>ss_answered := ss_answered (rv_stats rv) + 1\<rparr>\<rparr>"

definition count_routed :: "nat \<Rightarrow> 'cl resolver_state \<Rightarrow> 'cl resolver_state" where
  "count_routed n rv = rv\<lparr>rv_stats := (rv_stats rv)\<lparr>ss_routed := ss_routed (rv_stats rv) + n\<rparr>\<rparr>"

text \<open>What an answer teaches: only an address answer to an address question of the internet class, on a
  rule that routes, becomes leases, and a changed set of leases becomes routes.\<close>

definition learn :: "'s sink \<Rightarrow> bool \<Rightarrow> dns_query \<Rightarrow> bytes \<Rightarrow> instant \<Rightarrow> 'cl resolver_state \<times> 's \<Rightarrow>
    'cl resolver_state \<times> 's" where
  "learn sink route asked reply now = (\<lambda>(rv, s).
     let asks_for_addresses = route \<and> (q_type asked = TYPE_A \<or> q_type asked = TYPE_AAAA) \<and> q_class asked = CLASS_IN;
       found = (case read_answers reply of Ok records \<Rightarrow> records | _ \<Rightarrow> [])
     in if asks_for_addresses then
          (case lease_record (q_name asked) found now (sk_leases sink s) of
             (changed, leases) \<Rightarrow>
               let s = sk_with_leases sink leases s in
               if changed then
                 (case sk_routes_changed sink s of (n, s) \<Rightarrow> (count_routed n rv, s))
               else (rv, s))
        else (rv, s))"

text \<open>Who asks, as a rule can name it; an unknown asker is none.\<close>

definition asker_of :: "system \<Rightarrow> origin option \<Rightarrow> instant \<Rightarrow> 'cl resolver_state \<Rightarrow> asker option \<times> 'cl resolver_state" where
  "asker_of sy source now rv =
     (case source of
        None \<Rightarrow> (None, rv)
      | Some origin \<Rightarrow>
          (case of_port sy origin now (rv_askers rv) of
             (program, askers) \<Rightarrow>
               (map_option (\<lambda>p. \<lparr>a_path = pg_path p, a_name = pg_name p\<rparr>) program, rv\<lparr>rv_askers := askers\<rparr>)))"

text \<open>The address a query leaves from, and the exchange with the upstream.\<close>

definition ask_from :: "'s sink \<Rightarrow> ('x, 'st, 'cl) net \<Rightarrow> decision \<Rightarrow> 'cl upstream \<Rightarrow> bytes \<Rightarrow> instant \<Rightarrow> 's \<Rightarrow>
    (('x, 'st) upstream_error, bytes) outcome \<times> 'cl upstream \<times> 's" where
  "ask_from sink net d up query now s =
     (case (case rs_via (d_resolver d) of
          Direct \<Rightarrow> sk_line_source sink now (rs_address (d_resolver d)) s
        | Tunnel \<Rightarrow> (None, s)) of
        (source, s) \<Rightarrow> (case ask net up query source of (reply, up) \<Rightarrow> (reply, up, s)))"

definition answer :: "'s sink \<Rightarrow> ('x, 'st, 'cl) net \<Rightarrow> system \<Rightarrow> instant \<Rightarrow> instant \<Rightarrow> bytes \<Rightarrow> origin option \<Rightarrow>
    'cl resolver_state \<times> 's \<Rightarrow> (unit, bytes option \<times> 'cl resolver_state \<times> 's) outcome" where
  "answer sink net sy started received query source = (\<lambda>(rv, s).
     let rv = count_query rv in
     (case read_query query of
        Panic \<Rightarrow> Panic
      | Err e \<Rightarrow> Ok (failure_reply query, count_failed rv, s)
      | Ok asked \<Rightarrow>
          (case watching_for (q_name asked) rv of
             (True, rv) \<Rightarrow> Ok (failure_reply query, rv, s)
           | (False, rv) \<Rightarrow>
               (case asker_of sy source started rv of
                  (asker, rv) \<Rightarrow>
                    (case rv_installed rv of
                       None \<Rightarrow> Ok (failure_reply query, count_failed rv, s)
                     | Some installed \<Rightarrow>
                         and_then (decide (in_policy installed) (q_name asked) asker) (\<lambda>decision.
                         (case decision of
                            None \<Rightarrow> Ok (failure_reply query, count_failed rv, s)
                          | Some d \<Rightarrow>
                              (case in_upstreams installed (rs_id (d_resolver d)) of
                                 None \<Rightarrow> Ok (failure_reply query, count_failed rv, s)
                               | Some up \<Rightarrow>
                                   (case ask_from sink net d up query started s of
                                      (outcome, up, s) \<Rightarrow>
                                        let rv = rv\<lparr>rv_installed := Some (installed\<lparr>in_upstreams :=
                                            (in_upstreams installed)(rs_id (d_resolver d) \<mapsto> up)\<rparr>)\<rparr>
                                        in (case outcome of
                                              Panic \<Rightarrow> Panic
                                            | Err _ \<Rightarrow> Ok (failure_reply query, count_failed rv, s)
                                            | Ok reply \<Rightarrow>
                                                (case learn sink (d_route d) asked reply received
                                                    (count_answered rv, s) of
                                                   (rv, s) \<Rightarrow> Ok (Some reply, rv, s))))))))))))"

definition resolver_expire :: "'s sink \<Rightarrow> instant \<Rightarrow> 's \<Rightarrow> 's" where
  "resolver_expire sink now s =
     (case lease_expire now (sk_leases sink s) of
        (gone, leases) \<Rightarrow>
          let s = sk_with_leases sink leases s in
          if gone then snd (sk_routes_changed sink s) else s)"

section \<open>Over TCP\<close>

text \<open>One connection: the queries a client sends one after another, each behind its length, and what is
  written back. The bytes end where the client stops sending; a length that is not that of a message
  ends the connection.\<close>

function converse :: "(bytes \<Rightarrow> 'a \<Rightarrow> bytes option \<times> 'a) \<Rightarrow> bytes \<Rightarrow> 'a \<Rightarrow> bytes \<times> 'a" where
  "converse answered stream s =
     (case stream of
        a # b # rest \<Rightarrow>
          let n = unat (be16 a b) in
          if \<not> (HEADER_LEN \<le> n \<and> n \<le> MAX_MESSAGE) then ([], s)
          else if length rest < n then ([], s)
          else
            (case answered (take n rest) s of
               (None, s) \<Rightarrow> ([], s)
             | (Some reply, s) \<Rightarrow>
                 if 65535 < length reply then ([], s)
                 else (case converse answered (drop n rest) s of
                     (written, s) \<Rightarrow> (be_bytes 2 (of_nat (length reply) :: u16) @ reply @ written, s)))
      | _ \<Rightarrow> ([], s))"
  by pat_completeness auto
termination
  by (relation "measure (\<lambda>(_, stream, _). length stream)") auto

declare converse.simps [simp del]

section \<open>The ways out of an answer\<close>

text \<open>A query either ends in the failure reply with the state of the sink as it was, or is asked of an
  upstream; then it ends in the failure reply or in the upstream's own reply, learnt from.\<close>

lemma answer_ends:
  fixes net :: "('x, 'st, 'cl) net" and sink :: "'s sink"
  assumes "answer sink net sy started received query source (rv, s) = Ok (reply, rv', s')"
  obtains
    (unasked) "reply = failure_reply query" "s' = s"
  | (unanswered) d up e up' where
      "ask_from sink net d up query started s = (Err e, up', s')" "reply = failure_reply query"
  | (answered) d up m up' s1 asked rv1 rv2 where
      "reply = Some m" "ask_from sink net d up query started s = (Ok m, up', s1)" "read_query query = Ok asked"
      "learn sink (d_route d) asked m received (rv1 :: 'cl resolver_state, s1) = (rv2, s')"
proof -
  define rv0 where "rv0 = count_query rv"
  show ?thesis
  proof (cases "read_query query")
    case (Ok asked)
    obtain watched rv1 where w: "watching_for (q_name asked) rv0 = (watched, rv1)" by fastforce
    obtain asker rv2 where a: "asker_of sy source started rv1 = (asker, rv2)" by fastforce
    show ?thesis
    proof (cases "watched \<or> rv_installed rv2 = None")
      case True
      then have "reply = failure_reply query \<and> s' = s" using assms Ok w a
        by (cases watched) (auto simp: answer_def Let_def rv0_def[symmetric])
      then show ?thesis by (intro unasked) auto
    next
      case False
      then obtain inst where inst: "rv_installed rv2 = Some inst" by auto
      obtain decision where d: "decide (in_policy inst) (q_name asked) asker = Ok decision"
        using assms Ok w a False inst
        by (cases "decide (in_policy inst) (q_name asked) asker") (auto simp: answer_def Let_def rv0_def[symmetric])
      show ?thesis
      proof (cases "decision = None \<or> in_upstreams inst (rs_id (d_resolver (the decision))) = None")
        case True
        then have "reply = failure_reply query \<and> s' = s" using assms Ok w a False inst d
          by (cases decision) (auto simp: answer_def Let_def rv0_def[symmetric])
        then show ?thesis by (intro unasked) auto
      next
        case asked_up: False
        then obtain dd up where dd: "decision = Some dd" "in_upstreams inst (rs_id (d_resolver dd)) = Some up" by auto
        obtain r up' s1 where f: "ask_from sink net dd up query started s = (r, up', s1)"
          by (cases "ask_from sink net dd up query started s") auto
        show ?thesis
        proof (cases r)
          case (Err e)
          then have "s' = s1" "reply = failure_reply query" using assms Ok w a False inst d dd f
            by (auto simp: answer_def Let_def rv0_def[symmetric])
          then show ?thesis using f Err by (intro unanswered) auto
        next
          case Panic
          then show ?thesis using assms Ok w a False inst d dd f by (auto simp: answer_def Let_def rv0_def[symmetric])
        next
          case reply: (Ok m)
          define rv3 where "rv3 = count_answered (rv2\<lparr>rv_installed := Some (inst\<lparr>in_upstreams :=
              (in_upstreams inst)(rs_id (d_resolver dd) \<mapsto> up')\<rparr>)\<rparr>)"
          obtain rv4 s2 where l: "learn sink (d_route dd) asked m received (rv3, s1) = (rv4, s2)" by fastforce
          have "reply = Some m \<and> s' = s2" using assms Ok w a False inst d dd f reply l
            by (auto simp: answer_def Let_def rv0_def[symmetric] rv3_def[symmetric])
          then show ?thesis using answered[OF _ f[unfolded reply] Ok, of rv3 rv4] l by simp
        qed
      qed
    qed
  qed (use assms unasked in \<open>auto simp: answer_def Let_def\<close>)
qed

section \<open>What owns the routes promises\<close>

text \<open>The contract between the resolver and the owner of the routing table: the leases are where they
  were put; telling it that they changed routes every leased address whose family may be carried;
  looking an address up on the line routes nothing and takes nothing away.\<close>

locale route_sink =
  fixes sink :: "'s sink"
    and inv :: "'s \<Rightarrow> bool"
    and routed :: "'s \<Rightarrow> ip_addr \<Rightarrow> bool"
    and carried :: "'s \<Rightarrow> ip_addr \<Rightarrow> bool"
  assumes leases_put: "sk_leases sink (sk_with_leases sink l s) = l"
    and put_inv: "inv s \<Longrightarrow> inv (sk_with_leases sink l s)"
    and put_routed: "routed (sk_with_leases sink l s) = routed s"
    and put_carried: "carried (sk_with_leases sink l s) = carried s"
    and changed_leases: "sk_leases sink (snd (sk_routes_changed sink s)) = sk_leases sink s"
    and changed_inv: "inv s \<Longrightarrow> inv (snd (sk_routes_changed sink s))"
    and changed_carried: "carried (snd (sk_routes_changed sink s)) = carried s"
    and changed_routes: "inv s \<Longrightarrow> a \<in> set (lease_addresses (sk_leases sink s)) \<Longrightarrow> carried s a \<Longrightarrow>
      routed (snd (sk_routes_changed sink s)) a"
    and line_leases: "sk_leases sink (snd (sk_line_source sink now a s)) = sk_leases sink s"
    and line_inv: "inv s \<Longrightarrow> inv (snd (sk_line_source sink now a s))"
    and line_routed: "routed (snd (sk_line_source sink now a s)) = routed s"
    and line_carried: "carried (snd (sk_line_source sink now a s)) = carried s"
begin

text \<open>Every leased address that may be carried is routed.\<close>

definition settled :: "'s \<Rightarrow> bool" where
  "settled s \<longleftrightarrow> inv s \<and> (\<forall>a\<in>set (lease_addresses (sk_leases sink s)). carried s a \<longrightarrow> routed s a)"

lemma settled_changed: "inv s \<Longrightarrow> settled (snd (sk_routes_changed sink s))"
  by (simp add: settled_def changed_inv changed_leases changed_carried changed_routes)

lemma settled_line: "settled s \<Longrightarrow> settled (snd (sk_line_source sink now a s))"
  by (simp add: settled_def line_inv line_leases line_carried line_routed)

lemma settled_put:
  "settled s \<Longrightarrow> set (lease_addresses l) \<subseteq> set (lease_addresses (sk_leases sink s)) \<Longrightarrow>
     settled (sk_with_leases sink l s)"
  by (auto simp: settled_def put_inv leases_put put_carried put_routed)

lemma learn_settled: "settled s \<Longrightarrow> settled (snd (learn sink route asked reply now (rv, s)))"
proof -
  assume s: "settled s"
  obtain changed l where r: "lease_record (q_name asked) (case read_answers reply of Ok records \<Rightarrow> records | _ \<Rightarrow> [])
      now (sk_leases sink s) = (changed, l)" by fastforce
  have "inv (sk_with_leases sink l s)" using s by (simp add: settled_def put_inv)
  then have "settled (snd (sk_routes_changed sink (sk_with_leases sink l s)))" by (rule settled_changed)
  moreover have "settled (sk_with_leases sink l s)" if "\<not> changed"
    using lease_record_unchanged[OF r] that settled_put[OF s] by simp
  ultimately show ?thesis using s r by (auto simp: learn_def Let_def split: prod.splits)
qed

lemma ask_from_settled: "settled s \<Longrightarrow> ask_from sink net d up query now s = (r, up', s') \<Longrightarrow> settled s'"
  using settled_line[of s now "rs_address (d_resolver d)"]
  by (auto simp: ask_from_def split: via.splits prod.splits)

lemma answer_settled:
  assumes "settled s" "answer sink net sy started received query source (rv, s) = Ok (reply, rv', s')"
  shows "settled s'"
  using assms(2)
proof (cases rule: answer_ends)
  case unasked
  then show ?thesis using assms(1) by simp
next
  case (unanswered d up e up')
  then show ?thesis by (blast intro: ask_from_settled[OF assms(1)])
next
  case (answered d up m up' s1 asked rv1 rv2)
  then show ?thesis using learn_settled[OF ask_from_settled[OF assms(1) answered(2)]] by (metis snd_conv)
qed

lemma expire_settled: "settled s \<Longrightarrow> settled (resolver_expire sink now s)"
proof -
  assume s: "settled s"
  obtain gone l where e: "lease_expire now (sk_leases sink s) = (gone, l)" by fastforce
  have "inv (sk_with_leases sink l s)" using s by (simp add: settled_def put_inv)
  moreover have "set (lease_addresses l) \<subseteq> set (lease_addresses (sk_leases sink s))"
    using e by (auto simp: lease_expire_def Let_def lease_addresses_def)
  ultimately show ?thesis using e settled_changed settled_put[OF s] by (simp add: resolver_expire_def Let_def)
qed

lemma install_settled:
  assumes "settled s" "install sink net input (rv, s) = (r, rv', s')"
  shows "settled s'"
  using assms settled_changed[of s]
  by (auto simp: install_def Let_def settled_def split: outcome.splits option.splits if_splits)

end

end
