(* ===== verification/Dns_System.thy ===== *)
theory Dns_System
  imports Dns_Server
begin

text \<open>
  The resolver of \<open>Dns_Server\<close> over the core of \<open>Core_State\<close>, as \<open>main.rs\<close> puts them together: the
  \<open>RouteSink\<close> of \<open>src/core.rs\<close>, and every order in which queries, policies, sweeps, measurements and
  the application's requests reach the two. Shown over all of them: a leased address that may be
  carried is routed; every query long enough to have a header gets a reply under its own identifier;
  an install takes effect whole or not at all.
\<close>

section \<open>The core as what owns the routes\<close>

definition core_sink :: "(prefix \<Rightarrow> 'os \<Rightarrow> u32 \<times> 'os) \<Rightarrow> (prefix \<Rightarrow> 'os \<Rightarrow> u32 \<times> 'os) \<Rightarrow> stack \<Rightarrow>
    'os core sink" where
  "core_sink create delete sk = \<lparr>sk_leases = co_leases, sk_with_leases = (\<lambda>l c. c\<lparr>co_leases := l\<rparr>),
     sk_routes_changed = core_routes_changed create delete, sk_line_source = core_line_source sk\<rparr>"

definition core_finite :: "'os core \<Rightarrow> bool" where
  "core_finite c \<longleftrightarrow> finite (co_routes c) \<and> finite (co_asked c)"

definition core_routed :: "'os core \<Rightarrow> ip_addr \<Rightarrow> bool" where
  "core_routed c a \<longleftrightarrow> host_route a \<in> co_routes c"

definition core_carried :: "'os core \<Rightarrow> ip_addr \<Rightarrow> bool" where
  "core_carried c a \<longleftrightarrow> is_ipv4 a \<or> routes_ipv6 c"

lemmas core_sink_defs = core_sink_def core_finite_def core_routed_def core_carried_def

locale willing_table = forward_table create delete rows
  for create :: "prefix \<Rightarrow> 'os \<Rightarrow> u32 \<times> 'os" and delete and rows +
  assumes willing: "willing create delete"
begin

lemma install_wanted:
  assumes "finite (co_routes c)" "finite (co_asked c)"
  shows "\<exists>n os. core_routes_changed create delete c = (n, c\<lparr>co_routes := wanted_routes c, co_table := os\<rparr>)"
    "\<exists>os. snd (install_union create delete c) = c\<lparr>co_routes := wanted_routes c, co_table := os\<rparr>"
proof -
  obtain ch c' where i: "install_union create delete c = (Inr ch, c')" using install_willing[OF willing] by blast
  obtain installed os where c': "c' = c\<lparr>co_routes := installed, co_table := os\<rparr>" "co_routes c' = wanted_routes c"
    using install_books(4,5)[OF i assms] by blast
  then show "\<exists>n os. core_routes_changed create delete c = (n, c\<lparr>co_routes := wanted_routes c, co_table := os\<rparr>)"
    "\<exists>os. snd (install_union create delete c) = c\<lparr>co_routes := wanted_routes c, co_table := os\<rparr>"
    using i by (auto simp: core_routes_changed_def)
qed

end

lemma core_line_source_frame:
  obtains known where "snd (core_line_source sk now a c) = c\<lparr>co_line_sources := known\<rparr>"
proof -
  have "\<exists>known. snd (core_line_source sk now a c) = c\<lparr>co_line_sources := known\<rparr>"
    by (cases "co_line_sources c a")
      (auto simp: core_line_source_def Let_def intro: exI[of _ "co_line_sources c"])
  then show ?thesis using that by blast
qed

lemma finite_wanted: "finite (co_asked c) \<Longrightarrow> finite (wanted_routes c)"
  by (simp add: wanted_routes_def)

lemma wanted_leased:
  "a \<in> set (lease_addresses (co_leases c)) \<Longrightarrow> core_carried c a \<Longrightarrow> host_route a \<in> wanted_routes c"
  by (auto simp: wanted_routes_def core_carried_def host_route_def)

lemma core_changed_frame:
  obtains installed os where
    "snd (core_routes_changed create delete c) = c\<lparr>co_routes := installed, co_table := os\<rparr>"
proof -
  have "\<exists>installed os. snd (core_routes_changed create delete c) = c\<lparr>co_routes := installed, co_table := os\<rparr>"
    by (auto simp: core_routes_changed_def install_union_def split: prod.split sum.split)
  then show ?thesis using that by blast
qed

lemma core_changed_simps [simp]:
  "co_leases (snd (core_routes_changed create delete c)) = co_leases c"
  "co_asked (snd (core_routes_changed create delete c)) = co_asked c"
  "routes_ipv6 (snd (core_routes_changed create delete c)) = routes_ipv6 c"
  by (rule core_changed_frame[of create delete c], simp add: routes_ipv6_def core_ipv6_support_def)+

lemma core_line_simps [simp]:
  "co_leases (snd (core_line_source sk now a c)) = co_leases c"
  "co_routes (snd (core_line_source sk now a c)) = co_routes c"
  "co_asked (snd (core_line_source sk now a c)) = co_asked c"
  "routes_ipv6 (snd (core_line_source sk now a c)) = routes_ipv6 c"
  by (rule core_line_source_frame[of sk now a c], simp add: routes_ipv6_def core_ipv6_support_def)+

lemma routes_ipv6_leases [simp]: "routes_ipv6 (c\<lparr>co_leases := l\<rparr>) = routes_ipv6 c"
  by (simp add: routes_ipv6_def core_ipv6_support_def)

context willing_table
begin

lemma changed_routes_wanted:
  "core_finite c \<Longrightarrow> co_routes (snd (core_routes_changed create delete c)) = wanted_routes c"
  using install_wanted(1)[of c] by (auto simp: core_finite_def)

end

sublocale willing_table \<subseteq> core: route_sink "core_sink create delete sk" core_finite core_routed core_carried
  for sk
proof (unfold_locales, goal_cases)
  case (6 s)
  then show ?case using changed_routes_wanted[of s] finite_wanted[of s] by (simp add: core_sink_defs)
next
  case (8 s a)
  then show ?case
    using changed_routes_wanted[of s] wanted_leased[of a s] by (simp add: core_sink_def core_routed_def)
qed (auto simp: core_sink_defs fun_eq_iff)

interpretation open_table: willing_table open_create open_delete "\<lambda>os. os"
  by unfold_locales (rule open_willing)

section \<open>Replies\<close>

lemma watching_for_installed:
  "watching_for name rv = (b, rv') \<Longrightarrow> rv_installed rv' = rv_installed rv \<and> rv_listen rv' = rv_listen rv"
  by (auto simp: watching_for_def split: if_splits option.splits prod.splits)

lemma asker_of_installed:
  "asker_of sy source now rv = (a, rv') \<Longrightarrow> rv_installed rv' = rv_installed rv \<and> rv_listen rv' = rv_listen rv"
  by (auto simp: asker_of_def split: option.splits prod.splits)

lemma counts_installed [simp]:
  "rv_installed (count_query rv) = rv_installed rv" "rv_installed (count_failed rv) = rv_installed rv"
  "rv_installed (count_answered rv) = rv_installed rv" "rv_installed (count_routed n rv) = rv_installed rv"
  "rv_listen (count_query rv) = rv_listen rv" "rv_listen (count_failed rv) = rv_listen rv"
  "rv_listen (count_answered rv) = rv_listen rv" "rv_listen (count_routed n rv) = rv_listen rv"
  by (simp_all add: count_query_def count_failed_def count_answered_def count_routed_def)

lemma learn_installed:
  "learn sink route asked reply now (rv, s) = (rv', s') \<Longrightarrow>
     rv_installed rv' = rv_installed rv \<and> rv_listen rv' = rv_listen rv"
  by (auto simp: learn_def Let_def split: prod.splits if_splits)


text \<open>A policy in place was built from what the application wrote, decides everything, and has a client
  prepared for each of its resolvers.\<close>

definition well_installed :: "'cl installed \<Rightarrow> bool" where
  "well_installed i \<longleftrightarrow> policy_ok (in_policy i) \<and> decides_everything (in_policy i) \<and>
     (\<forall>r\<in>set (p_rules (in_policy i)). \<exists>x. map_of (p_resolvers (in_policy i)) (ru_resolver r) = Some x \<and>
        in_upstreams i (rs_id x) \<noteq> None)"

definition resolver_ok :: "'cl resolver_state \<Rightarrow> bool" where
  "resolver_ok rv \<longleftrightarrow> (\<forall>i. rv_installed rv = Some i \<longrightarrow> well_installed i)"

lemma well_installed_asked:
  "well_installed i \<Longrightarrow> well_installed (i\<lparr>in_upstreams := (in_upstreams i)(k \<mapsto> up)\<rparr>)"
  by (force simp: well_installed_def)

text \<open>What is decided is a rule of the policy, and its resolver has a client.\<close>

lemma well_installed_decides:
  assumes "well_installed i"
  shows "\<exists>d up. decide (in_policy i) name asker = Ok (Some d) \<and>
    in_upstreams i (rs_id (d_resolver d)) = Some up"
proof -
  have ok: "policy_ok (in_policy i)" using assms by (simp add: well_installed_def)
  obtain k where k: "first_rule (p_rules (in_policy i)) name asker = Some k"
    using decides_all[OF ok, of name asker] assms by (auto simp: well_installed_def)
  then have "k < length (p_rules (in_policy i))" by (auto simp: first_rule_def dest: position_Some)
  then have "p_rules (in_policy i) ! k \<in> set (p_rules (in_policy i))" by simp
  then show ?thesis using assms k decide_ok[OF ok, of name asker] by (auto simp: well_installed_def)
qed

section \<open>Every answer is a reply\<close>

lemma and_then_case: "and_then m f = (case m of Ok x \<Rightarrow> f x | Err e \<Rightarrow> Err e | Panic \<Rightarrow> Panic)"
  by (cases m) simp_all

lemma resolver_ok_same:
  "watching_for name rv = (b, rv') \<Longrightarrow> resolver_ok rv' = resolver_ok rv"
  "asker_of sy source now rv = (a, rv') \<Longrightarrow> resolver_ok rv' = resolver_ok rv"
  "learn sink route asked reply now (rv, s) = (rv', s') \<Longrightarrow> resolver_ok rv' = resolver_ok rv"
  by (auto simp: resolver_ok_def dest: watching_for_installed asker_of_installed learn_installed)

lemma resolver_ok_simps [simp]:
  "resolver_ok (count_query rv) = resolver_ok rv" "resolver_ok (count_failed rv) = resolver_ok rv"
  "resolver_ok (count_answered rv) = resolver_ok rv"
  "resolver_ok (rv\<lparr>rv_installed := Some i\<rparr>) = well_installed i"
  by (simp_all add: resolver_ok_def)

lemma answer_resolver_ok:
  assumes "resolver_ok rv" "answer sink net sy started received query source (rv, s) = Ok (reply, rv', s')"
  shows "resolver_ok rv'"
proof -
  have keep: "rv_installed rv2 = Some i \<Longrightarrow> resolver_ok rv2 \<Longrightarrow>
      well_installed (i\<lparr>in_upstreams := (in_upstreams i)(k \<mapsto> up)\<rparr>)" for rv2 i k up
    by (rule well_installed_asked) (simp add: resolver_ok_def)
  show ?thesis
    using assms
    by (auto simp: answer_def Let_def and_then_case resolver_ok_same
        split: outcome.splits prod.splits bool.splits option.splits;
        metis keep resolver_ok_same(1,2) resolver_ok_simps(1))
qed

lemma ask_from_total:
  fixes net :: "('x, 'st, 'cl) net"
  assumes "ask_from sink net d up query now s = (r, up', s')"
  shows "r \<noteq> Panic \<and> (\<forall>m. r = Ok m \<longrightarrow> HEADER_LEN \<le> length m \<and> take 2 m = take 2 query)"
proof -
  obtain source s1 where "(case rs_via (d_resolver d) of
      Direct \<Rightarrow> sk_line_source sink now (rs_address (d_resolver d)) s | Tunnel \<Rightarrow> (None, s)) = (source, s1)"
    by fastforce
  then have "r = fst (ask net up query source)" using assms by (auto simp: ask_from_def split: prod.splits)
  then show ?thesis using ask_belongs[where query = query and up = up and source = source and net = net]
    by (auto split: outcome.splits)
qed

lemma answer_returns:
  fixes net :: "('x, 'st, 'cl) net"
  assumes "resolver_ok rv"
  obtains reply rv' s' where "answer sink net sy started received query source (rv, s) = Ok (reply, rv', s')"
proof -
  have "\<exists>d. rv_installed rv = Some i \<longrightarrow> decide (in_policy i) name asker = Ok (Some d)" for i name asker
    using assms well_installed_decides[of i name asker] by (auto simp: resolver_ok_def)
  then obtain d where d: "rv_installed rv = Some i \<Longrightarrow> decide (in_policy i) name asker = Ok (Some (d i name asker))"
    for i name asker by metis
  show ?thesis
  proof (cases "answer sink net sy started received query source (rv, s)")
    case (Ok x)
    then show ?thesis using that by (cases x) auto
  next
    case (Err e)
    then show ?thesis
      by (auto simp: answer_def Let_def d split: outcome.splits prod.splits bool.splits option.splits
          dest!: watching_for_installed asker_of_installed)
  next
    case Panic
    then show ?thesis
      by (auto simp: answer_def Let_def d read_query_no_panic split: outcome.splits prod.splits bool.splits option.splits
          dest!: watching_for_installed asker_of_installed ask_from_total)
  qed
qed


section \<open>Installing\<close>

lemma upstreams_build_keys:
  "upstreams_build net rs by_id = Ok by_id' \<Longrightarrow>
     by_id k \<noteq> None \<or> k \<in> rs_id ` set rs \<Longrightarrow> by_id' k \<noteq> None"
  by (induction net rs by_id arbitrary: by_id' rule: upstreams_build.induct)
    (auto simp: and_then_eq_Ok)

lemma install_cases:
  assumes "install sink net input (rv, s) = (r, rv', s')"
  obtains (refused) e where "r = Err e" "rv' = rv" "s' = s" | (panicked) "r = Panic" "rv' = rv" "s' = s"
  | (accepted) report p ups where "r = Ok report" "policy_build input = Ok p" "decides_everything p"
      "rv' = rv\<lparr>rv_installed := Some \<lparr>in_policy = p, in_upstreams = ups\<rparr>\<rparr>"
      "s' = snd (sk_routes_changed sink s)"
      "upstreams_build net (map snd (p_resolvers p)) (\<lambda>_. None) = Ok ups"
      "\<forall>listen. rv_listen rv = Some listen \<longrightarrow> circular_resolver (fst listen) (map snd (p_resolvers p)) = None"
proof -
  consider (r) "\<exists>e. r = Err e \<and> rv' = rv \<and> s' = s" | (p) "r = Panic \<and> rv' = rv \<and> s' = s"
  | (a) "\<exists>report p ups. r = Ok report \<and> policy_build input = Ok p \<and> decides_everything p \<and>
      rv' = rv\<lparr>rv_installed := Some \<lparr>in_policy = p, in_upstreams = ups\<rparr>\<rparr> \<and>
      s' = snd (sk_routes_changed sink s) \<and>
      upstreams_build net (map snd (p_resolvers p)) (\<lambda>_. None) = Ok ups \<and>
      (\<forall>listen. rv_listen rv = Some listen \<longrightarrow> circular_resolver (fst listen) (map snd (p_resolvers p)) = None)"
    using assms
    by (cases "rv_listen rv") (auto simp: install_def Let_def split: outcome.splits if_splits option.splits)
  then show ?thesis
  proof cases
    case r
    then show ?thesis using refused by blast
  next
    case p
    then show ?thesis using panicked by blast
  next
    case a
    then show ?thesis using accepted by blast
  qed
qed

lemma install_resolver_ok:
  assumes "resolver_ok rv" "install sink net input (rv, s) = (r, rv', s')"
  shows "resolver_ok rv'"
  using assms(2)
proof (cases rule: install_cases)
  case (accepted report p ups)
  have ok: "policy_ok p" using policy_build_ok(1)[OF accepted(2)] .
  have "\<exists>x. map_of (p_resolvers p) (ru_resolver rl) = Some x \<and> ups (rs_id x) \<noteq> None" if "rl \<in> set (p_rules p)" for rl
  proof -
    have "\<forall>r\<in>set (p_rules p). map_of (p_resolvers p) (ru_resolver r) \<noteq> None" using ok by (simp add: policy_ok_def)
    from bspec[OF this that] obtain x where x: "map_of (p_resolvers p) (ru_resolver rl) = Some x" by auto
    have "x \<in> snd ` set (p_resolvers p)" using imageI[OF map_of_SomeD[OF x], of snd] by simp
    then show ?thesis using x upstreams_build_keys[OF accepted(6), of "rs_id x"] by auto
  qed
  then show ?thesis using accepted(3,4) ok by (auto simp: resolver_ok_def well_installed_def)
qed (use assms(1) in simp_all)

lemma circular_none:
  "circular_resolver listen rs = None \<longleftrightarrow> (\<forall>r\<in>set rs. rs_kind r = Plain \<longrightarrow> rs_address r \<noteq> listen)"
  by (auto simp: circular_resolver_def find_None_iff)

section \<open>Resolver and core together\<close>

text \<open>What can happen, in any order: a query, a policy, the sweep of leases, a watch, and everything the
  application, the engine and the system ask of the core. The addresses of the line, which the system
  gives, come with each event.\<close>

datatype ('x, 'st, 'cl) system_op =
    Queried stack "('x, 'st, 'cl) net" system instant instant bytes "origin option"
  | Installing stack "('x, 'st, 'cl) net" policy_input
  | Sweeping stack instant
  | Watching string
  | Unwatching
  | Controlled core_op

fun system_step :: "(prefix \<Rightarrow> 'os \<Rightarrow> u32 \<times> 'os) \<Rightarrow> (prefix \<Rightarrow> 'os \<Rightarrow> u32 \<times> 'os) \<Rightarrow>
    ('x, 'st, 'cl) system_op \<Rightarrow> 'cl resolver_state \<times> 'os core \<Rightarrow> 'cl resolver_state \<times> 'os core" where
  "system_step create delete (Queried sk net sy started received query source) (rv, c) =
     (case answer (core_sink create delete sk) net sy started received query source (rv, c) of
        Ok (_, rv, c) \<Rightarrow> (rv, c) | _ \<Rightarrow> (rv, c))"
| "system_step create delete (Installing sk net input) (rv, c) = snd (install (core_sink create delete sk) net input (rv, c))"
| "system_step create delete (Sweeping sk now) (rv, c) = (rv, resolver_expire (core_sink create delete sk) now c)"
| "system_step create delete (Watching name) (rv, c) = (snd (watch_for name rv), c)"
| "system_step create delete Unwatching (rv, c) = (stop_watching rv, c)"
| "system_step create delete (Controlled op) (rv, c) = (rv, core_step create delete op c)"

text \<open>Leases are taken in and let go of by the resolver alone, and the sets asked for are finite.\<close>

fun outward :: "('x, 'st, 'cl) system_op \<Rightarrow> bool" where
  "outward (Controlled op) = (case op of Learned _ _ _ \<Rightarrow> False | Expired _ \<Rightarrow> False | _ \<Rightarrow> finite_op op)"
| "outward _ = True"

definition core_settled :: "'os core \<Rightarrow> bool" where
  "core_settled c \<longleftrightarrow> core_finite c \<and>
     (\<forall>a\<in>set (lease_addresses (co_leases c)). core_carried c a \<longrightarrow> core_routed c a)"

context willing_table
begin

lemma settled_eq: "core.settled sk = core_settled"
  by (intro ext) (simp add: core.settled_def core_settled_def, simp add: core_sink_def)

lemma settled_install: "core_finite c \<Longrightarrow> core_settled (snd (install_union create delete c))"
proof -
  assume c: "core_finite c"
  then obtain os where "snd (install_union create delete c) = c\<lparr>co_routes := wanted_routes c, co_table := os\<rparr>"
    using install_wanted(2)[of c] by (auto simp: core_finite_def)
  then show ?thesis using c wanted_leased[of _ c] finite_wanted[of c]
    by (simp add: core_settled_def core_finite_def core_routed_def core_carried_def routes_ipv6_def core_ipv6_support_def)
qed

lemma core_step_settled:
  assumes "core_settled c" "outward (Controlled op)"
  shows "core_settled (core_step create delete op c)"
proof (cases op)
  case (Asked ipv6 wanted)
  then have "core_finite ((set_wants_ipv6 ipv6 c)\<lparr>co_asked := wanted\<rparr>)"
    using assms by (simp add: core_settled_def core_finite_def set_wants_ipv6_def)
  from settled_install[OF this] show ?thesis using Asked by (simp add: set_routes_def)
next
  case (Measured carries)
  have "core_finite (c\<lparr>co_v6 := v\<rparr>)" for v using assms by (simp add: core_settled_def core_finite_def)
  from settled_install[OF this] show ?thesis using Measured assms(1) by (simp add: set_carries_ipv6_def Let_def)
next
  case Refreshed
  have "core_finite c" using assms by (simp add: core_settled_def)
  from settled_install[OF this] show ?thesis
    using Refreshed by (auto simp: core_routes_changed_def split: prod.split sum.split)
next
  case (Renewed now a)
  then show ?thesis using assms
    by (simp add: core_settled_def core_finite_def core_routed_def core_carried_def)
next
  case (Moved interface notice)
  then show ?thesis using assms
    by (simp add: core_settled_def core_finite_def core_routed_def core_carried_def line_changed_def
        routes_ipv6_def core_ipv6_support_def)
qed (use assms in simp_all)

lemma system_step_ok:
  assumes "resolver_ok rv" "core_settled c" "outward op"
    and "system_step create delete op (rv, c) = (rv', c')"
  shows "resolver_ok rv' \<and> core_settled c'"
proof (cases op)
  case (Queried sk net sy started received query source)
  obtain reply rv1 c1 where a: "answer (core_sink create delete sk) net sy started received query source (rv, c) =
      Ok (reply, rv1, c1)" using answer_returns[OF assms(1)] .
  then show ?thesis
    using Queried assms answer_resolver_ok[OF assms(1) a] core.answer_settled[of sk c, OF _ a] by (simp add: settled_eq)
next
  case (Installing sk net input)
  obtain r rv1 c1 where i: "install (core_sink create delete sk) net input (rv, c) = (r, rv1, c1)"
    by (metis prod_cases3)
  then show ?thesis
    using Installing assms install_resolver_ok[OF assms(1) i] core.install_settled[of sk c, OF _ i] by (simp add: settled_eq)
next
  case (Sweeping sk now)
  then show ?thesis using assms core.expire_settled[of sk c now] by (auto simp: settled_eq)
next
  case (Controlled op')
  then show ?thesis using assms core_step_settled[of c op'] by auto
qed (use assms in \<open>auto simp: watch_for_def stop_watching_def resolver_ok_def\<close>)

lemma system_run_ok:
  assumes "list_all outward ops" "resolver_ok rv" "core_settled c"
    and "fold (system_step create delete) ops (rv, c) = (rv', c')"
  shows "resolver_ok rv' \<and> core_settled c'"
  using assms
proof (induction ops arbitrary: rv c)
  case (Cons op ops)
  obtain rv1 c1 where s: "system_step create delete op (rv, c) = (rv1, c1)" by fastforce
  then show ?case using Cons system_step_ok[OF _ _ _ s] by auto
qed simp

end


section \<open>The properties\<close>



text \<open>An install takes effect whole or not at all. Refused, it leaves the policy in place and the routes as
  they were; accepted, the policy is complete, decides everything, none of its plain resolvers is at
  the address the resolver itself answers on, and each has a client prepared.\<close>

theorem install_whole_or_not:
  assumes "install sink net input (rv, s) = (r, rv', s')"
  shows "case r of
      Ok report \<Rightarrow> \<exists>p ups. policy_build input = Ok p \<and> decides_everything p \<and>
        rv' = rv\<lparr>rv_installed := Some \<lparr>in_policy = p, in_upstreams = ups\<rparr>\<rparr> \<and>
        (\<forall>x\<in>snd ` set (p_resolvers p). ups (rs_id x) \<noteq> None \<and>
          \<not> (rs_kind x = Plain \<and> Some (rs_address x) = map_option fst (rv_listen rv)))
    | _ \<Rightarrow> rv' = rv \<and> s' = s"
  using assms
proof (cases rule: install_cases)
  case (accepted report p ups)
  have "ups (rs_id x) \<noteq> None" if "x \<in> snd ` set (p_resolvers p)" for x
    using upstreams_build_keys[OF accepted(6), of "rs_id x"] that by auto
  moreover have "\<not> (rs_kind x = Plain \<and> Some (rs_address x) = map_option fst (rv_listen rv))"
    if "x \<in> snd ` set (p_resolvers p)" for x
    using accepted(7) that by (cases "rv_listen rv") (auto simp: circular_none)
  ultimately show ?thesis using accepted(1-4) by auto
qed simp_all

section \<open>A run\<close>

text \<open>One resolver, asked for every name, whose answers are routed; a query for the address of \<open>a\<close> and its
  reply; and the two as events.\<close>

definition sample_input :: policy_input where
  "sample_input = \<lparr>in_resolvers = [\<lparr>rs_id = ''t'', rs_kind = Plain, rs_address = V4 9, rs_url = None, rs_via = Tunnel\<rparr>],
     in_rules = [\<lparr>ru_match = Any, ru_resolver = ''t'', ru_programs = [], ru_route = True\<rparr>]\<rparr>"


definition sample_answer :: bytes where
  "sample_answer = [0, 1, 0x80, 0, 0, 1, 0, 1, 0, 0, 0, 0, 1, 97, 0, 0, 1, 0, 1,
     0xc0, 12, 0, 1, 0, 1, 0, 0, 0, 60, 0, 4, 10, 0, 0, 7]"

definition udp_net :: "(unit, unit, unit) net" where
  "udp_net = \<lparr>nt_udp = (\<lambda>_ _ _. GotDatagram sample_answer), nt_tcp = (\<lambda>_ _ _. StreamTimeout),
     nt_http = (\<lambda>_ _ _. HttpTimeout), nt_client = (\<lambda>_ _ _. Inr ()), nt_url = (\<lambda>_. None)\<rparr>"



lemma sample_decided: "(case policy_build sample_input of Ok p \<Rightarrow> decide p ''a'' None | _ \<Rightarrow> Panic) = Ok (Some \<lparr>d_resolver = hd (in_resolvers sample_input), d_route = True, d_rule = 0\<rparr>)"
  by code_simp


lemma sample_complete: "(case policy_build sample_input of Ok p \<Rightarrow> decides_everything p \<and> rule_count p = 1 \<and> map snd (p_resolvers p) = in_resolvers sample_input | _ \<Rightarrow> False)"
  by code_simp

definition sample_policy_built :: policy where
  "sample_policy_built = the_ok (policy_build sample_input)"

lemma sample_built:
  "policy_build sample_input = Ok sample_policy_built" "decides_everything sample_policy_built"
  "map snd (p_resolvers sample_policy_built) = in_resolvers sample_input"
  "decide sample_policy_built ''a'' None = Ok (Some \<lparr>d_resolver = hd (in_resolvers sample_input), d_route = True, d_rule = 0\<rparr>)"
proof -
  show p: "policy_build sample_input = Ok sample_policy_built"
    using sample_complete by (auto simp: sample_policy_built_def the_ok_eq split: outcome.splits)
  show "decides_everything sample_policy_built" "map snd (p_resolvers sample_policy_built) = in_resolvers sample_input"
    "decide sample_policy_built ''a'' None = Ok (Some \<lparr>d_resolver = hd (in_resolvers sample_input), d_route = True, d_rule = 0\<rparr>)"
    using sample_complete sample_decided unfolding p by auto
qed

definition sample_resolver :: "unit resolver_state" where
  "sample_resolver = (resolver_new None)\<lparr>rv_installed := Some \<lparr>in_policy = sample_policy_built,
     in_upstreams = [''t'' \<mapsto> PlainUpstream (V4 9)]\<rparr>\<rparr>"

lemma sample_installed:
  "\<exists>report. install sink udp_net sample_input (resolver_new None, s) =
     (Ok report, sample_resolver, snd (sk_routes_changed sink s))"
  by (simp add: install_def sample_built Let_def)
    (simp add: sample_input_def build_upstream_def resolver_new_def sample_resolver_def)




theorem install_whole_or_not_witness:
  "policy_build sample_input = Ok sample_policy_built \<and> decides_everything sample_policy_built \<and>
    rv_installed sample_resolver \<noteq> None"
proof -
  obtain report where i: "install (core_sink open_create open_delete sample_stack) udp_net sample_input
      (resolver_new None, core_new 0 7 {}) =
      (Ok report, sample_resolver, snd (sk_routes_changed (core_sink open_create open_delete sample_stack) (core_new 0 7 {})))"
    using sample_installed[of "core_sink open_create open_delete sample_stack" "core_new 0 7 {}"] by (elim exE)
  show ?thesis using install_whole_or_not[OF i] by (auto simp: sample_built(1) sample_resolver_def)
qed



text \<open>Installing a policy routes none of the resolvers it reaches through the tunnel: unless the
  application asked for a prefix at its address, or a name leased it, such a resolver has no row of its
  own when the install returns, and its first query leaves as the routing table then sends it.\<close>

theorem tunnelled_resolver_unrouted:
  fixes net :: "('x, 'st, 'cl) net"
  assumes "forward_table create delete rows" "willing create delete" "finite (co_routes c)" "finite (co_asked c)"
    and "install (core_sink create delete sk) net input (rv, c) = (Ok report, rv', c')"
    and "rv_installed rv' = Some i" "address \<in> set (tunnelled_resolvers (in_policy i))"
    and "address \<notin> fst ` co_asked c" "address \<notin> set (lease_addresses (co_leases c))"
  shows "address \<notin> fst ` co_routes c'"
proof -
  have w: "willing_table create delete rows"
    using assms(1,2) by (simp add: willing_table_def willing_table_axioms_def)
  have "c' = snd (core_routes_changed create delete c)"
    using assms(5) by (cases rule: install_cases) (simp_all add: core_sink_def)
  then have "co_routes c' = wanted_routes c"
    using willing_table.changed_routes_wanted[OF w] assms(3,4) by (simp add: core_finite_def)
  then show ?thesis using assms(8,9) by (auto simp: wanted_routes_def host_route_def image_iff)
qed

theorem tunnelled_resolver_unrouted_witness:
  "V4 9 \<in> set (tunnelled_resolvers sample_policy_built) \<and>
   V4 9 \<notin> fst ` co_routes (snd (core_routes_changed open_create open_delete (core_new 0 7 {})))"
proof -
  let ?c = "core_new 0 7 {} :: prefix set core"
  have t: "V4 9 \<in> set (tunnelled_resolvers sample_policy_built)"
    using sample_built(3) by (simp add: tunnelled_resolvers_def sample_input_def)
  obtain report where i: "install (core_sink open_create open_delete sample_stack) udp_net sample_input
      (resolver_new None, ?c) =
      (Ok report, sample_resolver, snd (sk_routes_changed (core_sink open_create open_delete sample_stack) ?c))"
    using sample_installed[of "core_sink open_create open_delete sample_stack" ?c] by (elim exE)
  have n: "V4 9 \<notin> fst ` co_asked ?c" "V4 9 \<notin> set (lease_addresses (co_leases ?c))" "finite (co_routes ?c)" "finite (co_asked ?c)"
    by (simp_all add: core_new_def lease_addresses_def leases_new_def)
  have r: "rv_installed sample_resolver = Some \<lparr>in_policy = sample_policy_built, in_upstreams = [''t'' \<mapsto> PlainUpstream (V4 9)]\<rparr>"
    by (simp add: sample_resolver_def)
  show ?thesis
    using tunnelled_resolver_unrouted[OF unrefused.forward_table_axioms open_willing n(3,4) i r _ n(1,2)] t
    by (simp add: core_sink_def)
qed

section \<open>Over TCP\<close>

definition framed :: "bytes \<Rightarrow> bytes" where
  "framed m = be_bytes 2 (of_nat (length m) :: u16) @ m"

text \<open>The queries one after another, up to the first without a reply that fits.\<close>

fun in_turn :: "(bytes \<Rightarrow> 's \<Rightarrow> bytes option \<times> 's) \<Rightarrow> bytes list \<Rightarrow> 's \<Rightarrow> bytes list \<times> 's" where
  "in_turn answered [] s = ([], s)"
| "in_turn answered (q # qs) s =
     (case answered q s of
        (None, s) \<Rightarrow> ([], s)
      | (Some reply, s) \<Rightarrow>
          if 65535 < length reply then ([], s)
          else (case in_turn answered qs s of (replies, s) \<Rightarrow> (reply # replies, s)))"

lemma converse_framed:
  assumes "HEADER_LEN \<le> length q" "length q \<le> MAX_MESSAGE"
  shows "converse answered (framed q @ rest) s =
    (case answered q s of
       (None, s) \<Rightarrow> ([], s)
     | (Some reply, s) \<Rightarrow>
         if 65535 < length reply then ([], s)
         else (case converse answered rest s of (written, s) \<Rightarrow> (framed reply @ written, s)))"
proof -
  define l where "l = (of_nat (length q) :: u16)"
  define a b where ab: "a = (ucast (drop_bit 8 l) :: u8)" "b = (ucast l :: u8)"
  have be: "be_bytes 2 l = [a, b]" by (simp add: ab numeral_2_eq_2)
  have "be16 a b = l" by (simp add: ab be16_be_bytes)
  moreover have "unat l = length q" using assms(2) by (simp add: l_def unat_of_nat MAX_MESSAGE_def)
  ultimately have n: "unat (be16 a b) = length q" by simp
  have f: "framed q @ rest = a # b # q @ rest" using be by (simp add: framed_def l_def)
  show ?thesis
    using assms unfolding f by (subst converse.simps) (simp add: n Let_def framed_def split: option.split prod.split)
qed

text \<open>Over one TCP connection queries are answered in the order they came, each reply behind its own
  length, however many there are and whatever the first unfinished query has come to; the conversation
  ends at the first query without a reply that fits.\<close>

theorem converse_in_order:
  assumes "\<forall>q\<in>set qs. HEADER_LEN \<le> length q \<and> length q \<le> MAX_MESSAGE" "length rest < 2"
    and "in_turn answered qs s = (replies, s')"
  shows "converse answered (concat (map framed qs) @ rest) s = (concat (map framed replies), s')"
  using assms
proof (induction qs arbitrary: s replies)
  case Nil
  then show ?case by (subst converse.simps) (auto split: list.split)
next
  case (Cons q qs)
  have "converse answered (framed q @ concat (map framed qs) @ rest) s = (concat (map framed replies), s')"
    using Cons.prems Cons.IH
    by (auto simp: converse_framed split: prod.splits option.splits if_splits)
  then show ?case by simp
qed

theorem converse_in_order_witness:
  "converse (\<lambda>q n. (Some (rev q), n + 1)) (concat (map framed [replicate 12 1, replicate 12 2]) @ [0]) 0 =
   (concat (map framed [replicate 12 1, replicate 12 2]), 2 :: nat)"
  by (rule converse_in_order) (simp_all add: HEADER_LEN_def MAX_MESSAGE_def)

end
