(* ===== verification/Dns_Serve.thy ===== *)
theory Dns_Serve
  imports Dns_Server "HOL-Library.Multiset"
begin

text \<open>
  The listeners of \<open>src/dns/server.rs\<close>: \<open>serve\<close> with its two loops, the tasks they start, and the permits
  that bound the work in flight. The events are what the sockets and the resolver come up with, in
  whatever order they do: a datagram or a failed receive, a connection or a failed accept, a query read
  whole from a connection, an answer that is ready, a caller that hung up.
\<close>

section \<open>The server\<close>

text \<open>A task over UDP holds its permit from before it starts to its end; a conversation over TCP holds one
  while its query is being answered.\<close>

datatype conversation = Listening | Asking bytes | HungUp

record udp_task =
  ut_number :: nat
  ut_query :: bytes
  ut_from :: sock_addr

record serving =
  sv_up :: bool
  sv_tasks :: "udp_task list"
  sv_conversations :: "conversation list"
  sv_started :: nat
  sv_turned_away :: nat
  sv_unanswered :: nat
  sv_sent :: "(sock_addr \<times> bytes) list"
  sv_written :: "(nat \<times> bytes) list"

definition serving_start :: serving where
  "serving_start = \<lparr>sv_up = True, sv_tasks = [], sv_conversations = [], sv_started = 0, sv_turned_away = 0,
     sv_unanswered = 0, sv_sent = [], sv_written = []\<rparr>"

fun is_asking :: "conversation \<Rightarrow> bool" where
  "is_asking (Asking _) = True"
| "is_asking _ = False"

definition in_flight :: "serving \<Rightarrow> nat" where
  "in_flight sv = length (sv_tasks sv) + length (filter is_asking (sv_conversations sv))"

definition permit_free :: "serving \<Rightarrow> bool" where
  "permit_free sv = (in_flight sv < MAX_IN_FLIGHT)"

datatype serve_event =
    Received bytes sock_addr
  | NotReceived
  | TaskAnswered nat "bytes option"
  | Accepted
  | AcceptFailed
  | Framed nat bytes
  | ConversationAnswered nat "bytes option"
  | Left nat

definition set_conversation :: "nat \<Rightarrow> conversation \<Rightarrow> serving \<Rightarrow> serving" where
  "set_conversation i c sv = sv\<lparr>sv_conversations := (sv_conversations sv)[i := c]\<rparr>"

definition conversation_at :: "serving \<Rightarrow> nat \<Rightarrow> conversation option" where
  "conversation_at sv i = (if i < length (sv_conversations sv) then Some (sv_conversations sv ! i) else None)"

definition task_at :: "serving \<Rightarrow> nat \<Rightarrow> udp_task option" where
  "task_at sv n = List.find (\<lambda>t. ut_number t = n) (sv_tasks sv)"

text \<open>\<open>serve_udp\<close>, a datagram at a time.\<close>

definition on_datagram :: "bytes \<Rightarrow> sock_addr \<Rightarrow> serving \<Rightarrow> serving" where
  "on_datagram query from sv =
     (if permit_free sv
      then sv\<lparr>sv_tasks := sv_tasks sv @ [\<lparr>ut_number = sv_started sv, ut_query = query, ut_from = from\<rparr>],
        sv_started := sv_started sv + 1\<rparr>
      else sv\<lparr>sv_turned_away := sv_turned_away sv + 1\<rparr>)"

definition on_task_answered :: "nat \<Rightarrow> bytes option \<Rightarrow> serving \<Rightarrow> serving" where
  "on_task_answered n reply sv =
     (case task_at sv n of
        None \<Rightarrow> sv
      | Some t \<Rightarrow>
          let sv = sv\<lparr>sv_tasks := remove1 t (sv_tasks sv)\<rparr> in
          (case reply of
             Some r \<Rightarrow> sv\<lparr>sv_sent := sv_sent sv @ [(ut_from t, r)]\<rparr>
           | None \<Rightarrow> sv\<lparr>sv_unanswered := sv_unanswered sv + 1\<rparr>))"

text \<open>A turn of \<open>converse\<close>: its query, and its answer.\<close>

definition on_framed :: "nat \<Rightarrow> bytes \<Rightarrow> serving \<Rightarrow> serving" where
  "on_framed i query sv =
     (if conversation_at sv i \<noteq> Some Listening then sv
      else if \<not> (HEADER_LEN \<le> length query \<and> length query \<le> MAX_MESSAGE) then set_conversation i HungUp sv
      else if permit_free sv then set_conversation i (Asking query) sv
      else set_conversation i HungUp sv)"

definition on_conversation_answered :: "nat \<Rightarrow> bytes option \<Rightarrow> serving \<Rightarrow> serving" where
  "on_conversation_answered i reply sv =
     (case conversation_at sv i of
        Some (Asking _) \<Rightarrow>
          (case reply of
             Some r \<Rightarrow>
               if length r < 2 ^ 16 then (set_conversation i Listening sv)\<lparr>sv_written := sv_written sv @ [(i, r)]\<rparr>
               else set_conversation i HungUp sv
           | None \<Rightarrow> set_conversation i HungUp sv)
      | _ \<Rightarrow> sv)"

text \<open>The two loops together: a receive that failed is passed over, an accept that failed is the end of both.\<close>

fun serve_step :: "serve_event \<Rightarrow> serving \<Rightarrow> serving" where
  "serve_step (Received query from) sv = (if sv_up sv then on_datagram query from sv else sv)"
| "serve_step NotReceived sv = sv"
| "serve_step (TaskAnswered n reply) sv = on_task_answered n reply sv"
| "serve_step Accepted sv = (if sv_up sv then sv\<lparr>sv_conversations := sv_conversations sv @ [Listening]\<rparr> else sv)"
| "serve_step AcceptFailed sv = sv\<lparr>sv_up := False\<rparr>"
| "serve_step (Framed i query) sv = on_framed i query sv"
| "serve_step (ConversationAnswered i reply) sv = on_conversation_answered i reply sv"
| "serve_step (Left i) sv = (if conversation_at sv i = Some Listening then set_conversation i HungUp sv else sv)"

definition served :: "serve_event list \<Rightarrow> serving" where
  "served events = fold serve_step events serving_start"

text \<open>\<open>serve\<close>: nothing is served unless the address could be bound for both transports.\<close>

definition serve :: "bool \<Rightarrow> bool \<Rightarrow> serve_event list \<Rightarrow> serving option" where
  "serve udp_bound tcp_bound events = (if \<not> udp_bound then None else if \<not> tcp_bound then None else Some (served events))"

section \<open>Lemmas\<close>

text \<open>Permits are within their number, tasks have numbers of their own, and every datagram taken is being
  answered, has been, or got no answer.\<close>

definition serving_ok :: "serving \<Rightarrow> bool" where
  "serving_ok sv \<longleftrightarrow> in_flight sv \<le> MAX_IN_FLIGHT \<and> distinct (map ut_number (sv_tasks sv)) \<and>
     (\<forall>t\<in>set (sv_tasks sv). ut_number t < sv_started sv) \<and>
     sv_started sv = length (sv_tasks sv) + length (sv_sent sv) + sv_unanswered sv"

lemma serving_start_ok: "serving_ok serving_start"
  by (simp add: serving_ok_def serving_start_def in_flight_def)

lemma task_at_Some:
  "task_at sv n = Some t \<Longrightarrow> t \<in> set (sv_tasks sv) \<and> ut_number t = n"
  by (auto simp: task_at_def find_Some_iff)

lemma asking_set:
  "i < length cs \<Longrightarrow> length (filter is_asking (cs[i := c])) + (if is_asking (cs ! i) then 1 else 0) =
     length (filter is_asking cs) + (if is_asking c then 1 else 0)"
proof (induction cs arbitrary: i)
  case (Cons d cs)
  then show ?case by (cases i) auto
qed simp

lemma in_flight_set:
  assumes "conversation_at sv i = Some d"
  shows "in_flight (set_conversation i c sv) + (if is_asking d then 1 else 0) = in_flight sv + (if is_asking c then 1 else 0)"
  using assms asking_set[of i "sv_conversations sv" c]
  by (auto simp: conversation_at_def set_conversation_def in_flight_def split: if_splits)

lemma set_conversation_ok:
  assumes "serving_ok sv" "in_flight (set_conversation i c sv) \<le> MAX_IN_FLIGHT"
  shows "serving_ok (set_conversation i c sv)"
  using assms unfolding serving_ok_def by (auto simp: set_conversation_def)

lemma set_conversation_less:
  "serving_ok sv \<Longrightarrow> conversation_at sv i = Some d \<Longrightarrow> \<not> is_asking c \<Longrightarrow> serving_ok (set_conversation i c sv)"
  using in_flight_set[of sv i d c] by (intro set_conversation_ok) (auto simp: serving_ok_def split: if_splits)

lemma serve_step_ok: "serving_ok sv \<Longrightarrow> serving_ok (serve_step ev sv)"
proof (induction ev sv rule: serve_step.induct)
  case (1 query "from" sv)
  then show ?case by (auto simp: serving_ok_def on_datagram_def permit_free_def in_flight_def)
next
  case (3 n reply sv)
  show ?case
  proof (cases "task_at sv n")
    case (Some t)
    then have t: "t \<in> set (sv_tasks sv)" using task_at_Some by blast
    then have len: "length (sv_tasks sv) = Suc (length (remove1 t (sv_tasks sv)))"
      using length_pos_if_in_set[OF t] t by (simp add: length_remove1)
    have dist: "distinct (map ut_number (remove1 t (sv_tasks sv)))"
    proof -
      have "distinct (map ut_number (sv_tasks sv))" using 3 unfolding serving_ok_def by blast
      then have "distinct (sv_tasks sv)" "inj_on ut_number (set (sv_tasks sv))" unfolding distinct_map by blast+
      then show ?thesis unfolding distinct_map
        by (simp add: distinct_remove1 inj_on_diff)
    qed
    have less: "\<forall>u\<in>set (remove1 t (sv_tasks sv)). ut_number u < sv_started sv"
      using 3 set_remove1_subset[of t "sv_tasks sv"] by (auto simp: serving_ok_def)
    have few: "length (remove1 t (sv_tasks sv)) + length (filter is_asking (sv_conversations sv)) \<le> MAX_IN_FLIGHT"
      "sv_started sv = Suc (length (remove1 t (sv_tasks sv))) + length (sv_sent sv) + sv_unanswered sv"
      using 3 len by (simp_all add: serving_ok_def in_flight_def)
    show ?thesis using dist less few Some
      by (cases reply) (simp_all add: on_task_answered_def Let_def serving_ok_def in_flight_def del: length_remove1)
  qed (use 3 in \<open>simp add: on_task_answered_def\<close>)
next
  case (6 i query sv)
  show ?case
  proof (cases "conversation_at sv i = Some Listening")
    case True
    have "serving_ok (set_conversation i HungUp sv)" using set_conversation_less[OF 6 True] by simp
    moreover have "serving_ok (set_conversation i (Asking query) sv)" if "permit_free sv"
      using in_flight_set[OF True, of "Asking query"] that by (intro set_conversation_ok[OF 6]) (simp add: permit_free_def)
    ultimately show ?thesis using 6 by (simp add: on_framed_def)
  qed (simp add: on_framed_def 6)
next
  case (7 i reply sv)
  have w: "serving_ok (sv'\<lparr>sv_written := ws\<rparr>)" if "serving_ok sv'" for sv' ws
    using that by (auto simp: serving_ok_def in_flight_def)
  show ?case using 7
    by (auto simp: on_conversation_answered_def split: option.split conversation.split intro!: w set_conversation_less)
next
  case (8 i sv)
  then show ?case by (simp add: set_conversation_less)
qed (auto simp: serving_ok_def in_flight_def)

lemma served_Nil: "served [] = serving_start"
  by (simp add: served_def)

lemma served_snoc: "served (events @ [ev]) = serve_step ev (served events)"
  by (simp add: served_def)

lemma served_ok: "serving_ok (served events)"
  by (induction events rule: rev_induct) (simp_all add: served_Nil served_snoc serving_start_ok serve_step_ok)

text \<open>What the handlers leave alone.\<close>

lemma set_conversation_keeps [simp]:
  "sv_up (set_conversation i c sv) = sv_up sv" "sv_tasks (set_conversation i c sv) = sv_tasks sv"
  "sv_sent (set_conversation i c sv) = sv_sent sv" "sv_started (set_conversation i c sv) = sv_started sv"
  "sv_turned_away (set_conversation i c sv) = sv_turned_away sv"
  by (simp_all add: set_conversation_def)

lemma on_framed_keeps [simp]:
  "sv_up (on_framed i q sv) = sv_up sv" "sv_tasks (on_framed i q sv) = sv_tasks sv"
  "sv_sent (on_framed i q sv) = sv_sent sv" "sv_started (on_framed i q sv) = sv_started sv"
  "sv_turned_away (on_framed i q sv) = sv_turned_away sv"
  by (simp_all add: on_framed_def)

lemma on_conversation_answered_keeps [simp]:
  "sv_up (on_conversation_answered i r sv) = sv_up sv" "sv_tasks (on_conversation_answered i r sv) = sv_tasks sv"
  "sv_sent (on_conversation_answered i r sv) = sv_sent sv" "sv_started (on_conversation_answered i r sv) = sv_started sv"
  "sv_turned_away (on_conversation_answered i r sv) = sv_turned_away sv"
  by (simp_all add: on_conversation_answered_def split: option.split conversation.split)

lemma on_task_answered_keeps [simp]:
  "sv_up (on_task_answered n r sv) = sv_up sv" "sv_started (on_task_answered n r sv) = sv_started sv"
  "sv_turned_away (on_task_answered n r sv) = sv_turned_away sv"
  by (simp_all add: on_task_answered_def Let_def split: option.split)

lemma on_datagram_up [simp]: "sv_up (on_datagram q a sv) = sv_up sv"
  by (simp add: on_datagram_def)

lemma serve_step_up: "sv_up (serve_step ev sv) = (sv_up sv \<and> ev \<noteq> AcceptFailed)"
  by (cases ev) simp_all

lemma served_up: "sv_up (served events) = (AcceptFailed \<notin> set events)"
  by (induction events rule: rev_induct) (auto simp: served_Nil served_snoc serving_start_def serve_step_up)

text \<open>The addresses the datagrams came from, while the loops ran.\<close>

fun asked_from :: "serve_event list \<Rightarrow> sock_addr list" where
  "asked_from [] = []"
| "asked_from (AcceptFailed # events) = []"
| "asked_from (Received query from # events) = from # asked_from events"
| "asked_from (_ # events) = asked_from events"

lemma asked_from_snoc:
  "asked_from (events @ [ev]) =
     asked_from events @ (if AcceptFailed \<in> set events then [] else case ev of Received q a \<Rightarrow> [a] | _ \<Rightarrow> [])"
  by (induction events rule: asked_from.induct) (cases ev; simp)+

definition owed :: "serving \<Rightarrow> sock_addr multiset" where
  "owed sv = mset (map ut_from (sv_tasks sv)) + mset (map fst (sv_sent sv))"

lemma owed_answered: "owed (on_task_answered n reply sv) \<subseteq># owed sv"
proof (cases "task_at sv n")
  case (Some t)
  then have "mset (sv_tasks sv) = add_mset t (mset (remove1 t (sv_tasks sv)))" using task_at_Some by fastforce
  then have "mset (map ut_from (sv_tasks sv)) = add_mset (ut_from t) (mset (map ut_from (remove1 t (sv_tasks sv))))"
    by (metis image_mset_add_mset mset_map)
  then show ?thesis using Some by (cases reply) (simp_all add: on_task_answered_def Let_def owed_def)
qed (simp add: on_task_answered_def)

lemma owed_cong: "sv_tasks sv' = sv_tasks sv \<Longrightarrow> sv_sent sv' = sv_sent sv \<Longrightarrow> owed sv' = owed sv"
  by (simp add: owed_def)

lemma owed_step:
  "owed (serve_step ev sv) \<subseteq># owed sv + (if sv_up sv then (case ev of Received q a \<Rightarrow> {#a#} | _ \<Rightarrow> {#}) else {#})"
proof (cases ev)
  case (Received q a)
  then show ?thesis by (simp add: owed_def on_datagram_def)
next
  case (TaskAnswered n r)
  then show ?thesis using owed_answered by simp
qed (simp_all add: owed_def)

lemma served_owed: "owed (served events) \<subseteq># mset (asked_from events)"
proof (induction events rule: rev_induct)
  case (snoc ev events)
  show ?case using owed_step[of ev "served events"] snoc
    by (cases ev) (auto simp: served_snoc asked_from_snoc served_up intro: subset_mset.order_trans split: if_splits)
qed (simp add: served_Nil owed_def serving_start_def)

lemma served_counted: "sv_started (served events) + sv_turned_away (served events) = length (asked_from events)"
proof (induction events rule: rev_induct)
  case (snoc ev events)
  then show ?case by (cases ev) (simp_all add: served_snoc asked_from_snoc served_up on_datagram_def)
qed (simp add: served_Nil serving_start_def)

section \<open>Properties\<close>

text \<open>C28. Whatever the order of datagrams, connections, queries, answers, failures and departures, the work in
  flight over the two transports together is within \<open>MAX_IN_FLIGHT\<close>; and no datagram is lost track of: the
  ones received while the loops run are those turned away for want of a permit, those still being
  answered, those answered, and those the resolver had no answer for.\<close>

theorem serving_bounded:
  "in_flight (served events) \<le> MAX_IN_FLIGHT \<and>
   length (asked_from events) = sv_turned_away (served events) + length (sv_tasks (served events)) +
     length (sv_sent (served events)) + sv_unanswered (served events)"
  using served_ok[of events] served_counted[of events] by (simp add: serving_ok_def)

text \<open>Nobody is sent more replies than they asked questions: the addresses replies have gone to and will go
  to are, counted with their repetitions, among the addresses datagrams came from.\<close>

theorem replies_to_askers_only:
  "mset (map ut_from (sv_tasks (served events))) + mset (map fst (sv_sent (served events)))
     \<subseteq># mset (asked_from events)"
  using served_owed[of events] by (simp add: owed_def)

text \<open>The two loops are up exactly as long as no accept has failed. A failed receive changes nothing, but
  after one failed accept neither a datagram nor a connection is taken again.\<close>

theorem failed_accept_ends_serving:
  "sv_up (served events) = (AcceptFailed \<notin> set events) \<and>
   served (events @ [NotReceived]) = served events \<and>
   served (events @ [AcceptFailed, Received query a]) = served (events @ [AcceptFailed]) \<and>
   served (events @ [AcceptFailed, Accepted]) = served (events @ [AcceptFailed])"
  by (simp add: served_up) (simp add: served_def)

end
