(* ===== verification/Enrolment.thy ===== *)
theory Enrolment
  imports Masqr_Prelude
begin

text \<open>
  The registered device over time, \<open>src/warp/enrolment.rs\<close>: loading or registering one, replacing it
  when the endpoint refuses it, and what is taken for such a refusal. Registering with the service and
  writing the file are parameters; what the two have come to, the devices that exist at the service and
  the device on disk, is part of the state so that it can be spoken of.
\<close>

definition MIN_INTERVAL :: duration where "MIN_INTERVAL = from_secs 600"

datatype ('io, 'api) enrolment_error = IdentityFailed 'io | RegisterFailed 'api

datatype refused = TooSoon

record 'id enrolment =
  em_current :: 'id
  em_last :: "instant option"
  em_file :: "'id option"
  em_devices :: "'id list"

text \<open>What is on disk, or why it could not be read; the flag says that a device was registered.\<close>

definition load_or_register :: "'io + 'id option \<Rightarrow> 'api + 'id \<Rightarrow> ('id \<Rightarrow> 'io option) \<Rightarrow>
    ('io, 'api) enrolment_error + 'id enrolment \<times> bool" where
  "load_or_register loaded registering save =
     (case loaded of
        Inl e \<Rightarrow> Inl (IdentityFailed e)
      | Inr (Some identity) \<Rightarrow>
          Inr (\<lparr>em_current = identity, em_last = None, em_file = Some identity, em_devices = [identity]\<rparr>, False)
      | Inr None \<Rightarrow>
          (case registering of
             Inl e \<Rightarrow> Inl (RegisterFailed e)
           | Inr identity \<Rightarrow>
               (case save identity of
                  Some e \<Rightarrow> Inl (IdentityFailed e)
                | None \<Rightarrow>
                    Inr (\<lparr>em_current = identity, em_last = None, em_file = Some identity,
                      em_devices = [identity]\<rparr>, True))))"

definition refresh :: "'api + 'id \<Rightarrow> ('id \<Rightarrow> 'io option) \<Rightarrow> instant \<Rightarrow> 'id enrolment \<Rightarrow>
    (('io, 'api) enrolment_error + refused + 'id) \<times> 'id enrolment" where
  "refresh registering save now em =
     (if (case em_last em of Some prev \<Rightarrow> now - prev < MIN_INTERVAL | None \<Rightarrow> False) then (Inr (Inl TooSoon), em)
      else
        (case registering of
           Inl e \<Rightarrow> (Inl (RegisterFailed e), em)
         | Inr identity \<Rightarrow>
             let em = em\<lparr>em_devices := em_devices em @ [identity]\<rparr> in
             (case save identity of
                Some e \<Rightarrow> (Inl (IdentityFailed e), em)
              | None \<Rightarrow>
                  (Inr (Inr identity),
                   em\<lparr>em_file := Some identity, em_current := identity, em_last := Some now\<rparr>))))"

text \<open>A client error, of the statuses from 400 to 499.\<close>

definition refusal_is_about_the_device :: "u16 \<Rightarrow> bool" where
  "refusal_is_about_the_device status \<longleftrightarrow> 400 \<le> status \<and> status < 500"

section \<open>The properties\<close>

text \<open>The refreshes a core asks for: when, what the service answered and whether the file was written.\<close>

type_synonym ('io, 'api, 'id) attempt = "instant \<times> ('api + 'id) \<times> ('id \<Rightarrow> 'io option)"

fun refreshes :: "('io, 'api, 'id) attempt list \<Rightarrow> 'id enrolment \<Rightarrow> (instant \<times> 'id) list \<times> 'id enrolment" where
  "refreshes [] em = ([], em)"
| "refreshes ((now, registering, save) # rest) em =
     (case refresh registering save now em of
        (r, em) \<Rightarrow>
          (case refreshes rest em of
             (adopted, em) \<Rightarrow> ((case r of Inr (Inr identity) \<Rightarrow> (now, identity) # adopted | _ \<Rightarrow> adopted), em)))"

lemma refreshes_spaced:
  assumes "refreshes attempts em = (adopted, em')" "sorted (map fst attempts)"
    and "em_file em = Some (em_current em)"
    and "case em_last em of Some prev \<Rightarrow> \<forall>t\<in>fst ` set attempts. prev \<le> t | None \<Rightarrow> True"
  shows "(case em_last em of Some prev \<Rightarrow> sorted_wrt (\<lambda>a b. a + MIN_INTERVAL \<le> b) (prev # map fst adopted)
      | None \<Rightarrow> sorted_wrt (\<lambda>a b. a + MIN_INTERVAL \<le> b) (map fst adopted)) \<and>
    em_file em' = Some (em_current em') \<and>
    em_current em' = (if adopted = [] then em_current em else snd (last adopted))"
  using assms
proof (induction attempts arbitrary: em adopted)
  case (Cons a attempts)
  obtain now registering save where a: "a = (now, registering, save)" by (metis prod_cases3)
  obtain r em1 where r: "refresh registering save now em = (r, em1)" by fastforce
  obtain adopted1 where m: "refreshes attempts em1 = (adopted1, em')" using Cons.prems(1) a r
    by (auto split: prod.splits)
  have srt: "sorted (map fst attempts)" "\<forall>t\<in>fst ` set attempts. now \<le> t"
    using Cons.prems(2) a by (auto simp: image_iff)
  show ?case
  proof (cases "\<exists>identity. r = Inr (Inr identity)")
    case True
    then obtain identity where i: "r = Inr (Inr identity)" by blast
    then have e1: "em_current em1 = identity" "em_last em1 = Some now" "em_file em1 = Some identity"
      "case em_last em of Some prev \<Rightarrow> prev + MIN_INTERVAL \<le> now \<or> now < prev | None \<Rightarrow> True"
      using r by (auto simp: refresh_def Let_def split: if_splits sum.splits option.splits)
    have late: "em_last em = Some prev \<Longrightarrow> prev + MIN_INTERVAL \<le> now" for prev
      using e1(4) Cons.prems(4) a by auto
    note ih = Cons.IH[OF m srt(1)]
    show ?thesis using ih e1(1-3) srt(2) Cons.prems(1) a r m i
      by (auto split: option.splits dest!: late) (fastforce dest: late)+
  next
    case False
    then have "em_current em1 = em_current em" "em_last em1 = em_last em" "em_file em1 = em_file em"
      using r by (auto simp: refresh_def Let_def split: if_splits sum.splits option.splits)
    moreover have "adopted = adopted1" using False Cons.prems(1) a r m by (auto split: sum.splits)
    ultimately show ?thesis using Cons.IH[OF m srt(1)] Cons.prems(3,4) a by (auto split: option.splits)
  qed
qed (auto split: option.splits)

text \<open>However often the endpoint refuses, one device replaces another no sooner than ten minutes after the
  one before did, and the device presented is always the one on disk: the last adopted, or the one
  loaded when none was.\<close>

theorem devices_replaced_apart:
  assumes "load_or_register loaded registering save = Inr (em, registered)"
    and "refreshes attempts em = (adopted, em')" "sorted (map fst attempts)"
  shows "sorted_wrt (\<lambda>a b. a + MIN_INTERVAL \<le> b) (map fst adopted) \<and>
    em_file em' = Some (em_current em') \<and>
    em_current em' = (if adopted = [] then em_current em else snd (last adopted))"
proof -
  have "em_last em = None" "em_file em = Some (em_current em)"
    using assms(1) by (auto simp: load_or_register_def split: sum.splits option.splits)
  then show ?thesis using refreshes_spaced[OF assms(2,3)] by simp
qed

definition sample_device :: "string enrolment" where
  "sample_device = \<lparr>em_current = ''a'', em_last = None, em_file = Some ''a'', em_devices = [''a'']\<rparr>"

definition sample_attempts :: "(unit, unit, string) attempt list" where
  "sample_attempts = [(5, Inr ''b'', \<lambda>_. None), (6, Inr ''c'', \<lambda>_. None), (5 + MIN_INTERVAL, Inr ''d'', \<lambda>_. None)]"

theorem devices_replaced_apart_witness:
  "em_current (snd (refreshes sample_attempts sample_device)) = ''d'' \<and>
    map fst (fst (refreshes sample_attempts sample_device)) = [5, 5 + MIN_INTERVAL]"
proof -
  have l: "load_or_register (Inr (Some ''a'') :: unit + string option) (Inl () :: unit + string) (\<lambda>_. None) =
      Inr (sample_device, False)"
    by (simp add: load_or_register_def sample_device_def)
  obtain em' where r: "refreshes sample_attempts sample_device = ([(5, ''b''), (5 + MIN_INTERVAL, ''d'')], em')"
    by (simp add: refresh_def Let_def MIN_INTERVAL_def from_secs_def sample_attempts_def sample_device_def)
  have "sorted (map fst sample_attempts)" by (simp add: sample_attempts_def MIN_INTERVAL_def from_secs_def)
  from devices_replaced_apart[OF l r this] show ?thesis unfolding r by simp
qed

text \<open>The interval is kept between adoptions, not between registrations. A device the service registered
  and the disk refused leaves no trace of its time: the next refusal registers another, at once, and
  none of them is ever presented.\<close>

theorem unsaved_devices_pile_up:
  fixes attempts :: "('io, 'api, 'id) attempt list"
  assumes "list_all (\<lambda>(t, registering, save). t = now \<and> (\<exists>d. registering = Inr d \<and> save d \<noteq> None)) attempts"
    and "em_last em = None"
  shows "length (em_devices (snd (refreshes attempts em))) = length (em_devices em) + length attempts \<and>
    em_current (snd (refreshes attempts em)) = em_current em"
  using assms
proof (induction attempts arbitrary: em)
  case (Cons a attempts)
  then obtain d save where a: "a = (now, Inr d, save)" "save d \<noteq> None" by auto
  then obtain e where e: "save d = Some e" by auto
  have "refresh (Inr d :: 'api + 'id) save now em = (Inl (IdentityFailed e), em\<lparr>em_devices := em_devices em @ [d]\<rparr>)"
    using Cons.prems(2) e by (simp add: refresh_def)
  then show ?case using Cons.IH[of "em\<lparr>em_devices := em_devices em @ [d]\<rparr>"] Cons.prems a(1)
    by (simp add: case_prod_unfold)
qed simp

definition sample_burst :: "(unit, unit, string) attempt list" where
  "sample_burst = [(5, Inr ''b'', \<lambda>_. Some ()), (5, Inr ''c'', \<lambda>_. Some ())]"

theorem unsaved_devices_pile_up_witness:
  "length (em_devices (snd (refreshes sample_burst sample_device))) = 1 + 2"
proof -
  have "list_all (\<lambda>(t, registering, save). t = 5 \<and> (\<exists>d. registering = Inr d \<and> save d \<noteq> None)) sample_burst"
    "em_last sample_device = None" by (simp_all add: sample_burst_def sample_device_def)
  from unsaved_devices_pile_up[OF this] show ?thesis by (simp add: sample_burst_def sample_device_def)
qed

end
