(* ===== verification/Engine.thy ===== *)
theory Engine
  imports Core_State Queue_Properties Connect_Ip Enrolment
begin

text \<open>
  The engine, \<open>src/engine.rs\<close>: the pump that carries packets while a tunnel is up and the loop that
  replaces a tunnel that stopped. The futures of \<open>pump\<close> are polled one at a time on one task, so a run
  of the pump is a sequence of events, each what one future does between two waits; what the network,
  the driver and the clock answered comes with the event. A turn of \<open>run\<close> is one tunnel, from the
  attempt to open it to the end of the wait for the next. What a problem reads as is a string that comes
  with it.
\<close>

section \<open>Constants\<close>

definition BACKOFF :: "duration list" where
  "BACKOFF = map from_secs [1, 2, 4, 8, 15]"

definition PING_EVERY :: duration where "PING_EVERY = from_secs 5"
definition PING_TIMEOUT :: duration where "PING_TIMEOUT = from_secs 5"
definition SETTLING :: duration where "SETTLING = from_millis 300"
definition CONNECT_TIMEOUT :: duration where "CONNECT_TIMEOUT = from_secs 20"
definition CUT_SHORT_BYTES :: u64 where "CUT_SHORT_BYTES = 256 * 1024"
definition CUT_SHORT_WITHIN :: duration where "CUT_SHORT_WITHIN = from_secs 60"
definition CUT_SHORT_RUN :: nat where "CUT_SHORT_RUN = 3"
definition BATCH :: nat where "BATCH = 32"
definition UPGRADE_EVERY :: duration where "UPGRADE_EVERY = from_secs 30"

definition cut_short_life :: "duration \<Rightarrow> u64 \<Rightarrow> bool" where
  "cut_short_life lived carried \<longleftrightarrow> lived < CUT_SHORT_WITHIN \<and> carried < CUT_SHORT_BYTES"

definition saturating_sub :: "u64 \<Rightarrow> u64 \<Rightarrow> u64" where
  "saturating_sub a b = (if b \<le> a then a - b else 0)"

section \<open>The line to the endpoint\<close>

definition source_moved :: "ip_addr option \<Rightarrow> ip_addr option \<Rightarrow> bool \<times> ip_addr option" where
  "source_moved seen now = (seen \<noteq> now, now)"

record endpoint_line =
  el_ours :: u64
  el_endpoint :: "ip_addr option"
  el_from :: "ip_addr option"

definition endpoint_line_new :: "stack \<Rightarrow> u64 \<Rightarrow> ip_addr option \<Rightarrow> endpoint_line" where
  "endpoint_line_new sk ours endpoint =
     \<lparr>el_ours = ours, el_endpoint = endpoint, el_from = Option.bind endpoint (source_for sk ours)\<rparr>"

definition endpoint_moved :: "stack \<Rightarrow> endpoint_line \<Rightarrow> bool \<times> endpoint_line" where
  "endpoint_moved sk line =
     (case el_endpoint line of
        None \<Rightarrow> (True, line)
      | Some endpoint \<Rightarrow>
          (case source_moved (el_from line) (source_for sk (el_ours line) endpoint) of
             (moved, seen) \<Rightarrow> (moved, line\<lparr>el_from := seen\<rparr>)))"

definition http3_would_be_tried :: "carrier_state \<Rightarrow> handshake_choice \<Rightarrow> instant \<Rightarrow> bool" where
  "http3_would_be_tried st hs now = (plan (carrier_selected st) (handshake_selected hs) (parked now st) = H3ThenH2)"

section \<open>Where a packet goes\<close>

definition destination :: "bytes \<Rightarrow> (unit, ip_addr option) outcome" where
  "destination packet =
     (if version packet = Some 4 \<and> 20 \<le> length packet then
        and_then (slice 16 20 packet) (\<lambda>octet. Ok (Some (V4 (octets octet))))
      else if version packet = Some 6 \<and> 40 \<le> length packet then
        and_then (slice 24 40 packet) (\<lambda>octet. Ok (Some (V6 (octets octet))))
      else Ok None)"

section \<open>What the engine works on\<close>

record 'os world =
  wd_core :: "'os core"
  wd_queue :: inner
  wd_carrier :: carrier_state
  wd_line :: endpoint_line

definition on_core :: "('os core \<Rightarrow> 'os core) \<Rightarrow> 'os world \<Rightarrow> 'os world" where
  "on_core f w = w\<lparr>wd_core := f (wd_core w)\<rparr>"

definition on_carrier :: "(carrier_state \<Rightarrow> carrier_state) \<Rightarrow> 'os world \<Rightarrow> 'os world" where
  "on_carrier f w = w\<lparr>wd_carrier := f (wd_carrier w)\<rparr>"

text \<open>\<open>if endpoint_line.moved() { carrier::unpark() }\<close>.\<close>

definition look_at_line :: "stack \<Rightarrow> 'os world \<Rightarrow> 'os world" where
  "look_at_line sk w =
     (case endpoint_moved sk (wd_line w) of
        (moved, line) \<Rightarrow>
          let w = w\<lparr>wd_line := line\<rparr> in if moved then on_carrier unpark w else w)"

section \<open>The pump\<close>

datatype stopped = Failed string | Upgraded stages

record link_stats =
  lk_rtt :: duration
  lk_cwnd :: u64
  lk_sent :: u64
  lk_lost :: u64
  lk_datagrams :: u64

text \<open>A pump: the batch being sent, whether the endpoint is being asked, whether HTTP/3 is being opened, and
  what QUIC and the core had counted when it started.\<close>

record pump =
  pp_sending :: "bytes list option"
  pp_asking :: bool
  pp_opening :: bool
  pp_baseline :: "(u64 \<times> u64) option"

datatype received = Packet bytes "string option" | ReadFailed string | EndpointClosed

datatype answered = RoundTrip duration "link_stats option" | ProbeFailed string | NoAnswer

datatype tried = H3Opened stages | H3Failed string

datatype pump_event =
    Delivered instant bytes       \<comment> \<open>the reader's thread: the driver handed over a packet\<close>
  | ReaderLeft                    \<comment> \<open>the reader's thread: the driver ended\<close>
  | Took instant                  \<comment> \<open>\<open>outward\<close>: the queue is looked at\<close>
  | Sent "string option"          \<comment> \<open>\<open>outward\<close>: \<open>send\<close> returned\<close>
  | Received received             \<comment> \<open>\<open>inward\<close>: \<open>recv\<close> returned, and the write to the adapter\<close>
  | Interval                      \<comment> \<open>\<open>answering\<close>: the interval came round\<close>
  | LineMoved stack               \<comment> \<open>\<open>answering\<close>: an interface changed\<close>
  | Answered answered             \<comment> \<open>\<open>answering\<close>: the probe returned or its time ran out\<close>
  | Asked                         \<comment> \<open>\<open>asked\<close>: a reconnect was asked for\<close>
  | Looked instant                \<comment> \<open>\<open>upgrading\<close>: the interval came round\<close>
  | Opened instant tried          \<comment> \<open>\<open>upgrading\<close>: \<open>connect_h3\<close> returned or its time ran out\<close>

definition record_out :: "instant \<Rightarrow> bytes \<Rightarrow> 'os core \<Rightarrow> (unit, 'os core) outcome" where
  "record_out now packet c =
     (let c = c\<lparr>co_out := counter_record (length packet) (co_out c)\<rparr> in
      and_then (destination packet) (\<lambda>to.
        Ok (case to of Some address \<Rightarrow> c\<lparr>co_leases := lease_touch address now (co_leases c)\<rparr> | None \<Rightarrow> c)))"

fun record_batch :: "instant \<Rightarrow> bytes list \<Rightarrow> 'os core \<Rightarrow> (unit, 'os core) outcome" where
  "record_batch now [] c = Ok c"
| "record_batch now (p # ps) c = and_then (record_out now p c) (record_batch now ps)"

definition outward_took :: "instant \<Rightarrow> pump \<times> 'os world \<Rightarrow> (unit, stopped option \<times> pump \<times> 'os world) outcome" where
  "outward_took now = (\<lambda>(pp, w).
     and_then (pop_batch BATCH now (wd_queue w)) (\<lambda>(popped, q).
     let w = w\<lparr>wd_queue := q\<rparr> in
     (case popped of
        None \<Rightarrow> Ok (None, pp, w)
      | Some (False, _) \<Rightarrow> Ok (Some (Failed ''the adapter stopped delivering packets''), pp, on_core core_stop w)
      | Some (True, batch) \<Rightarrow>
          and_then (record_batch now batch (wd_core w)) (\<lambda>c.
            Ok (None, pp\<lparr>pp_sending := Some batch\<rparr>, w\<lparr>wd_core := c\<rparr>)))))"

definition inward :: "received \<Rightarrow> 'os world \<Rightarrow> stopped option \<times> 'os world" where
  "inward r w =
     (case r of
        ReadFailed e \<Rightarrow> (Some (Failed (''reading from the tunnel: '' @ e)), w)
      | EndpointClosed \<Rightarrow> (Some (Failed ''the endpoint closed the tunnel''), w)
      | Packet packet written \<Rightarrow>
          let w = on_core (\<lambda>c. c\<lparr>co_back := counter_record (length packet) (co_back c)\<rparr>) w in
          (case written of
             Some e \<Rightarrow> (Some (Failed (''writing to the adapter: '' @ e)), w)
           | None \<Rightarrow> (None, w)))"

definition take_reading :: "(u64 \<times> u64) option \<Rightarrow> link_stats option \<Rightarrow> 'os core \<Rightarrow> 'os core" where
  "take_reading baseline link c =
     (case (baseline, link) of
        (Some (datagrams, read_before), Some st) \<Rightarrow>
          set_path (Some \<lparr>pr_rtt = lk_rtt st, pr_cwnd = lk_cwnd st, pr_sent = lk_sent st, pr_lost = lk_lost st,
            pr_datagrams = saturating_sub (lk_datagrams st) datagrams,
            pr_read = saturating_sub (fst (counter_read (co_back c))) read_before\<rparr>) c
      | _ \<Rightarrow> c)"

definition answering :: "answered \<Rightarrow> pump \<times> 'os world \<Rightarrow> stopped option \<times> pump \<times> 'os world" where
  "answering a = (\<lambda>(pp, w).
     (case a of
        RoundTrip rtt link \<Rightarrow>
          (None, pp\<lparr>pp_asking := False\<rparr>,
           on_core (take_reading (pp_baseline pp) link) (w\<lparr>wd_queue := observe_rtt rtt (wd_queue w)\<rparr>))
      | ProbeFailed e \<Rightarrow> (Some (Failed (''the endpoint stopped answering: '' @ e)), pp, w)
      | NoAnswer \<Rightarrow> (Some (Failed ''the endpoint did not answer within 5 s''), pp, w)))"

text \<open>One event. An event of a future that is waiting for something else does not happen, and a push that
  does not return (\<open>enqueue\<close> of \<open>Packet_Queue\<close>) has not happened yet.\<close>

fun pump_step :: "carrier \<Rightarrow> handshake_choice \<Rightarrow> pump_event \<Rightarrow> pump \<times> 'os world \<Rightarrow>
    (unit, stopped option \<times> pump \<times> 'os world) outcome" where
  "pump_step carrying hs (Delivered now packet) (pp, w) =
     (case push packet now (wd_queue w) of
        Some r \<Rightarrow> and_then r (\<lambda>(_, q). Ok (None, pp, w\<lparr>wd_queue := q\<rparr>))
      | None \<Rightarrow> Ok (None, pp, w))"
| "pump_step carrying hs ReaderLeft (pp, w) = Ok (None, pp, w\<lparr>wd_queue := close (wd_queue w)\<rparr>)"
| "pump_step carrying hs (Took now) (pp, w) =
     (if pp_sending pp \<noteq> None then Ok (None, pp, w) else outward_took now (pp, w))"
| "pump_step carrying hs (Sent r) (pp, w) =
     Ok (if pp_sending pp = None then (None, pp, w)
         else (case r of
             Some e \<Rightarrow> (Some (Failed (''sending into the tunnel: '' @ e)), pp, w)
           | None \<Rightarrow> (None, pp\<lparr>pp_sending := None\<rparr>, w)))"
| "pump_step carrying hs (Received r) (pp, w) = Ok (case inward r w of (st, w) \<Rightarrow> (st, pp, w))"
| "pump_step carrying hs Interval (pp, w) = Ok (None, pp\<lparr>pp_asking := True\<rparr>, w)"
| "pump_step carrying hs (LineMoved sk) (pp, w) =
     Ok (if pp_asking pp then (None, pp, w) else (None, pp\<lparr>pp_asking := True\<rparr>, look_at_line sk w))"
| "pump_step carrying hs (Answered a) (pp, w) = Ok (if pp_asking pp then answering a (pp, w) else (None, pp, w))"
| "pump_step carrying hs Asked (pp, w) = Ok (Some (Failed ''a reconnect was asked for''), pp, on_carrier unpark w)"
| "pump_step carrying hs (Looked now) (pp, w) =
     Ok (None,
         (if carrying = H2 \<and> \<not> pp_opening pp \<and> http3_would_be_tried (wd_carrier w) hs now
          then pp\<lparr>pp_opening := True\<rparr> else pp), w)"
| "pump_step carrying hs (Opened now tried) (pp, w) =
     Ok (if \<not> pp_opening pp then (None, pp, w)
         else (case tried of
             H3Opened stages \<Rightarrow> (Some (Upgraded stages), pp, w)
           | H3Failed _ \<Rightarrow> (None, pp\<lparr>pp_opening := False\<rparr>, on_carrier (park now) w)))"

fun pump_run :: "carrier \<Rightarrow> handshake_choice \<Rightarrow> pump_event list \<Rightarrow> pump \<times> 'os world \<Rightarrow>
    (unit, stopped option \<times> pump \<times> 'os world) outcome" where
  "pump_run carrying hs [] (pp, w) = Ok (None, pp, w)"
| "pump_run carrying hs (e # es) (pp, w) =
     and_then (pump_step carrying hs e (pp, w)) (\<lambda>(st, pp, w).
       (case st of Some why \<Rightarrow> Ok (Some why, pp, w) | None \<Rightarrow> pump_run carrying hs es (pp, w)))"

definition pump_new :: "link_stats option \<Rightarrow> 'os core \<Rightarrow> pump" where
  "pump_new link c = \<lparr>pp_sending = None, pp_asking = False, pp_opening = False,
     pp_baseline = map_option (\<lambda>st. (lk_datagrams st, fst (counter_read (co_back c)))) link\<rparr>"

section \<open>One tunnel after another\<close>

text \<open>How the attempt went: what opening over each carrier gives, with when HTTP/3's failure would be known;
  or its time ran out, HTTP/3 having failed by then or not.\<close>

datatype ('x, 'st) opening_result =
    Attempt "carrier \<Rightarrow> ('x, 'st) connect_error + stages" instant
  | GaveUp "instant option"

definition open_tunnel :: "handshake_choice \<Rightarrow> instant \<Rightarrow> ('x, 'st) opening_result \<Rightarrow> carrier_state \<Rightarrow>
    (('x, 'st) connect_error + stages) option \<times> carrier_state" where
  "open_tunnel hs now attempted cs =
     (case attempted of
        Attempt over later \<Rightarrow> (case connect over hs now later cs of (r, _, cs) \<Rightarrow> (Some r, cs))
      | GaveUp failed \<Rightarrow>
          (None, (case failed of
             Some later \<Rightarrow> if http3_would_be_tried cs hs now then park later cs else cs
           | None \<Rightarrow> cs)))"

record engine =
  eg_failures :: nat
  eg_cut_short :: nat
  eg_handed :: "stages option"

definition engine_new :: engine where
  "engine_new = \<lparr>eg_failures = 0, eg_cut_short = 0, eg_handed = None\<rparr>"

text \<open>A tunnel came up: the failures are forgotten, IPv6 is measured unless it is known not to be carried
  (\<open>None\<close>: the device has no address of it), and what waited too long is dropped.\<close>

definition tunnel_up :: "(prefix \<Rightarrow> 'os \<Rightarrow> u32 \<times> 'os) \<Rightarrow> (prefix \<Rightarrow> 'os \<Rightarrow> u32 \<times> 'os) \<Rightarrow> stages \<Rightarrow>
    bool option \<Rightarrow> instant \<Rightarrow> 'os world \<Rightarrow> (unit, 'os world) outcome" where
  "tunnel_up create delete stages carries now w =
     (let c = (wd_core w)\<lparr>co_phase := Up stages\<rparr>;
          c = (case carries of
             Some answer \<Rightarrow> if should_probe_ipv6 c then set_carries_ipv6 create delete answer c else c
           | None \<Rightarrow> c)
      in and_then (drop_stale now (wd_queue w)) (\<lambda>(_, q). Ok (w\<lparr>wd_core := c, wd_queue := q\<rparr>)))"

text \<open>What the life of a tunnel that failed says: a run of short ones over HTTP/3, or one right after HTTP/2
  carried, parks HTTP/3.\<close>

definition judge_life :: "stages \<Rightarrow> bool \<Rightarrow> duration \<Rightarrow> u64 \<Rightarrow> instant \<Rightarrow> engine \<times> carrier_state \<Rightarrow> engine \<times> carrier_state" where
  "judge_life stages upgraded lived carried now = (\<lambda>(eg, cs).
     if cut_short_life lived carried then
       let eg = eg\<lparr>eg_cut_short := eg_cut_short eg + 1\<rparr>;
         evidence = (CUT_SHORT_RUN \<le> eg_cut_short eg \<or> upgraded)
       in (eg, if evidence \<and> stages_carrier stages = H3 then park now cs else cs)
     else (eg\<lparr>eg_cut_short := 0\<rparr>, cs))"

text \<open>The endpoint refused this device: a new one stops the core, so that the next start uses it.\<close>

definition replace_device :: "('io, 'api) enrolment_error + refused + 'id \<Rightarrow> 'os core \<Rightarrow> 'os core" where
  "replace_device refreshed c =
     (case refreshed of
        Inr (Inr _) \<Rightarrow> core_stop c
      | Inr (Inl _) \<Rightarrow> c
      | Inl _ \<Rightarrow> c)"

definition backoff_wait :: "nat \<Rightarrow> (unit, duration) outcome" where
  "backoff_wait failures = index BACKOFF (min failures (length BACKOFF - 1))"

definition tunnel_lost :: "string \<Rightarrow> bool \<Rightarrow> engine \<times> 'os world \<Rightarrow> (unit, engine \<times> 'os world) outcome" where
  "tunnel_lost reason blocked = (\<lambda>(eg, w).
     and_then (backoff_wait (eg_failures eg)) (\<lambda>retry.
       Ok (eg\<lparr>eg_failures := eg_failures eg + 1\<rparr>,
           on_core (\<lambda>c. c\<lparr>co_phase := Lost reason retry blocked\<rparr>) w)))"

datatype woken = Slept | WokenAsked | WokenLine stack

definition wait_over :: "woken \<Rightarrow> 'os world \<Rightarrow> 'os world" where
  "wait_over how w =
     (case how of Slept \<Rightarrow> w | WokenAsked \<Rightarrow> on_carrier unpark w | WokenLine sk \<Rightarrow> look_at_line sk w)"

text \<open>What the outside answers in one turn.\<close>

record ('x, 'st, 'io, 'api, 'id) turn =
  tu_started :: instant
  tu_opening :: "('x, 'st) opening_result"
  tu_carries_ipv6 :: "bool option"
  tu_opened :: instant
  tu_stale_at :: instant
  tu_link :: "link_stats option"
  tu_events :: "pump_event list"
  tu_ended :: instant
  tu_shown :: "('x, 'st) connect_error \<Rightarrow> string"
  tu_code :: "'st \<Rightarrow> u16"
  tu_refreshed :: "('io, 'api) enrolment_error + refused + 'id"
  tu_woken :: woken

text \<open>A tunnel that is up, to the end of its pump; \<open>None\<close> while the pump has not stopped. The reason it
  failed for is passed on to the wait; a tunnel handed over has none.\<close>

definition carry_on :: "(prefix \<Rightarrow> 'os \<Rightarrow> u32 \<times> 'os) \<Rightarrow> (prefix \<Rightarrow> 'os \<Rightarrow> u32 \<times> 'os) \<Rightarrow> handshake_choice \<Rightarrow>
    ('x, 'st, 'io, 'api, 'id) turn \<Rightarrow> stages \<Rightarrow> bool \<Rightarrow> engine \<times> 'os world \<Rightarrow>
    (unit, (string option \<times> engine \<times> 'os world) option) outcome" where
  "carry_on create delete hs tu stages upgraded = (\<lambda>(eg, w).
     let eg = eg\<lparr>eg_failures := 0\<rparr>;
       carried_before = snd (counter_read (co_back (wd_core w)))
     in
     and_then (tunnel_up create delete stages (tu_carries_ipv6 tu) (tu_stale_at tu) w) (\<lambda>w.
     and_then (pump_run (stages_carrier stages) hs (tu_events tu) (pump_new (tu_link tu) (wd_core w), w)) (\<lambda>(why, _, w).
     let w = on_core (set_path None) w in
     (case why of
        None \<Rightarrow> Ok None
      | Some (Upgraded next_stages) \<Rightarrow> Ok (Some (None, eg\<lparr>eg_handed := Some next_stages\<rparr>, w))
      | Some (Failed reason) \<Rightarrow>
          let carried = saturating_sub (snd (counter_read (co_back (wd_core w)))) carried_before in
          (case judge_life stages upgraded (tu_ended tu - tu_opened tu) carried (tu_ended tu) (eg, wd_carrier w) of
             (eg, cs) \<Rightarrow> Ok (Some (Some reason, eg, w\<lparr>wd_carrier := cs\<rparr>)))))))"

definition engine_turn :: "(prefix \<Rightarrow> 'os \<Rightarrow> u32 \<times> 'os) \<Rightarrow> (prefix \<Rightarrow> 'os \<Rightarrow> u32 \<times> 'os) \<Rightarrow> handshake_choice \<Rightarrow>
    ('x, 'st, 'io, 'api, 'id) turn \<Rightarrow> engine \<times> 'os world \<Rightarrow> (unit, (engine \<times> 'os world) option) outcome" where
  "engine_turn create delete hs tu = (\<lambda>(eg, w).
     (case eg_handed eg of
        Some stages \<Rightarrow>
          and_then (carry_on create delete hs tu stages True (eg\<lparr>eg_handed := None\<rparr>, w)) (\<lambda>r.
          (case r of
             None \<Rightarrow> Ok None
           | Some (None, eg, w) \<Rightarrow> Ok (Some (eg, w))
           | Some (Some reason, eg, w) \<Rightarrow>
               and_then (tunnel_lost reason False (eg, w)) (\<lambda>(eg, w). Ok (Some (eg, wait_over (tu_woken tu) w)))))
      | None \<Rightarrow>
          let w = on_core (\<lambda>c. c\<lparr>co_phase := Connecting (eg_failures eg + 1)\<rparr>) w in
          (case open_tunnel hs (tu_started tu) (tu_opening tu) (wd_carrier w) of
             (opened, cs) \<Rightarrow>
               let w = w\<lparr>wd_carrier := cs\<rparr> in
               (case opened of
                  Some (Inr stages) \<Rightarrow>
                    and_then (carry_on create delete hs tu stages False (eg, w)) (\<lambda>r.
                    (case r of
                       None \<Rightarrow> Ok None
                     | Some (None, eg, w) \<Rightarrow> Ok (Some (eg, w))
                     | Some (Some reason, eg, w) \<Rightarrow>
                         and_then (tunnel_lost reason False (eg, w)) (\<lambda>(eg, w).
                           Ok (Some (eg, wait_over (tu_woken tu) w)))))
                | Some (Inl problem) \<Rightarrow>
                    let w = (case problem of
                        Refused status \<Rightarrow>
                          if refusal_is_about_the_device (tu_code tu status)
                          then on_core (replace_device (tu_refreshed tu)) w else w
                      | _ \<Rightarrow> w)
                    in and_then (tunnel_lost (tu_shown tu problem) (is_blocked problem) (eg, w)) (\<lambda>(eg, w).
                         Ok (Some (eg, wait_over (tu_woken tu) w)))
                | None \<Rightarrow>
                    and_then (tunnel_lost ''the tunnel did not open within 20 s'' False (eg, w)) (\<lambda>(eg, w).
                      Ok (Some (eg, wait_over (tu_woken tu) w)))))))"

end
