(* ===== verification/Engine_Correct.thy ===== *)
theory Engine_Correct
  imports Engine
begin

text \<open>
  What the engine keeps: when a tunnel that went silent is found out, what the pump counts and renews, that
  a turn moves no route, and what a supervisor is told.
\<close>

section \<open>Asking whether the endpoint answers, with the time it takes\<close>

text \<open>Rounds of \<open>answering\<close> from \<open>t\<close> on: how long the wait had lasted when a line change ended it
  (\<open>None\<close>: it lasted the interval), and after how long the probe was answered, if it was. The result is
  when the pump stops for want of an answer.\<close>

fun unanswered_at :: "instant \<Rightarrow> (duration option \<times> duration option) list \<Rightarrow> instant option" where
  "unanswered_at t [] = None"
| "unanswered_at t ((moved, answer) # rounds) =
     (let asked = t + (case moved of Some waited \<Rightarrow> min waited PING_EVERY + SETTLING | None \<Rightarrow> PING_EVERY) in
      (case answer of
         Some d \<Rightarrow> if d < PING_TIMEOUT then unanswered_at (asked + d) rounds else Some (asked + PING_TIMEOUT)
       | None \<Rightarrow> Some (asked + PING_TIMEOUT)))"

text \<open>No answer comes after \<open>silent\<close>.\<close>

fun silent_after :: "instant \<Rightarrow> instant \<Rightarrow> (duration option \<times> duration option) list \<Rightarrow> bool" where
  "silent_after silent t [] = True"
| "silent_after silent t ((moved, answer) # rounds) =
     (let asked = t + (case moved of Some waited \<Rightarrow> min waited PING_EVERY + SETTLING | None \<Rightarrow> PING_EVERY) in
      (case answer of
         Some d \<Rightarrow> d < PING_TIMEOUT \<longrightarrow> asked + d \<le> silent \<and> silent_after silent (asked + d) rounds
       | None \<Rightarrow> True))"

lemma unanswered_bounded:
  assumes "silent_after silent t rounds" "unanswered_at t rounds = Some e"
  shows "e \<le> max t silent + PING_EVERY + SETTLING + PING_TIMEOUT"
  using assms
proof (induction silent t rounds rule: silent_after.induct)
  case (2 silent t moved answer rounds)
  define asked where "asked = t + (case moved of Some waited \<Rightarrow> min waited PING_EVERY + SETTLING | None \<Rightarrow> PING_EVERY)"
  have a: "asked \<le> t + PING_EVERY + SETTLING" by (auto simp: asked_def split: option.split)
  show ?case
  proof (cases "\<exists>d. answer = Some d \<and> d < PING_TIMEOUT")
    case True
    then obtain d where d: "answer = Some d" "d < PING_TIMEOUT" by blast
    have "silent_after silent (asked + d) rounds" "unanswered_at (asked + d) rounds = Some e" "asked + d \<le> silent"
      using 2(2,3) d by (simp_all add: Let_def asked_def)
    with 2(1)[OF asked_def d] have "e \<le> max (asked + d) silent + PING_EVERY + SETTLING + PING_TIMEOUT"
      by (simp add: asked_def)
    then show ?thesis using \<open>asked + d \<le> silent\<close> by simp
  next
    case False
    then have "e = asked + PING_TIMEOUT" using 2(3) by (auto simp: Let_def asked_def split: option.splits if_splits)
    then show ?thesis using a by simp
  qed
qed simp

lemma unanswered_comes:
  assumes "silent_after silent t rounds" "t \<le> silent" "silent < t + length rounds * SETTLING"
  shows "unanswered_at t rounds \<noteq> None"
  using assms
proof (induction silent t rounds rule: silent_after.induct)
  case (2 silent t moved answer rounds)
  define asked where "asked = t + (case moved of Some waited \<Rightarrow> min waited PING_EVERY + SETTLING | None \<Rightarrow> PING_EVERY)"
  have a: "t + SETTLING \<le> asked"
    by (auto simp: asked_def SETTLING_def PING_EVERY_def from_millis_def from_secs_def split: option.split)
  show ?case
  proof (cases "\<exists>d. answer = Some d \<and> d < PING_TIMEOUT")
    case True
    then obtain d where d: "answer = Some d" "d < PING_TIMEOUT" by blast
    have "silent_after silent (asked + d) rounds" "asked + d \<le> silent" using 2(2) d by (simp_all add: Let_def asked_def)
    moreover have "silent < (asked + d) + length rounds * SETTLING" using 2(4) a by simp
    ultimately have "unanswered_at (asked + d) rounds \<noteq> None"
      using 2(1)[OF asked_def d] by (simp add: asked_def)
    then show ?thesis using d by (simp add: Let_def asked_def)
  next
    case False
    then show ?thesis by (auto simp: Let_def split: option.splits)
  qed
qed simp

section \<open>Carrying packets\<close>

lemma destination_total: "\<exists>to. destination p = Ok to"
  by (simp add: destination_def slice_Ok)

text \<open>A batch taken from the queue is counted packet by packet, and the lease of every destination in it
  is renewed.\<close>

definition renewed :: "instant \<Rightarrow> 'os core \<Rightarrow> bytes \<Rightarrow> bool" where
  "renewed now c p \<longleftrightarrow> (\<forall>a l. destination p = Ok (Some a) \<and> lease_of (co_leases c) a = Some l \<longrightarrow>
     lease_millis (co_leases c) now + as_millis MIN_LEASE \<le> ls_expires l)"

lemma touch_base [simp]: "ls_base (lease_touch a now t) = ls_base t"
  by (simp add: lease_touch_def split: option.split)

lemma lease_millis_touch [simp]: "lease_millis (lease_touch a now t) now' = lease_millis t now'"
  by (simp add: lease_millis_def)

lemma record_out_eq:
  "\<exists>leases. record_out now p c = Ok (c\<lparr>co_out := counter_record (length p) (co_out c), co_leases := leases\<rparr>) \<and>
     set (lease_addresses leases) = set (lease_addresses (co_leases c)) \<and>
     renewed now (c\<lparr>co_out := counter_record (length p) (co_out c), co_leases := leases\<rparr>) p \<and>
     (\<forall>q. renewed now c q \<longrightarrow>
        renewed now (c\<lparr>co_out := counter_record (length p) (co_out c), co_leases := leases\<rparr>) q)"
proof -
  obtain to where d: "destination p = Ok to" using destination_total by blast
  show ?thesis
  proof (cases to)
    case None
    then show ?thesis using d by (simp add: record_out_def renewed_def exI[of _ "co_leases c"])
  next
    case (Some a)
    then show ?thesis using d
      by (intro exI[of _ "lease_touch a now (co_leases c)"]) (auto simp: record_out_def renewed_def lease_touch_of)
  qed
qed

lemma counter_record_add: "counter_record n (counter_record m c) =
    \<lparr>cn_packets = cn_packets c + 2, cn_bytes = cn_bytes c + of_nat (m + n)\<rparr>"
  by (simp add: counter_record_def algebra_simps)

lemma record_batch_eq:
  "\<exists>leases. record_batch now ps c = Ok (c\<lparr>co_out :=
      \<lparr>cn_packets = cn_packets (co_out c) + of_nat (length ps),
       cn_bytes = cn_bytes (co_out c) + of_nat (length (concat ps))\<rparr>, co_leases := leases\<rparr>) \<and>
     set (lease_addresses leases) = set (lease_addresses (co_leases c)) \<and>
     (\<forall>q. (q \<in> set ps \<or> renewed now c q) \<longrightarrow> renewed now (c\<lparr>co_leases := leases\<rparr>) q)"
proof (induction ps arbitrary: c)
  case Nil
  then show ?case by (intro exI[of _ "co_leases c"]) simp
next
  case (Cons p ps)
  let ?out = "counter_record (length p) (co_out c)"
  obtain leases where r: "record_out now p c = Ok (c\<lparr>co_out := ?out, co_leases := leases\<rparr>)"
    "set (lease_addresses leases) = set (lease_addresses (co_leases c))"
    "renewed now (c\<lparr>co_out := ?out, co_leases := leases\<rparr>) p"
    "\<forall>q. renewed now c q \<longrightarrow> renewed now (c\<lparr>co_out := ?out, co_leases := leases\<rparr>) q"
    using record_out_eq[of now p c] by auto
  obtain leases' where ih: "record_batch now ps (c\<lparr>co_out := ?out, co_leases := leases\<rparr>) =
      Ok (c\<lparr>co_out := \<lparr>cn_packets = cn_packets ?out + of_nat (length ps),
        cn_bytes = cn_bytes ?out + of_nat (length (concat ps))\<rparr>, co_leases := leases'\<rparr>)"
    "set (lease_addresses leases') = set (lease_addresses leases)"
    "\<forall>q. q \<in> set ps \<or> renewed now (c\<lparr>co_out := ?out, co_leases := leases\<rparr>) q \<longrightarrow>
       renewed now (c\<lparr>co_out := ?out, co_leases := leases'\<rparr>) q"
    using Cons[of "c\<lparr>co_out := ?out, co_leases := leases\<rparr>"] by auto
  have "renewed now (c\<lparr>co_out := ?out, co_leases := leases'\<rparr>) q = renewed now (c\<lparr>co_leases := leases'\<rparr>) q" for q
    by (simp add: renewed_def)
  then show ?case using r ih by (intro exI[of _ leases']) (auto simp: counter_record_def algebra_simps)
qed

section \<open>What a tunnel leaves alone\<close>

definition unmoved :: "'os core \<Rightarrow> 'os core \<Rightarrow> bool" where
  "unmoved c c' \<longleftrightarrow> co_routes c' = co_routes c \<and> co_table c' = co_table c \<and> co_asked c' = co_asked c \<and>
     co_wants_v6 c' = co_wants_v6 c \<and> co_v6 c' = co_v6 c \<and>
     set (lease_addresses (co_leases c')) = set (lease_addresses (co_leases c))"

lemma unmoved_refl [simp]: "unmoved c c"
  by (simp add: unmoved_def)

lemma unmoved_trans [trans]: "unmoved a b \<Longrightarrow> unmoved b c \<Longrightarrow> unmoved a c"
  by (simp add: unmoved_def)

lemma on_core_simps [simp]:
  "wd_core (on_core f w) = f (wd_core w)" "wd_queue (on_core f w) = wd_queue w"
  "wd_carrier (on_core f w) = wd_carrier w" "wd_line (on_core f w) = wd_line w"
  "wd_core (on_carrier g w) = wd_core w" "wd_queue (on_carrier g w) = wd_queue w"
  by (simp_all add: on_core_def on_carrier_def)

lemma look_at_line_simps [simp]:
  "wd_core (look_at_line sk w) = wd_core w" "wd_queue (look_at_line sk w) = wd_queue w"
  by (simp_all add: look_at_line_def Let_def split: prod.split)

lemma take_reading_simps [simp]:
  "unmoved c (take_reading b l c')  = unmoved c c'" "co_phase (take_reading b l c) = co_phase c"
  "co_stop (take_reading b l c) = co_stop c"
  by (simp_all add: take_reading_def unmoved_def set_path_def split: option.split)

lemma outward_took_unmoved:
  assumes "outward_took now (pp, w) = Ok (st, pp', w')"
  shows "unmoved (wd_core w) (wd_core w') \<and> co_phase (wd_core w') = co_phase (wd_core w)"
proof -
  obtain popped q where q: "pop_batch BATCH now (wd_queue w) = Ok (popped, q)"
    using assms by (cases "pop_batch BATCH now (wd_queue w)") (auto simp: outward_took_def)
  obtain leases where b: "record_batch now (snd (the popped)) (wd_core w) = Ok ((wd_core w)\<lparr>co_out :=
      \<lparr>cn_packets = cn_packets (co_out (wd_core w)) + of_nat (length (snd (the popped))),
       cn_bytes = cn_bytes (co_out (wd_core w)) + of_nat (length (concat (snd (the popped))))\<rparr>, co_leases := leases\<rparr>)"
    "set (lease_addresses leases) = set (lease_addresses (co_leases (wd_core w)))"
    using record_batch_eq[of now "snd (the popped)" "wd_core w"] by blast
  have "(None = popped \<and> wd_core w' = wd_core w) \<or> (\<exists>b. popped = Some (False, b) \<and> wd_core w' = core_stop (wd_core w)) \<or>
      (\<exists>b. popped = Some (True, b) \<and> record_batch now b (wd_core w) = Ok (wd_core w'))"
    using assms q by (auto simp: outward_took_def Let_def and_then_eq_Ok split: option.splits bool.splits prod.splits)
  then show ?thesis using b by (elim disjE exE conjE) (simp_all add: unmoved_def core_stop_def)
qed

lemma pump_step_unmoved:
  assumes "pump_step carrying hs e (pp, w) = Ok (st, pp', w')"
  shows "unmoved (wd_core w) (wd_core w') \<and> co_phase (wd_core w') = co_phase (wd_core w)"
proof (cases e)
  case (Took now)
  then show ?thesis using assms outward_took_unmoved[of now pp w st pp' w'] by (simp split: if_splits)
next
  case (Received r)
  then show ?thesis using assms
    by (cases r) (auto simp: inward_def unmoved_def Let_def split: option.splits prod.splits)
next
  case (Answered a)
  then show ?thesis using assms by (cases a) (auto simp: answering_def split: if_splits)
qed (use assms in \<open>auto simp: and_then_eq_Ok split: if_splits option.splits tried.splits\<close>)

lemma pump_run_unmoved:
  "pump_run carrying hs es (pp, w) = Ok (st, pp', w') \<Longrightarrow>
     unmoved (wd_core w) (wd_core w') \<and> co_phase (wd_core w') = co_phase (wd_core w)"
proof (induction es arbitrary: pp w)
  case (Cons e es)
  obtain st1 pp1 w1 where s: "pump_step carrying hs e (pp, w) = Ok (st1, pp1, w1)"
    using Cons.prems by (cases "pump_step carrying hs e (pp, w)") auto
  show ?case
  proof (cases st1)
    case None
    then show ?thesis using Cons s pump_step_unmoved[OF s] by (auto intro: unmoved_trans)
  next
    case (Some why)
    then show ?thesis using Cons.prems s pump_step_unmoved[OF s] by auto
  qed
qed simp

text \<open>The clock does not run backwards, and what the driver hands over fits the queue.\<close>

definition event_time :: "instant \<Rightarrow> pump_event \<Rightarrow> instant" where
  "event_time before e = (case e of Took now \<Rightarrow> now | Delivered now _ \<Rightarrow> now | _ \<Rightarrow> before)"

definition event_fits :: "pump_event \<Rightarrow> bool" where
  "event_fits e = (case e of Delivered _ packet \<Rightarrow> length packet \<le> LIMIT_BYTES | _ \<Rightarrow> True)"

fun in_time :: "instant \<Rightarrow> pump_event list \<Rightarrow> bool" where
  "in_time before [] \<longleftrightarrow> True"
| "in_time before (e # es) \<longleftrightarrow> before \<le> event_time before e \<and> event_fits e \<and> in_time (event_time before e) es"

definition reached_by :: "instant \<Rightarrow> inner \<Rightarrow> bool" where
  "reached_by now q \<longleftrightarrow> (\<exists>before\<le>now. queue_reach before q)"

lemma reached_by_later: "reached_by before q \<Longrightarrow> before \<le> now \<Longrightarrow> reached_by now q"
  unfolding reached_by_def using order_trans by blast

lemma reached_by_steps:
  assumes "reached_by now q"
  shows "length p \<le> LIMIT_BYTES \<Longrightarrow> push p now q = Some (Ok (taken, q')) \<Longrightarrow> reached_by now q'"
    "pop_batch room now q = Ok (r, q') \<Longrightarrow> reached_by now q'" "drop_stale now q = Ok (n, q') \<Longrightarrow> reached_by now q'"
    "reached_by now (observe_rtt rtt q)" "reached_by now (close q)"
    "\<exists>taken q'. push p now q = Some (Ok (taken, q'))" "\<exists>r q'. pop_batch room now q = Ok (r, q')"
    "\<exists>n q'. drop_stale now q = Ok (n, q')"
proof -
  obtain before where b: "queue_reach before q" "before \<le> now" using assms by (auto simp: reached_by_def)
  show "length p \<le> LIMIT_BYTES \<Longrightarrow> push p now q = Some (Ok (taken, q')) \<Longrightarrow> reached_by now q'"
    "pop_batch room now q = Ok (r, q') \<Longrightarrow> reached_by now q'" "drop_stale now q = Ok (n, q') \<Longrightarrow> reached_by now q'"
    "reached_by now (observe_rtt rtt q)" "reached_by now (close q)"
    using queue_reach.pushed[OF b] queue_reach.popped[OF b] queue_reach.staled[OF b]
      queue_reach.measured[OF b(1)] queue_reach.closed[OF b(1)] b(2)
    unfolding reached_by_def by blast+
  show "\<exists>taken q'. push p now q = Some (Ok (taken, q'))" "\<exists>r q'. pop_batch room now q = Ok (r, q')"
    "\<exists>n q'. drop_stale now q = Ok (n, q')"
    using queue_inv_returns[OF queue_reach_inv[OF b(1)] b(2)] by blast+
qed

lemma outward_took_reach:
  assumes "reached_by now (wd_queue w)"
  shows "\<exists>st pp' w'. outward_took now (pp, w) = Ok (st, pp', w') \<and> reached_by now (wd_queue w')"
proof -
  obtain popped q where q: "pop_batch BATCH now (wd_queue w) = Ok (popped, q)"
    using reached_by_steps(7)[OF assms] by blast
  have "reached_by now q" by (rule reached_by_steps(2)[OF assms q])
  moreover obtain leases where "record_batch now (snd (the popped)) (wd_core w) = Ok ((wd_core w)\<lparr>co_out :=
      \<lparr>cn_packets = cn_packets (co_out (wd_core w)) + of_nat (length (snd (the popped))),
       cn_bytes = cn_bytes (co_out (wd_core w)) + of_nat (length (concat (snd (the popped))))\<rparr>, co_leases := leases\<rparr>)"
    using record_batch_eq[of now "snd (the popped)" "wd_core w"] by blast
  ultimately show ?thesis using q by (cases popped) (auto simp: outward_took_def Let_def split: bool.split)
qed

lemma pump_step_reach:
  assumes "reached_by before (wd_queue w)" "before \<le> event_time before e" "event_fits e"
  shows "\<exists>st pp' w'. pump_step carrying hs e (pp, w) = Ok (st, pp', w') \<and>
    reached_by (event_time before e) (wd_queue w')"
proof -
  note r = reached_by_later[OF assms(1,2)]
  show ?thesis
  proof (cases e)
    case (Delivered now packet)
    obtain taken q where q: "push packet now (wd_queue w) = Some (Ok (taken, q))"
      using reached_by_steps(6)[OF r, of packet] Delivered by (simp add: event_time_def) blast
    have "length packet \<le> LIMIT_BYTES" "event_time before e = now" 
      using assms(3) Delivered by (simp_all add: event_time_def event_fits_def)
    then show ?thesis using Delivered q reached_by_steps(1)[OF r] by simp
  next
    case ReaderLeft
    then show ?thesis using reached_by_steps(5)[OF r] by simp
  next
    case (Took now)
    then show ?thesis using outward_took_reach[of now w pp] r by (simp add: event_time_def)
  next
    case (Answered a)
    then show ?thesis using r reached_by_steps(4)[OF r] by (cases a) (auto simp: answering_def)
  next
    case (Received a)
    then show ?thesis using r by (cases a) (auto simp: inward_def Let_def split: option.split)
  qed (use r in \<open>auto split: option.split tried.split\<close>)
qed

lemma pump_run_reach:
  "reached_by before (wd_queue w) \<Longrightarrow> in_time before es \<Longrightarrow>
    \<exists>st pp' w' now. pump_run carrying hs es (pp, w) = Ok (st, pp', w') \<and> before \<le> now \<and> reached_by now (wd_queue w')"
proof (induction es arbitrary: before pp w)
  case (Cons e es)
  obtain st pp1 w1 where s: "pump_step carrying hs e (pp, w) = Ok (st, pp1, w1)"
    "reached_by (event_time before e) (wd_queue w1)"
    using pump_step_reach[OF Cons.prems(1), of e] Cons.prems(2) by fastforce
  show ?case
  proof (cases st)
    case None
    have "in_time (event_time before e) es" "before \<le> event_time before e" using Cons.prems(2) by simp_all
    then obtain st2 pp2 w2 now where "pump_run carrying hs es (pp1, w1) = Ok (st2, pp2, w2)"
      "event_time before e \<le> now" "reached_by now (wd_queue w2)" using Cons.IH[OF s(2), of pp1] by blast
    then show ?thesis using None s(1) \<open>before \<le> event_time before e\<close>
      by (auto intro: order_trans)
  next
    case (Some why)
    then show ?thesis using s Cons.prems(2) by auto
  qed
qed auto

section \<open>Turns\<close>

lemma backoff_wait_eq: "backoff_wait n = Ok (BACKOFF ! min n 4)"
proof -
  have "length BACKOFF = 5" by (simp add: BACKOFF_def)
  then show ?thesis by (simp add: backoff_wait_def index_Ok)
qed

lemma backoff_listed: "BACKOFF ! min n 4 \<in> set BACKOFF"
  by (rule nth_mem) (simp add: BACKOFF_def)

lemma tunnel_lost_eq:
  "tunnel_lost reason blocked (eg, w) = Ok (eg\<lparr>eg_failures := eg_failures eg + 1\<rparr>,
     on_core (\<lambda>c. c\<lparr>co_phase := Lost reason (BACKOFF ! min (eg_failures eg) 4) blocked\<rparr>) w)"
  by (simp add: tunnel_lost_def backoff_wait_eq)

lemma wait_over_simps [simp]:
  "wd_core (wait_over how w) = wd_core w" "wd_queue (wait_over how w) = wd_queue w"
  by (simp_all add: wait_over_def split: woken.split)

text \<open>What was measured is what was known, or nothing was measured.\<close>

definition as_known :: "bool option \<Rightarrow> 'os core \<Rightarrow> bool" where
  "as_known carries c \<longleftrightarrow> (\<forall>answer. carries = Some answer \<longrightarrow>
     core_ipv6_support c = DoesNot \<or> core_ipv6_support c = (if answer then Carries else DoesNot))"

lemma tunnel_up_eq:
  assumes "tunnel_up create delete stages carries now w = Ok w'"
  shows "co_phase (wd_core w') = Up stages" "wd_carrier w' = wd_carrier w"
    "as_known carries (wd_core w) \<Longrightarrow> unmoved (wd_core w) (wd_core w')"
proof -
  have phase: "co_phase (set_carries_ipv6 create delete answer c) = co_phase c" for answer c
    by (simp add: set_carries_ipv6_def Let_def install_union_def case_prod_unfold)
  show "co_phase (wd_core w') = Up stages" "wd_carrier w' = wd_carrier w"
    using assms by (auto simp: tunnel_up_def Let_def and_then_eq_Ok phase split: option.splits prod.splits)
  assume known: "as_known carries (wd_core w)"
  have "core_ipv6_support ((wd_core w)\<lparr>co_phase := p\<rparr>) = core_ipv6_support (wd_core w)" for p
    by (simp add: core_ipv6_support_def)
  then show "unmoved (wd_core w) (wd_core w')"
    using assms known
    by (auto simp: tunnel_up_def Let_def and_then_eq_Ok unmoved_def as_known_def should_probe_ipv6_def
        set_carries_ipv6_def split: option.splits prod.splits if_splits)
qed

lemma carry_on_ends:
  assumes "carry_on create delete hs tu stages upgraded (eg, w) = Ok (Some (reason, eg', w'))" "eg_handed eg = None"
  shows "co_phase (wd_core w') = Up stages" "eg_failures eg' = 0" "reason = None \<longleftrightarrow> eg_handed eg' \<noteq> None"
    "as_known (tu_carries_ipv6 tu) (wd_core w) \<Longrightarrow> unmoved (wd_core w) (wd_core w')"
proof -
  obtain w1 where u: "tunnel_up create delete stages (tu_carries_ipv6 tu) (tu_stale_at tu) w = Ok w1"
    using assms(1) by (auto simp: carry_on_def Let_def and_then_eq_Ok)
  obtain why pp w2 where p: "pump_run (stages_carrier stages) hs (tu_events tu) (pump_new (tu_link tu) (wd_core w1), w1) =
      Ok (why, pp, w2)"
    using assms(1) u by (auto simp: carry_on_def Let_def and_then_eq_Ok)
  note t = tunnel_up_eq[OF u] and r = pump_run_unmoved[OF p]
  have path: "unmoved c (set_path None c') = unmoved c c'" "co_phase (set_path None c') = co_phase c'" for c c' :: "'a core"
    by (simp_all add: unmoved_def set_path_def)
  show "co_phase (wd_core w') = Up stages" "eg_failures eg' = 0" "reason = None \<longleftrightarrow> eg_handed eg' \<noteq> None"
    using assms u p t(1) r path
    by (auto simp: carry_on_def Let_def judge_life_def split: option.splits stopped.splits prod.splits if_splits)
  assume "as_known (tu_carries_ipv6 tu) (wd_core w)"
  then have "unmoved (wd_core w) (wd_core w2)" using t(3) r unmoved_trans by blast
  then show "unmoved (wd_core w) (wd_core w')"
    using assms u p path
    by (auto simp: carry_on_def Let_def judge_life_def split: option.splits stopped.splits prod.splits if_splits)
qed

definition came_up :: "handshake_choice \<Rightarrow> ('x, 'st, 'io, 'api, 'id) turn \<Rightarrow> engine \<Rightarrow> 'os world \<Rightarrow> bool" where
  "came_up hs tu eg w \<longleftrightarrow> eg_handed eg \<noteq> None \<or>
     (\<exists>stages. fst (open_tunnel hs (tu_started tu) (tu_opening tu) (wd_carrier w)) = Some (Inr stages))"

lemma replace_device_unmoved [simp]: "unmoved c (replace_device r c)"
  by (simp add: replace_device_def unmoved_def core_stop_def split: sum.split)

lemma unmoved_phase [simp]:
  "unmoved c (c'\<lparr>co_phase := p\<rparr>) = unmoved c c'" "unmoved (c\<lparr>co_phase := p\<rparr>) c' = unmoved c c'"
  "as_known k (c\<lparr>co_phase := p\<rparr>) = as_known k c"
  by (simp_all add: unmoved_def as_known_def core_ipv6_support_def)

definition told :: "bool \<Rightarrow> nat \<Rightarrow> engine \<Rightarrow> 'os core \<Rightarrow> bool" where
  "told up failures eg' c \<longleftrightarrow> (case eg_handed eg' of
      Some _ \<Rightarrow> (\<exists>stages. co_phase c = Up stages) \<and> eg_failures eg' = 0
    | None \<Rightarrow> \<exists>reason blocked n. co_phase c = Lost reason (BACKOFF ! min n 4) blocked \<and>
        eg_failures eg' = n + 1 \<and> n = (if up then 0 else failures))"

lemma engine_turn_ends:
  assumes "engine_turn create delete hs tu (eg, w) = Ok (Some (eg', w'))"
  shows "told (came_up hs tu eg w) (eg_failures eg) eg' (wd_core w') \<and>
    (as_known (tu_carries_ipv6 tu) (wd_core w) \<longrightarrow> unmoved (wd_core w) (wd_core w'))"
proof -
  have end_of: "told True n eg' (wd_core w') \<and>
    (as_known (tu_carries_ipv6 tu) (wd_core w1) \<longrightarrow> unmoved (wd_core w1) (wd_core w'))"
    if c: "and_then (carry_on create delete hs tu stages upgraded (eg1, w1)) (\<lambda>r.
          (case r of
             None \<Rightarrow> Ok None
           | Some (None, eg, w) \<Rightarrow> Ok (Some (eg, w))
           | Some (Some reason, eg, w) \<Rightarrow>
               and_then (tunnel_lost reason False (eg, w)) (\<lambda>(eg, w). Ok (Some (eg, wait_over (tu_woken tu) w))))) =
        Ok (Some (eg', w'))" "eg_handed eg1 = None" for stages upgraded eg1 w1 n
  proof -
    obtain reason eg2 w2 where r: "carry_on create delete hs tu stages upgraded (eg1, w1) = Ok (Some (reason, eg2, w2))"
      using c(1) by (cases "carry_on create delete hs tu stages upgraded (eg1, w1)") (auto split: option.splits)
    note e = carry_on_ends[OF r c(2)]
    show ?thesis using c(1) r e by (cases reason) (auto simp: tunnel_lost_eq told_def split: option.splits)
  qed
  have lost: "told False (eg_failures eg) eg' (wd_core w') \<and>
    unmoved (wd_core w1) (wd_core w')"
    if "and_then (tunnel_lost reason blocked (eg, w1)) (\<lambda>(eg, w). Ok (Some (eg, wait_over (tu_woken tu) w))) =
      Ok (Some (eg', w'))" "eg_handed eg = None" for reason blocked w1
    using that by (auto simp: tunnel_lost_eq told_def)
  define w0 where "w0 = on_core (\<lambda>c. c\<lparr>co_phase := Connecting (eg_failures eg + 1)\<rparr>) w"
  obtain opened cs where o: "open_tunnel hs (tu_started tu) (tu_opening tu) (wd_carrier w) = (opened, cs)" by fastforce
  have w0: "wd_carrier w0 = wd_carrier w" "as_known k (wd_core (w0\<lparr>wd_carrier := cs\<rparr>)) = as_known k (wd_core w)"
    "unmoved (wd_core (w0\<lparr>wd_carrier := cs\<rparr>)) c = unmoved (wd_core w) c" for k c
    by (simp_all add: w0_def)
  show ?thesis
  proof (cases "eg_handed eg")
    case (Some stages)
    then have "came_up hs tu eg w" by (simp add: came_up_def)
    then show ?thesis using end_of[of stages True "eg\<lparr>eg_handed := None\<rparr>" w] assms Some
      by (simp add: engine_turn_def)
  next
    case fresh: None
    note a = assms[unfolded engine_turn_def, simplified fresh option.case split_conv Let_def, folded w0_def]
    show ?thesis
    proof (cases opened)
      case None
      then show ?thesis
        using lost[of "''the tunnel did not open within 20 s''" False "w0\<lparr>wd_carrier := cs\<rparr>"] a o fresh w0
        by (simp add: came_up_def)
    next
      case (Some r)
      show ?thesis
      proof (cases r)
        case (Inl problem)
        define w2 where "w2 = (case problem of
            Refused status \<Rightarrow> if refusal_is_about_the_device (tu_code tu status)
              then on_core (replace_device (tu_refreshed tu)) (w0\<lparr>wd_carrier := cs\<rparr>) else w0\<lparr>wd_carrier := cs\<rparr>
          | _ \<Rightarrow> w0\<lparr>wd_carrier := cs\<rparr>)"
        have step: "unmoved (wd_core w) (wd_core w2)"
          by (cases problem) (simp_all add: w2_def w0_def unmoved_trans[OF _ replace_device_unmoved])
        have "and_then (tunnel_lost (tu_shown tu problem) (is_blocked problem) (eg, w2))
            (\<lambda>(eg, w). Ok (Some (eg, wait_over (tu_woken tu) w))) = Ok (Some (eg', w'))"
          using a o w0(1) Some Inl by (simp add: w2_def)
        then have ended: "told False (eg_failures eg) eg' (wd_core w')" "unmoved (wd_core w2) (wd_core w')"
          using lost[of "tu_shown tu problem" "is_blocked problem" w2] fresh by blast+
        have "unmoved (wd_core w) (wd_core w')" using unmoved_trans[OF step] ended by blast
        then show ?thesis using ended o fresh Some Inl by (simp add: came_up_def)
      next
        case (Inr stages)
        then show ?thesis using end_of[of stages False eg "w0\<lparr>wd_carrier := cs\<rparr>"] a o fresh w0 Some
          by (simp add: came_up_def)
      qed
    qed
  qed
qed

definition turn_in_time :: "instant \<Rightarrow> ('x, 'st, 'io, 'api, 'id) turn \<Rightarrow> bool" where
  "turn_in_time before tu \<longleftrightarrow> before \<le> tu_stale_at tu \<and> in_time (tu_stale_at tu) (tu_events tu)"

lemma carry_on_reach:
  assumes "reached_by before (wd_queue w)" "turn_in_time before tu"
  shows "case carry_on create delete hs tu stages upgraded (eg, w) of
      Ok (Some (_, _, w')) \<Rightarrow> \<exists>now. reached_by now (wd_queue w') | Ok None \<Rightarrow> True | _ \<Rightarrow> False"
proof -
  have stale: "reached_by (tu_stale_at tu) (wd_queue w)"
    using reached_by_later[OF assms(1)] assms(2) by (simp add: turn_in_time_def)
  obtain n q where q: "drop_stale (tu_stale_at tu) (wd_queue w) = Ok (n, q)"
    using reached_by_steps(8)[OF stale] by blast
  obtain w1 where w1: "tunnel_up create delete stages (tu_carries_ipv6 tu) (tu_stale_at tu) w = Ok w1" "wd_queue w1 = q"
    using q by (auto simp: tunnel_up_def Let_def)
  obtain st pp w2 now where "pump_run (stages_carrier stages) hs (tu_events tu) (pump_new (tu_link tu) (wd_core w1), w1) =
      Ok (st, pp, w2)" "reached_by now (wd_queue w2)"
    using pump_run_reach[of "tu_stale_at tu" w1 "tu_events tu"] reached_by_steps(3)[OF stale q] w1(2) assms(2)
    unfolding turn_in_time_def by blast
  then show ?thesis using w1
    by (auto simp: carry_on_def Let_def split: option.split stopped.split prod.split)
qed

lemma engine_turn_reach:
  assumes "reached_by before (wd_queue w)" "turn_in_time before tu"
  shows "case engine_turn create delete hs tu (eg, w) of
      Ok (Some (_, w')) \<Rightarrow> \<exists>now. reached_by now (wd_queue w') | Ok None \<Rightarrow> True | _ \<Rightarrow> False"
proof -
  have up: "case and_then (carry_on create delete hs tu stages upgraded (eg1, w1)) (\<lambda>r.
          (case r of
             None \<Rightarrow> Ok None
           | Some (None, eg, w) \<Rightarrow> Ok (Some (eg, w))
           | Some (Some reason, eg, w) \<Rightarrow>
               and_then (tunnel_lost reason False (eg, w)) (\<lambda>(eg, w). Ok (Some (eg, wait_over (tu_woken tu) w))))) of
      Ok (Some (_, w')) \<Rightarrow> \<exists>now. reached_by now (wd_queue w') | Ok None \<Rightarrow> True | _ \<Rightarrow> False"
    if "wd_queue w1 = wd_queue w" for stages upgraded eg1 w1
    using carry_on_reach[of before w1 tu create delete hs stages upgraded eg1] assms that
    by (auto simp: tunnel_lost_eq split: outcome.splits option.splits)
  show ?thesis
    using up assms(1)
    by (auto simp: engine_turn_def Let_def tunnel_lost_eq split: option.split prod.split sum.split connect_error.split)
qed


section \<open>A concrete turn\<close>

definition sample_turn :: "(unit, unit, unit, unit, unit) turn" where
  "sample_turn = \<lparr>tu_started = 0, tu_opening = Attempt (\<lambda>_. Inr (StagesH3 1 2 3)) 1, tu_carries_ipv6 = None,
     tu_opened = 1, tu_stale_at = 2, tu_link = None,
     tu_events = [Delivered 3 [0x45], Took 4, Interval, Received (Packet [0x45] None), Answered (RoundTrip 5 None), Asked],
     tu_ended = 6, tu_shown = (\<lambda>_. ''refused''), tu_code = (\<lambda>_. 403), tu_refreshed = Inr (Inr ()), tu_woken = Slept\<rparr>"

definition sample_world :: "prefix set world" where
  "sample_world = \<lparr>wd_core = sample_core\<lparr>co_routes := {(V4 5, 32)}\<rparr>, wd_queue = queue_new,
     wd_carrier = carrier_initial, wd_line = \<lparr>el_ours = 7, el_endpoint = None, el_from = None\<rparr>\<rparr>"

lemma pump_run_asked: "pump_run carrying hs (es @ [Asked]) (pp, w) = Ok (st, pw) \<Longrightarrow> st \<noteq> None"
proof (induction es arbitrary: pp w)
  case (Cons e es)
  then obtain st1 pp1 w1 where "pump_step carrying hs e (pp, w) = Ok (st1, pp1, w1)"
    by (cases "pump_step carrying hs e (pp, w)") auto
  then show ?case using Cons by (cases st1) auto
qed auto

lemma carry_on_asked:
  assumes "tu_events tu = es @ [Asked]"
  shows "carry_on create delete hs tu stages upgraded (eg, w) \<noteq> Ok None"
  by (auto simp: carry_on_def Let_def and_then_eq_Ok assms dest: pump_run_asked
      split: option.splits stopped.splits prod.splits)

lemma sample_turn_ends:
  obtains eg' w' where "engine_turn open_create open_delete handshake_initial sample_turn (engine_new, sample_world) = Ok (Some (eg', w'))"
proof -
  have t: "turn_in_time 0 sample_turn" 
    by (simp add: turn_in_time_def sample_turn_def event_time_def event_fits_def LIMIT_BYTES_def)
  have r: "reached_by 0 (wd_queue sample_world)"
    unfolding reached_by_def using queue_reach.start[of 0] by (auto simp: sample_world_def)
  have "tu_events sample_turn = butlast (tu_events sample_turn) @ [Asked]" by (simp add: sample_turn_def)
  note asked = carry_on_asked[OF this]
  have "engine_turn open_create open_delete handshake_initial sample_turn (engine_new, sample_world) \<noteq> Ok None"
    by (auto simp: engine_turn_def Let_def tunnel_lost_eq and_then_eq_Ok asked split: option.splits prod.splits sum.splits)
  then show ?thesis using engine_turn_reach[OF r t, of open_create open_delete handshake_initial engine_new] that
    by (auto split: outcome.splits option.splits)
qed

section \<open>The properties\<close>

text \<open>C13. A tunnel over which nothing is heard any more is found out: whatever the line under it does, the pump
  stops, and within 10.3 seconds of the last answer, an interval, the settling pause and a timeout.\<close>

theorem silence_found_out:
  assumes "silent_after silent t rounds" "t \<le> silent"
  shows "(silent < t + length rounds * SETTLING \<longrightarrow> unanswered_at t rounds \<noteq> None) \<and>
    (\<forall>e. unanswered_at t rounds = Some e \<longrightarrow> e \<le> silent + from_millis 10300)"
proof -
  have "PING_EVERY + SETTLING + PING_TIMEOUT = from_millis 10300"
    by (simp add: PING_EVERY_def SETTLING_def PING_TIMEOUT_def from_millis_def from_secs_def)
  then show ?thesis using unanswered_bounded[OF assms(1)] unanswered_comes[OF assms(1)] assms(2)
    by (simp add: max_def add.assoc)
qed

definition sample_rounds :: "(duration option \<times> duration option) list" where
  "sample_rounds = [(None, Some 1), (Some (from_millis 4999), None)]"

theorem silence_found_out_witness:
  "\<exists>e. unanswered_at 0 sample_rounds = Some e \<and> e \<le> from_secs 5 + 1 + from_millis 10300 \<and>
    from_secs 5 + 1 + from_secs 10 < e"
proof -
  have s: "silent_after (from_secs 5 + 1) 0 sample_rounds" "(0 :: nat) \<le> from_secs 5 + 1"
    by (simp_all add: sample_rounds_def PING_EVERY_def SETTLING_def PING_TIMEOUT_def from_millis_def from_secs_def)
  have "unanswered_at 0 sample_rounds = Some 15299000001"
    by (simp add: sample_rounds_def PING_EVERY_def SETTLING_def PING_TIMEOUT_def from_millis_def from_secs_def)
  then show ?thesis using silence_found_out[OF s] by (simp add: from_secs_def from_millis_def)
qed

text \<open>C9. A turn of the engine never panics: the schedule, the queue and every packet's header are read within
  their bounds, whatever the network, the driver and the clock answered. When it ends it leaves the queue
  as its own operations leave it, so the same holds of the next turn.\<close>

theorem turn_returns:
  assumes "queue_reach before (wd_queue w)" "turn_in_time before tu"
  shows "case engine_turn create delete hs tu (eg, w) of
      Ok (Some (_, w')) \<Rightarrow> \<exists>now. queue_reach now (wd_queue w') | Ok None \<Rightarrow> True | _ \<Rightarrow> False"
proof -
  have "reached_by before (wd_queue w)" using assms(1) by (auto simp: reached_by_def)
  from engine_turn_reach[OF this assms(2), of create delete hs eg] show ?thesis
    unfolding reached_by_def by (auto split: outcome.splits option.splits)
qed

theorem turn_returns_witness:
  "\<exists>r. engine_turn open_create open_delete handshake_initial sample_turn (engine_new, sample_world) = Ok r"
proof -
  have q: "queue_reach 0 (wd_queue sample_world)" using queue_reach.start by (simp add: sample_world_def)
  have t: "turn_in_time 0 sample_turn"
    by (simp add: turn_in_time_def sample_turn_def event_time_def event_fits_def LIMIT_BYTES_def)
  show ?thesis using turn_returns[OF q t, of open_create open_delete handshake_initial engine_new]
    by (auto split: outcome.splits)
qed

text \<open>C10. A tunnel that is replaced moves nothing in the system's network state. Whatever happened in a turn,
  packets, errors, timeouts and a change of carrier included, the installed routes, the rows in the
  table, what the application asked for and the set of leased addresses are as they were, unless IPv6
  was measured to be carried differently than was known.\<close>

theorem tunnels_move_no_route:
  assumes "engine_turn create delete hs tu (eg, w) = Ok (Some (eg', w'))"
    and "as_known (tu_carries_ipv6 tu) (wd_core w)"
  shows "co_routes (wd_core w') = co_routes (wd_core w) \<and> co_table (wd_core w') = co_table (wd_core w) \<and>
    co_asked (wd_core w') = co_asked (wd_core w) \<and>
    set (lease_addresses (co_leases (wd_core w'))) = set (lease_addresses (co_leases (wd_core w)))"
  using engine_turn_ends[OF assms(1)] assms(2) by (simp add: unmoved_def)

theorem tunnels_move_no_route_witness:
  "\<exists>eg' w'. engine_turn open_create open_delete handshake_initial sample_turn (engine_new, sample_world) = Ok (Some (eg', w')) \<and>
    co_routes (wd_core w') = {(V4 5, 32)}"
proof -
  obtain eg' w' where e: "engine_turn open_create open_delete handshake_initial sample_turn (engine_new, sample_world) =
    Ok (Some (eg', w'))" by (rule sample_turn_ends)
  have "as_known (tu_carries_ipv6 sample_turn) (wd_core sample_world)" by (simp add: as_known_def sample_turn_def)
  from tunnels_move_no_route[OF e this] show ?thesis using e by (simp add: sample_world_def)
qed

text \<open>C11. What a supervisor reads after a turn: a tunnel handed over is up, without a gap; any other turn ends
  lost, to be retried after the entry of the schedule for the failures in a row before it, which are none
  when a tunnel had come up and at most the last entry's fifteen seconds.\<close>

theorem turn_told:
  assumes "engine_turn create delete hs tu (eg, w) = Ok (Some (eg', w'))"
  shows "case eg_handed eg' of
      Some _ \<Rightarrow> (\<exists>stages. co_phase (wd_core w') = Up stages) \<and> eg_failures eg' = 0
    | None \<Rightarrow> \<exists>reason retry blocked n. co_phase (wd_core w') = Lost reason retry blocked \<and>
        retry = BACKOFF ! min n 4 \<and> retry \<le> from_secs 15 \<and> eg_failures eg' = n + 1 \<and>
        n = (if came_up hs tu eg w then 0 else eg_failures eg)"
proof -
  have "b \<le> from_secs 15" if "b \<in> set BACKOFF" for b using that by (auto simp: BACKOFF_def from_secs_def)
  then have "BACKOFF ! min n 4 \<le> from_secs 15" for n using backoff_listed by blast
  then show ?thesis using engine_turn_ends[OF assms] by (cases "eg_handed eg'") (simp add: told_def, fastforce simp: told_def)
qed

theorem turn_told_witness:
  "\<exists>eg' w'. engine_turn open_create open_delete handshake_initial (sample_turn\<lparr>tu_opening := GaveUp (Some 9)\<rparr>)
      (engine_new\<lparr>eg_failures := 2\<rparr>, sample_world) = Ok (Some (eg', w')) \<and>
    (\<exists>reason blocked. co_phase (wd_core w') = Lost reason (from_secs 4) blocked) \<and> eg_failures eg' = 3"
proof -
  let ?tu = "sample_turn\<lparr>tu_opening := GaveUp (Some 9)\<rparr>"
  obtain eg' w' where e: "engine_turn open_create open_delete handshake_initial ?tu
      (engine_new\<lparr>eg_failures := 2\<rparr>, sample_world) = Ok (Some (eg', w'))" "eg_handed eg' = None"
    by (simp add: engine_turn_def engine_new_def sample_turn_def open_tunnel_def Let_def tunnel_lost_eq)
  have "\<not> came_up handshake_initial ?tu (engine_new\<lparr>eg_failures := 2\<rparr>) sample_world"
    by (simp add: came_up_def engine_new_def open_tunnel_def)
  then show ?thesis using turn_told[OF e(1)] e by (auto simp: BACKOFF_def)
qed

text \<open>C14. A run of three short lives over HTTP/3 steps down to HTTP/2 for the parking time, one or two do not; a
  single one is enough when HTTP/2 was carrying right before it.\<close>

theorem short_lives_step_down:
  assumes "judge_life st1 False l1 c1 t1 (eg0, cs0) = (eg1, cs1)" "judge_life st2 False l2 c2 t2 (eg1, cs1) = (eg2, cs2)"
    and "judge_life st3 False l3 c3 t3 (eg2, cs2) = (eg3, cs3)" "judge_life st1 True l1 c1 t1 (eg0, cs0) = (eg4, cs4)"
    and "eg_cut_short eg0 = 0" "cut_short_life l1 c1" "cut_short_life l2 c2" "cut_short_life l3 c3"
    and "stages_carrier st1 = H3" "stages_carrier st3 = H3" "carrier_selected cs0 = Auto"
  shows "cs1 = cs0 \<and> cs2 = cs0 \<and>
    (\<forall>t < t3 + PARK_FOR. fst (snd (connect over hs t later cs3)) = [H2]) \<and>
    (\<forall>t < t1 + PARK_FOR. fst (snd (connect over hs t later cs4)) = [H2])"
proof -
  have e: "eg_cut_short eg1 = 1" "cs1 = cs0" "eg_cut_short eg2 = 2" "cs2 = cs0" "cs3 = park t3 cs0" "cs4 = park t1 cs0"
    using assms by (auto simp: judge_life_def Let_def CUT_SHORT_RUN_def)
  have "carrier_selected (park t cs0) = Auto" for t using assms(11) by (simp add: carrier_selected_def park_def)
  then have "fst (snd (connect over hs t later (park t' cs0))) = [H2]" if "t < t' + PARK_FOR" for t t'
    using that by (simp add: connect_def plan_def parked_park)
  then show ?thesis using e by simp
qed

theorem short_lives_step_down_witness:
  "fst (snd (connect (\<lambda>_. Inl () :: unit + unit) handshake_initial 100 7 (park 30 carrier_initial))) = [H2]"
proof -
  let ?st = "StagesH3 1 2 3"
  have j: "judge_life ?st False 5 6 10 (engine_new, carrier_initial) = (engine_new\<lparr>eg_cut_short := 1\<rparr>, carrier_initial)"
    "judge_life ?st False 5 6 20 (engine_new\<lparr>eg_cut_short := 1\<rparr>, carrier_initial) = (engine_new\<lparr>eg_cut_short := 2\<rparr>, carrier_initial)"
    "judge_life ?st False 5 6 30 (engine_new\<lparr>eg_cut_short := 2\<rparr>, carrier_initial) = (engine_new\<lparr>eg_cut_short := 3\<rparr>, park 30 carrier_initial)"
    "judge_life ?st True 5 6 10 (engine_new, carrier_initial) = (engine_new\<lparr>eg_cut_short := 1\<rparr>, park 10 carrier_initial)"
    by (simp_all add: judge_life_def cut_short_life_def CUT_SHORT_WITHIN_def CUT_SHORT_BYTES_def CUT_SHORT_RUN_def
        from_secs_def Let_def engine_new_def)
  have s: "eg_cut_short engine_new = 0" "cut_short_life 5 6" "stages_carrier ?st = H3" "carrier_selected carrier_initial = Auto"
    by (simp_all add: engine_new_def cut_short_life_def CUT_SHORT_WITHIN_def CUT_SHORT_BYTES_def from_secs_def
        carrier_selected_def carrier_initial_def choice_from_code_def)
  have "(100 :: instant) < 30 + PARK_FOR" by (simp add: PARK_FOR_def from_secs_def)
  then show ?thesis
    by (rule short_lives_step_down[OF j s(1) s(2) s(2) s(2) s(3) s(3) s(4), THEN conjunct2, THEN conjunct2,
          THEN conjunct1, rule_format])
qed



end
