(* ===== verification/Probe.thy ===== *)
theory Probe
  imports Checksum Hop_Limit
begin

text \<open>
  Measuring whether the tunnel carries IPv6, \<open>src/probe.rs\<close>: one DNS query in a UDP datagram built by
  hand, its checksum over the pseudo-header, and the wait for a datagram back. The module folds the
  checksum itself rather than through \<open>src/ip.rs\<close>. Shown: what is sent verifies at the receiver, also
  after the tunnel lowered its hop limit, and only a datagram addressed back to the port asked from
  counts as an answer.
\<close>

section \<open>The query\<close>

definition PROBE_RESOLVER :: u128 where
  "PROBE_RESOLVER = 0x26064700470000000000000000001111"

definition PROBE_NAME :: string where "PROBE_NAME = ''cloudflare.com''"
definition PROBE_PORT :: u16 where "PROBE_PORT = 40001"
definition NEXT_HEADER_UDP :: u8 where "NEXT_HEADER_UDP = 17"

text \<open>\<open>split('.')\<close>.\<close>

fun split_dots :: "string \<Rightarrow> string list" where
  "split_dots [] = [[]]"
| "split_dots (c # cs) =
     (if c = CHR ''.'' then [] # split_dots cs
      else (case split_dots cs of l # ls \<Rightarrow> (c # l) # ls | [] \<Rightarrow> [[c]]))"

definition probe_dns_query :: "string \<Rightarrow> bytes" where
  "probe_dns_query name =
     [0x2a, 0x2a, 0x01, 0x00, 0, 1, 0, 0, 0, 0, 0, 0] @
     concat (map (\<lambda>label. of_nat (length label) # ascii label) (split_dots name)) @ [0] @ [0, 1, 0, 1]"

text \<open>The running sum is a \<open>u32\<close>; each field is added by itself, an odd one padded.\<close>

definition udp_checksum :: "u128 \<Rightarrow> u128 \<Rightarrow> bytes \<Rightarrow> u16" where
  "udp_checksum source destination datagram =
     (let sum = foldl sum_add 0 [be_bytes 16 source, be_bytes 16 destination,
            be_bytes 4 (of_nat (length datagram) :: u32), [0, 0, 0, NEXT_HEADER_UDP], datagram];
          folded = NOT (ucast (fold_carries sum)) :: u16
      in if folded = 0 then 0xffff else folded)"

definition dns_over_ipv6 :: "u128 \<Rightarrow> u128 \<Rightarrow> u16 \<Rightarrow> string \<Rightarrow> bytes" where
  "dns_over_ipv6 source destination port name =
     (let query = probe_dns_query name;
          udp_len = 8 + length query;
          udp = be_bytes 2 port @ be_bytes 2 (53 :: u16) @ be_bytes 2 (of_nat udp_len :: u16) @ [0, 0] @ query;
          udp = take 6 udp @ be_bytes 2 (udp_checksum source destination udp) @ drop 8 udp
      in [0x60, 0, 0, 0] @ be_bytes 2 (of_nat udp_len :: u16) @ [NEXT_HEADER_UDP] @ [64] @
         be_bytes 16 source @ be_bytes 16 destination @ udp)"

section \<open>The answer\<close>

definition is_reply_to :: "bytes \<Rightarrow> u128 \<Rightarrow> u16 \<Rightarrow> (unit, bool) outcome" where
  "is_reply_to packet us port =
     (if length packet < 48 then Ok False
      else and_then (index packet 0) (\<lambda>first.
        if drop_bit 4 first \<noteq> 6 then Ok False
        else and_then (index packet 6) (\<lambda>next_header.
        if next_header \<noteq> NEXT_HEADER_UDP then Ok False
        else and_then (slice 24 40 packet) (\<lambda>destination.
        if destination \<noteq> be_bytes 16 us then Ok False
        else and_then (index packet 42) (\<lambda>high. and_then (index packet 43) (\<lambda>low.
          Ok (be16 high low = port)))))))"

text \<open>What \<open>recv\<close> gave before the deadline: packets, up to an end of the tunnel or a failure (\<open>None\<close>).
  When the list ends the deadline has come.\<close>

fun await_reply :: "u128 \<Rightarrow> u16 \<Rightarrow> bytes option list \<Rightarrow> (unit, bool) outcome" where
  "await_reply us port [] = Ok False"
| "await_reply us port (None # _) = Ok False"
| "await_reply us port (Some reply # rest) =
     and_then (is_reply_to reply us port) (\<lambda>ours. if ours then Ok True else await_reply us port rest)"

definition carries_ipv6 :: "(bytes \<Rightarrow> bool \<times> 't) \<Rightarrow> u128 \<Rightarrow> ('t \<Rightarrow> bytes option list) \<Rightarrow> (unit, bool) outcome" where
  "carries_ipv6 send source recv =
     (case send (dns_over_ipv6 source PROBE_RESOLVER PROBE_PORT PROBE_NAME) of
        (sent, t) \<Rightarrow> if \<not> sent then Ok False else await_reply source PROBE_PORT (recv t))"

section \<open>Lemmas\<close>

lemma sum_add_append: "even (length xs) \<Longrightarrow> sum_add (sum_add s xs) ys = sum_add s (xs @ ys)"
  by (induction s xs rule: sum_add.induct) auto

lemma udp_checksum_sum:
  "udp_checksum source destination datagram =
     (let folded = NOT (ucast (fold_carries (sum_add 0 (be_bytes 16 source @ be_bytes 16 destination @
          be_bytes 4 (of_nat (length datagram) :: u32) @ [0, 0, 0, NEXT_HEADER_UDP] @ datagram)))) :: u16
      in if folded = 0 then 0xffff else folded)"
  by (simp add: udp_checksum_def sum_add_append del: sum_add.simps)

lemma udp_checksum_field:
  assumes "words_nat (before @ after) < 2 ^ 31" "even (length before)"
    and "be_bytes 16 source @ be_bytes 16 destination @ be_bytes 4 (of_nat (length datagram) :: u32) @
      [0, 0, 0, NEXT_HEADER_UDP] @ datagram = before @ [0, 0] @ after"
  shows "checksum (before @ be_bytes 2 (udp_checksum source destination datagram) @ after) = 0 \<and>
    udp_checksum source destination datagram \<noteq> 0"
proof -
  define s where "s = sum_add 0 (before @ [0, 0] @ after)"
  have "words_nat (before @ [0, 0] @ after) = words_nat (before @ after)"
    using assms(2) by (simp add: words_nat_append_even)
  then have s: "unat s = words_nat (before @ after)"
    using sum_add_unat[of 0 "before @ [0, 0] @ after"] assms(1) by (simp add: s_def)
  define c where "c = (NOT (ucast (fold_carries s)) :: u16)"
  have u: "udp_checksum source destination datagram = (if c = 0 then 0xffff else c)"
    unfolding udp_checksum_sum assms(3) c_def s_def by (simp add: Let_def)
  note f = folded_field[OF s, folded c_def]
  have "unat (0xffff :: u16) = 65535" by simp
  then show ?thesis unfolding u using f
    by (intro conjI field_verifies[OF assms(1,2)]) (auto simp: mod_add_left_eq)
qed

lemma be_bytes_two: "be_bytes 2 (w :: u16) = [ucast (drop_bit 8 w), ucast w]"
  by (simp add: numeral_2_eq_2)

lemma dns_over_ipv6_eq:
  fixes len :: u16 and name :: string and port :: u16
  defines "len \<equiv> of_nat (8 + length (probe_dns_query name))"
  defines "udp \<equiv> be_bytes 2 port @ be_bytes 2 (53 :: u16) @ be_bytes 2 len @ [0, 0] @ probe_dns_query name"
  shows "dns_over_ipv6 source destination port name =
    [0x60, 0, 0, 0] @ be_bytes 2 len @ [NEXT_HEADER_UDP, 64] @ be_bytes 16 source @ be_bytes 16 destination @
    be_bytes 2 port @ be_bytes 2 (53 :: u16) @ be_bytes 2 len @ be_bytes 2 (udp_checksum source destination udp) @
    probe_dns_query name"
  unfolding dns_over_ipv6_def Let_def len_def udp_def by (simp add: be_bytes_two)

section \<open>The properties\<close>

text \<open>The probe's packet is a well-formed IPv6 datagram that the receiver accepts: the version, the next
  header and both lengths are right, the addresses and the port asked from are in it, and its UDP
  checksum is present and verifies over the pseudo-header, before and after the tunnel has lowered the
  hop limit.\<close>

theorem probe_packet_verifies:
  assumes "length (probe_dns_query name) < 60000"
  shows "let packet = dns_over_ipv6 source destination port name; datagram = drop 40 packet in
    version packet = Some 6 \<and> packet ! 6 = NEXT_HEADER_UDP \<and>
    unat (be16 (packet ! 4) (packet ! 5)) = length datagram \<and>
    take 32 (drop 8 packet) = be_bytes 16 source @ be_bytes 16 destination \<and>
    take 2 datagram = be_bytes 2 port \<and> be16 (datagram ! 6) (datagram ! 7) \<noteq> 0 \<and>
    drop 8 datagram = probe_dns_query name \<and>
    checksum (be_bytes 16 source @ be_bytes 16 destination @ be_bytes 4 (of_nat (length datagram) :: u32) @
      [0, 0, 0, NEXT_HEADER_UDP] @ datagram) = 0 \<and>
    (\<exists>sent. decrement_hop_limit packet = Ok (True, sent) \<and> drop 8 sent = drop 8 packet)"
proof -
  define q where "q = probe_dns_query name"
  define len :: u16 where "len = of_nat (8 + length q)"
  define udp where "udp = be_bytes 2 port @ be_bytes 2 (53 :: u16) @ be_bytes 2 len @ [0, 0] @ q"
  define c where "c = udp_checksum source destination udp"
  define ends where "ends = be_bytes 16 source @ be_bytes 16 destination"
  have ends: "length ends = 32" by (simp add: ends_def)
  have len: "unat len = 8 + length q" using assms by (simp only: len_def unsigned_of_nat) (simp add: take_bit_nat_eq_self q_def)
  have p: "dns_over_ipv6 source destination port name = [0x60, 0, 0, 0] @ be_bytes 2 len @ [NEXT_HEADER_UDP, 64] @ ends @
      be_bytes 2 port @ be_bytes 2 (53 :: u16) @ be_bytes 2 len @ be_bytes 2 c @ q"
    by (simp add: dns_over_ipv6_eq len_def udp_def c_def q_def ends_def)
  define before where "before = ends @ be_bytes 4 (of_nat (length udp) :: u32) @ [0, 0, 0, NEXT_HEADER_UDP] @
      be_bytes 2 port @ be_bytes 2 (53 :: u16) @ be_bytes 2 len"
  have "length (before @ q) = 46 + length q" by (simp add: before_def ends)
  then have bound: "words_nat (before @ q) < 2 ^ 31" using words_nat_bound[of "before @ q"] assms by (simp add: q_def)
  have "checksum (before @ be_bytes 2 c @ q) = 0 \<and> c \<noteq> 0"
    unfolding c_def
    by (rule udp_checksum_field) (use bound in \<open>simp_all add: before_def ends udp_def ends_def\<close>)
  moreover have "length udp = 8 + length q" by (simp add: udp_def)
  ultimately have verified: "checksum (ends @ be_bytes 4 (of_nat (8 + length q) :: u32) @ [0, 0, 0, NEXT_HEADER_UDP] @
      be_bytes 2 port @ be_bytes 2 (53 :: u16) @ be_bytes 2 len @ be_bytes 2 c @ q) = 0" "c \<noteq> 0"
    by (simp_all add: before_def)
  let ?p = "dns_over_ipv6 source destination port name"
  have datagram: "drop 40 ?p = be_bytes 2 port @ be_bytes 2 (53 :: u16) @ be_bytes 2 len @ be_bytes 2 c @ q"
    and heads: "version ?p = Some 6" "?p ! 6 = NEXT_HEADER_UDP" "be16 (?p ! 4) (?p ! 5) = len" "take 32 (drop 8 ?p) = ends"
      "?p ! 7 = 64" "40 \<le> length ?p"
    by (simp_all add: p be_bytes_two ends version_def at_def nth_append be16_be_bytes)
  have "decrement_hop_limit ?p = Ok (True, ?p[7 := ?p ! 7 - 1])"
    using heads by (intro decrement_v6) simp_all
  then have "\<exists>sent. decrement_hop_limit ?p = Ok (True, sent) \<and> drop 8 sent = drop 8 ?p" by simp
  then show ?thesis
    using heads verified len unfolding Let_def datagram ends_def
    by (simp add: be_bytes_two be16_be_bytes q_def)
qed

theorem probe_packet_verifies_witness:
  "unat (be16 (dns_over_ipv6 1 PROBE_RESOLVER PROBE_PORT PROBE_NAME ! 4) (dns_over_ipv6 1 PROBE_RESOLVER PROBE_PORT PROBE_NAME ! 5)) = 40"
proof -
  have q: "length (probe_dns_query PROBE_NAME) = 32" by code_simp
  have "length (drop 40 (dns_over_ipv6 1 PROBE_RESOLVER PROBE_PORT PROBE_NAME)) = 40"
    using q by (simp add: dns_over_ipv6_eq)
  then show ?thesis using probe_packet_verifies[of PROBE_NAME 1 PROBE_RESOLVER PROBE_PORT] q by (simp add: Let_def)
qed

lemma is_reply_to_eq:
  "is_reply_to packet us port = Ok (48 \<le> length packet \<and> version packet = Some 6 \<and> packet ! 6 = NEXT_HEADER_UDP \<and>
     take 16 (drop 24 packet) = be_bytes 16 us \<and> be16 (packet ! 42) (packet ! 43) = port)"
  by (simp add: is_reply_to_def out_simps version_def at_def)

lemma await_reply_eq:
  "await_reply us port rs = Ok (\<exists>reply\<in>set (takeWhile (\<lambda>r. r \<noteq> None) rs). is_reply_to (the reply) us port = Ok True)"
proof (induction us port rs rule: await_reply.induct)
  case (3 us port reply rest)
  obtain b where "is_reply_to reply us port = Ok b" using is_reply_to_eq by blast
  then show ?case using 3 by (cases b) simp_all
qed simp_all

text \<open>The tunnel carries IPv6, in the probe's judgement, exactly when the query could be sent and one of the
  packets that came before the deadline, a failure and the end of the tunnel is a UDP datagram
  addressed back to this device and the port asked from; no packet makes it panic.\<close>

theorem probe_answer_iff:
  "carries_ipv6 send source recv = Ok (
     case send (dns_over_ipv6 source PROBE_RESOLVER PROBE_PORT PROBE_NAME) of
       (sent, t) \<Rightarrow> sent \<and> (\<exists>reply\<in>set (map the (takeWhile (\<lambda>r. r \<noteq> None) (recv t))).
         48 \<le> length reply \<and> version reply = Some 6 \<and> reply ! 6 = NEXT_HEADER_UDP \<and>
         take 16 (drop 24 reply) = be_bytes 16 source \<and> be16 (reply ! 42) (reply ! 43) = PROBE_PORT))"
  by (simp add: carries_ipv6_def await_reply_eq is_reply_to_eq split: prod.split)

end
