(* ===== verification/Diagnose.thy ===== *)
theory Diagnose
  imports Probe
begin

text \<open>
  The packets of the checks, \<open>src/diagnose/packets.rs\<close>: an echo request, a UDP datagram, a query, and the
  readers of what comes back. Shown: what is built verifies, what answers it is recognised, and the
  readers never panic.
\<close>

section \<open>Building\<close>

definition ipv4_icmp_echo :: "u32 \<Rightarrow> u32 \<Rightarrow> u16 \<Rightarrow> u16 \<Rightarrow> bytes \<Rightarrow> bytes" where
  "ipv4_icmp_echo src dst ident seq payload =
     (let icmp = [8] @ [0] @ [0, 0] @ be_bytes 2 ident @ be_bytes 2 seq @ payload;
          icmp = take 2 icmp @ be_bytes 2 (ones_complement icmp) @ drop 4 icmp;
          total_len = 20 + length icmp;
          packet = [0x45] @ [0] @ be_bytes 2 (of_nat total_len :: u16) @ [0, 0] @ [0x40, 0] @ [64] @ [1] @ [0, 0] @
            be_bytes 4 src @ be_bytes 4 dst;
          packet = take 10 packet @ be_bytes 2 (ipv4_checksum (take 20 packet)) @ drop 12 packet
      in packet @ icmp)"

definition ipv4_udp :: "u32 \<Rightarrow> u32 \<Rightarrow> u16 \<Rightarrow> u16 \<Rightarrow> bytes \<Rightarrow> bytes" where
  "ipv4_udp src dst sport dport payload =
     (let udp_len = 8 + length payload;
          total_len = 20 + udp_len;
          packet = [0x45] @ [0] @ be_bytes 2 (of_nat total_len :: u16) @ [0, 0] @ [0x40, 0] @ [64] @ [17] @ [0, 0] @
            be_bytes 4 src @ be_bytes 4 dst;
          packet = take 10 packet @ be_bytes 2 (ipv4_checksum (take 20 packet)) @ drop 12 packet
      in packet @ be_bytes 2 sport @ be_bytes 2 dport @ be_bytes 2 (of_nat udp_len :: u16) @ [0, 0] @ payload)"

text \<open>Written out a second time in the diagnostics.\<close>

definition checks_dns_query :: "string \<Rightarrow> bytes" where
  "checks_dns_query name =
     [0x2a, 0x2a, 0x01, 0x00, 0, 1, 0, 0, 0, 0, 0, 0] @
     concat (map (\<lambda>label. of_nat (length label) # ascii label) (split_dots name)) @ [0] @ [0, 1, 0, 1]"

section \<open>Reading\<close>

definition icmp_echo_reply :: "bytes \<Rightarrow> u32 \<Rightarrow> u16 \<Rightarrow> (unit, u16 option) outcome" where
  "icmp_echo_reply packet ours ident =
     (if length packet < 28 then Ok None
      else and_then (index packet 0) (\<lambda>first. and_then (index packet 9) (\<lambda>protocol.
        and_then (slice 16 20 packet) (\<lambda>destination.
        if drop_bit 4 first \<noteq> 4 \<or> protocol \<noteq> 1 \<or> destination \<noteq> be_bytes 4 ours then Ok None
        else
          let header_len = unat (first AND 0x0f) * 4 in
          if length packet < header_len then Ok None
          else
            let icmp = drop header_len packet in
            if length icmp < 8 \<or> icmp ! 0 \<noteq> 0 then Ok None
            else if be16 (icmp ! 4) (icmp ! 5) \<noteq> ident then Ok None
            else Ok (Some (be16 (icmp ! 6) (icmp ! 7)))))))"

definition udp_payload :: "bytes \<Rightarrow> u32 \<Rightarrow> (unit, bytes option) outcome" where
  "udp_payload packet ours =
     (if length packet < 28 then Ok None
      else and_then (index packet 0) (\<lambda>first. and_then (index packet 9) (\<lambda>protocol.
        if drop_bit 4 first \<noteq> 4 \<or> protocol \<noteq> 17 then Ok None
        else
          let header_len = unat (first AND 0x0f) * 4 in
          if length packet < header_len + 8 then Ok None
          else and_then (slice 16 20 packet) (\<lambda>destination.
            if destination \<noteq> be_bytes 4 ours then Ok None
            else and_then (slice_from (header_len + 8) packet) (\<lambda>payload. Ok (Some payload))))))"

function skip_name :: "bytes \<Rightarrow> nat \<Rightarrow> nat" where
  "skip_name message i =
     (if i < length message then
        let len = message ! i in
        if len AND 0xc0 = 0xc0 then i + 2
        else if len = 0 then i + 1
        else skip_name message (i + 1 + unat len)
      else i)"
  by pat_completeness auto
termination skip_name by (relation "measure (\<lambda>(message, i). length message - i)") auto

declare skip_name.simps [simp del]

fun skip_asked :: "nat \<Rightarrow> bytes \<Rightarrow> nat \<Rightarrow> nat" where
  "skip_asked 0 message i = i"
| "skip_asked (Suc n) message i = skip_asked n message (skip_name message i + 4)"

definition dotted_quad :: "bytes \<Rightarrow> string" where
  "dotted_quad a = decimal (unat (a ! 0)) @ ''.'' @ decimal (unat (a ! 1)) @ ''.'' @ decimal (unat (a ! 2)) @ ''.'' @
     decimal (unat (a ! 3))"

fun walk_answers :: "nat \<Rightarrow> bytes \<Rightarrow> nat \<Rightarrow> (unit, string list) outcome" where
  "walk_answers 0 message i = Ok []"
| "walk_answers (Suc n) message i =
     (let i = skip_name message i in
      if length message < i + 10 then Ok []
      else and_then (index message i) (\<lambda>t0. and_then (index message (i + 1)) (\<lambda>t1.
        and_then (index message (i + 8)) (\<lambda>l0. and_then (index message (i + 9)) (\<lambda>l1.
        let rtype = be16 t0 t1; rdlen = unat (be16 l0 l1); i = i + 10 in
        if length message < i + rdlen then Ok []
        else if rtype = 1 \<and> rdlen = 4 then
          and_then (slice i (i + 4) message) (\<lambda>a. and_then (walk_answers n message (i + rdlen)) (\<lambda>rest.
            Ok (dotted_quad a # rest)))
        else walk_answers n message (i + rdlen))))))"

definition dns_answers :: "bytes \<Rightarrow> (unit, string list) outcome" where
  "dns_answers message =
     (if length message < 12 then Ok []
      else and_then (index message 4) (\<lambda>q0. and_then (index message 5) (\<lambda>q1.
        and_then (index message 6) (\<lambda>a0. and_then (index message 7) (\<lambda>a1.
        walk_answers (unat (be16 a0 a1)) message (skip_asked (unat (be16 q0 q1)) message 12))))))"

section \<open>Lemmas\<close>

text \<open>An IPv4 header with its checksum in place, before any payload.\<close>

lemma header_verifies:
  assumes "length h = 20"
  shows "checksum (take 10 h @ be_bytes 2 (ipv4_checksum (take 20 h)) @ drop 12 h) = 0"
  using ipv4_checksum_verifies[of h] assms by simp

lemma ones_complement_verifies:
  assumes "even (length before)" "length before + length after < 65000"
  shows "checksum (before @ be_bytes 2 (ones_complement (before @ [0, 0] @ after)) @ after) = 0"
proof -
  define s where "s = sum_add 0 (before @ [0, 0] @ after)"
  have n: "words_nat (before @ after) < 2 ^ 31" using words_nat_bound[of "before @ after"] assms(2) by simp
  have "words_nat (before @ [0, 0] @ after) = words_nat (before @ after)"
    using assms(1) by (simp add: words_nat_append_even)
  then have "unat s = words_nat (before @ after)"
    using sum_add_unat[of 0 "before @ [0, 0] @ after"] n by (simp add: s_def)
  from folded_field[OF this] show ?thesis
    unfolding ones_complement_def s_def by (intro field_verifies[OF n assms(1)])
qed

lemma walk_answers_total: "\<exists>as. walk_answers n message i = Ok as"
proof (induction n arbitrary: i)
  case (Suc n)
  then show ?case by (auto simp: Let_def out_simps and_then_eq_Ok)
qed simp

section \<open>The properties\<close>

text \<open>The checks' readers return on every packet and every message.\<close>

theorem checks_never_panic:
  "(\<exists>r. icmp_echo_reply packet ours ident = Ok r) \<and> (\<exists>r. udp_payload packet ours = Ok r) \<and>
   (\<exists>as. dns_answers message = Ok as)"
proof -
  have first: "index p 0 = Ok (p ! 0)" if "\<not> length p < 28" for p :: bytes
    using that by (intro index_Ok) linarith
  then show ?thesis using walk_answers_total
    by (auto simp: icmp_echo_reply_def udp_payload_def dns_answers_def out_simps first Let_def)
qed

text \<open>What the checks send verifies, and what comes back for it is recognised. An echo request carries an
  IP header and a message that both sum to zero; the same message back, its addresses swapped and its
  type a reply, is read as the sequence number it asked with; and a UDP datagram sent to an address is
  read there as its payload, unchanged.\<close>

theorem checks_recognised:
  assumes "length payload < 64000"
  shows "let echo = ipv4_icmp_echo us them ident seq payload; udp = ipv4_udp them us sport dport payload in
    checksum (take 20 echo) = 0 \<and> checksum (drop 20 echo) = 0 \<and>
    unat (be16 (echo ! 2) (echo ! 3)) = length echo \<and>
    icmp_echo_reply (take 12 echo @ be_bytes 4 them @ be_bytes 4 us @ [0] @ drop 21 echo) us ident = Ok (Some seq) \<and>
    checksum (take 20 udp) = 0 \<and> udp_payload udp us = Ok (Some payload)"
proof -
  define len :: "nat \<Rightarrow> u16" where "len n = of_nat n" for n
  have expand: "be_bytes 4 (a :: u32) = [ucast (drop_bit 24 a), ucast (drop_bit 16 a), ucast (drop_bit 8 a), ucast a]" for a
    by (simp add: numeral_eq_Suc)
  define icmp where "icmp = [8, 0] @ be_bytes 2 (ones_complement ([8, 0] @ [0, 0] @ be_bytes 2 ident @ be_bytes 2 seq @ payload)) @
    be_bytes 2 ident @ be_bytes 2 seq @ payload"
  define h where "h total protocol a b = [0x45, 0] @ be_bytes 2 (len total) @ [0, 0, 0x40, 0, 64, protocol, 0, 0] @
    be_bytes 4 a @ be_bytes 4 b" for total and protocol :: u8 and a b :: u32
  define summed where "summed h = take 10 h @ be_bytes 2 (ipv4_checksum (take 20 h)) @ drop 12 h" for h
  have l: "length (h total protocol a b) = 20" "length (summed (h total protocol a b)) = 20" for total protocol a b
    by (simp_all add: h_def summed_def)
  have v: "checksum (summed (h total protocol a b)) = 0" for total protocol a b
    unfolding summed_def by (rule header_verifies[OF l(1)])
  have echo: "ipv4_icmp_echo us them ident seq payload = summed (h (28 + length payload) 1 us them) @ icmp"
    by (simp add: ipv4_icmp_echo_def Let_def h_def summed_def icmp_def len_def be_bytes_two)
  have udp: "ipv4_udp them us sport dport payload = summed (h (28 + length payload) 17 them us) @
      be_bytes 2 sport @ be_bytes 2 dport @ be_bytes 2 (len (8 + length payload)) @ [0, 0] @ payload"
    by (simp add: ipv4_udp_def Let_def h_def summed_def len_def)
  have "checksum icmp = 0"
    using ones_complement_verifies[of "[8, 0]" "be_bytes 2 ident @ be_bytes 2 seq @ payload"] assms by (simp add: icmp_def)
  moreover have "unat (len (28 + length payload)) = 28 + length payload"
    using assms by (simp only: len_def unsigned_of_nat) (simp add: take_bit_nat_eq_self)
  moreover have "length icmp = 8 + length payload" by (simp add: icmp_def)
  moreover have "icmp_echo_reply (take 12 (summed (h (28 + length payload) 1 us them) @ icmp) @ be_bytes 4 them @
      be_bytes 4 us @ [0] @ drop 21 (summed (h (28 + length payload) 1 us them) @ icmp)) us ident = Ok (Some seq)"
    by (simp add: summed_def h_def icmp_def icmp_echo_reply_def out_simps Let_def be_bytes_two expand be16_be_bytes)
  moreover have "udp_payload (ipv4_udp them us sport dport payload) us = Ok (Some payload)"
    unfolding udp by (simp add: summed_def h_def udp_payload_def out_simps Let_def be_bytes_two expand)
  moreover have "unat (be16 (ipv4_icmp_echo us them ident seq payload ! 2) (ipv4_icmp_echo us them ident seq payload ! 3)) =
      unat (len (28 + length payload))"
    by (simp add: echo summed_def h_def be_bytes_two be16_be_bytes)
  ultimately show ?thesis using l v by (simp add: echo udp Let_def)
qed

theorem checks_recognised_witness:
  "udp_payload (ipv4_udp 0x01010101 0xAC100002 53 40000 [1, 2, 3]) 0xAC100002 = Ok (Some [1, 2, 3])"
  using checks_recognised[where payload = "[1, 2, 3]" and us = "0xAC100002" and them = "0x01010101"
      and sport = 53 and dport = 40000] by (simp add: Let_def)

end
