(* ===== verification/Diagnose_Runs.thy ===== *)
theory Diagnose_Runs
  imports Diagnose Connect_Ip
begin

text \<open>
  The two checks a person runs, \<open>src/diagnose/handshake.rs\<close> and \<open>src/diagnose/probe.rs\<close>: which ClientHello
  carries a tunnel over which carrier, and whether one name resolves through it. The tunnel is what its
  three calls come back with, in their order: whether each packet was taken, what arrived before each
  deadline, what each ping gave. Text that is only printed is the datatype of what it says.
\<close>

section \<open>Putting traffic through a tunnel\<close>

definition CARRY_PAYLOAD :: nat where "CARRY_PAYLOAD = 1200"
definition CARRY_ROUNDS :: nat where "CARRY_ROUNDS = 8"
definition CARRY_PER_ROUND :: nat where "CARRY_PER_ROUND = 8"
definition HOLD_ROUNDS :: nat where "HOLD_ROUNDS = 2"
definition CARRY_TARGET :: u32 where "CARRY_TARGET = 0x01010101"
definition CARRY_ID :: u16 where "CARRY_ID = 0x6d71"

datatype 'x arrival = Packet bytes | ClosedDown | RecvFailed 'x

text \<open>Sends answered with an error or none, arrivals with \<open>None\<close> where the deadline passed, pings with
  \<open>None\<close> where no answer came in time. Past the end of a list the send is taken, the deadline passes and the
  ping is not answered.\<close>

record 'x tunnel_calls =
  tc_sends :: "'x option list"
  tc_arrivals :: "'x arrival option list"
  tc_pings :: "('x + unit) option list"

record carrying =
  ca_seq :: u16
  ca_bytes :: nat
  ca_replies :: nat

datatype 'x carry_error =
    StoppedTaking nat 'x
  | ClosedAfter nat
  | FailedAfter nat 'x
  | TargetQuiet nat
  | Died nat
  | PingFailed nat nat 'x
  | PingUnanswered nat nat

definition carry_start :: carrying where
  "carry_start = \<lparr>ca_seq = 0, ca_bytes = 0, ca_replies = 0\<rparr>"

fun send_round :: "u32 \<Rightarrow> nat \<Rightarrow> 'x option list \<Rightarrow> carrying \<Rightarrow> ('x carry_error, carrying \<times> 'x option list) outcome" where
  "send_round inside 0 sends c = Ok (c, sends)"
| "send_round inside (Suc n) sends c =
     (if ca_seq c = 0xffff then Panic
      else
        let seq = ca_seq c + 1;
            packet = ipv4_icmp_echo inside CARRY_TARGET CARRY_ID seq (replicate CARRY_PAYLOAD 0x5a);
            c = c\<lparr>ca_seq := seq, ca_bytes := ca_bytes c + length packet\<rparr> in
        (case sends of
           [] \<Rightarrow> send_round inside n [] c
         | None # rest \<Rightarrow> send_round inside n rest c
         | Some problem # rest \<Rightarrow> Err (StoppedTaking (ca_bytes c) problem)))"

fun listen_round :: "u32 \<Rightarrow> 'x arrival option list \<Rightarrow> nat \<Rightarrow> carrying \<Rightarrow>
    ('x carry_error, nat \<times> carrying \<times> 'x arrival option list) outcome" where
  "listen_round inside [] this_round c = Ok (this_round, c, [])"
| "listen_round inside (a # rest) this_round c =
     (if \<not> this_round < CARRY_PER_ROUND then Ok (this_round, c, a # rest)
      else
        (case a of
           None \<Rightarrow> Ok (this_round, c, rest)
         | Some (Packet packet) \<Rightarrow>
             and_then (infallible (icmp_echo_reply packet inside CARRY_ID)) (\<lambda>reply.
               if reply \<noteq> None then listen_round inside rest (this_round + 1) (c\<lparr>ca_replies := ca_replies c + 1\<rparr>)
               else listen_round inside rest this_round c)
         | Some ClosedDown \<Rightarrow> Err (ClosedAfter (ca_bytes c))
         | Some (RecvFailed problem) \<Rightarrow> Err (FailedAfter (ca_bytes c) problem)))"

fun ping_answered :: "('x + unit) option list \<Rightarrow> bool" where
  "ping_answered (Some (Inr _) # _) = True"
| "ping_answered _ = False"

fun carry_rounds :: "u32 \<Rightarrow> nat \<Rightarrow> 'x tunnel_calls \<Rightarrow> carrying \<Rightarrow> ('x carry_error, carrying) outcome" where
  "carry_rounds inside 0 calls c = Ok c"
| "carry_rounds inside (Suc n) calls c =
     and_then (send_round inside CARRY_PER_ROUND (tc_sends calls) c) (\<lambda>(c, sends).
       and_then (listen_round inside (tc_arrivals calls) 0 c) (\<lambda>(this_round, c, arrivals).
         if this_round = 0 then
           (if ping_answered (tc_pings calls) then Err (TargetQuiet (ca_bytes c)) else Err (Died (ca_bytes c)))
         else carry_rounds inside n (calls\<lparr>tc_sends := sends, tc_arrivals := arrivals\<rparr>) c))"

fun hold_pings :: "nat \<Rightarrow> nat \<Rightarrow> ('x + unit) option list \<Rightarrow> carrying \<Rightarrow> ('x carry_error, carrying) outcome" where
  "hold_pings 0 round pings c = Ok c"
| "hold_pings (Suc n) round pings c =
     (case pings of
        Some (Inr _) # rest \<Rightarrow> hold_pings n (round + 1) rest c
      | Some (Inl problem) # _ \<Rightarrow> Err (PingFailed (ca_bytes c) round problem)
      | _ \<Rightarrow> Err (PingUnanswered (ca_bytes c) round))"

text \<open>No ping is asked while the rounds go well, so the pings of the hold are the first ones.\<close>

definition carry_and_hold :: "u32 \<Rightarrow> 'x tunnel_calls \<Rightarrow> ('x carry_error, carrying) outcome" where
  "carry_and_hold inside calls =
     and_then (carry_rounds inside CARRY_ROUNDS calls carry_start) (hold_pings HOLD_ROUNDS 1 (tc_pings calls))"

section \<open>Every strategy over every carrier\<close>

datatype ('e, 'x) measured =
    Carried stages carrying
  | DidNotCarry stages "'x carry_error"
  | NotOpened 'e
  | NoAnswer

text \<open>A row of the table; \<open>ro_tried\<close> and \<open>ro_shown\<close> are the carriers the attempt really went over and the
  ClientHello that was selected while it did.\<close>

record ('e, 'x) row =
  ro_strategy :: handshake
  ro_carrier :: carrier
  ro_tried :: "carrier list"
  ro_shown :: handshake
  ro_result :: "('e, 'x) measured"

definition carriers_for :: "handshake \<Rightarrow> carrier list" where
  "carriers_for strategy = (if works_over_quic strategy then [H2, H3] else [H2])"

fun choice_of :: "carrier \<Rightarrow> choice" where
  "choice_of H2 = ChoiceH2"
| "choice_of H3 = ChoiceH3"

text \<open>\<open>net\<close> is the link: what opening over a carrier with the process's choice gives, and whether it is known
  within the twenty seconds. An attempt that is not is dropped where it is.\<close>

type_synonym ('e, 'x) link_answer = "bool \<times> ('e + stages \<times> 'x tunnel_calls)"

definition measure_row :: "u32 \<Rightarrow> (handshake_choice \<Rightarrow> carrier \<Rightarrow> ('e, 'x) link_answer) \<Rightarrow> instant \<Rightarrow> handshake \<Rightarrow> carrier \<Rightarrow>
    handshake_choice \<times> carrier_state \<Rightarrow> (unit, ('e, 'x) row) outcome \<times> handshake_choice \<times> carrier_state" where
  "measure_row inside net now strategy c = (\<lambda>(hs, st).
     let st = carrier_select (choice_of c) st;
         (opened, tried, st') = connect (\<lambda>c. snd (net hs c)) hs now now st;
         in_time = (\<forall>c\<in>set tried. fst (net hs c));
         row = (\<lambda>r. \<lparr>ro_strategy = strategy, ro_carrier = c, ro_tried = tried, ro_shown = handshake_selected hs, ro_result = r\<rparr>)
     in (if \<not> in_time then Ok (row NoAnswer)
         else (case opened of
           Inl problem \<Rightarrow> Ok (row (NotOpened problem))
         | Inr (stages, calls) \<Rightarrow>
             (case carry_and_hold inside calls of
                Ok carried \<Rightarrow> Ok (row (Carried stages carried))
              | Err why \<Rightarrow> Ok (row (DidNotCarry stages why))
              | Panic \<Rightarrow> Panic)),
         hs, if in_time then st' else st))"

fun measure_rows :: "u32 \<Rightarrow> (handshake_choice \<Rightarrow> carrier \<Rightarrow> ('e, 'x) link_answer) \<Rightarrow> instant \<Rightarrow> (handshake \<times> carrier) list \<Rightarrow>
    handshake_choice \<times> carrier_state \<Rightarrow> (unit, ('e, 'x) row list) outcome" where
  "measure_rows inside net now [] s = Ok []"
| "measure_rows inside net now ((strategy, c) # todo) (hs, st) =
     (let (row, s) = measure_row inside net now strategy c (handshake_select strategy hs, st) in
      and_then row (\<lambda>row. and_then (measure_rows inside net now todo s) (\<lambda>rows. Ok (row # rows))))"

definition planned_rows :: "handshake option \<Rightarrow> (handshake \<times> carrier) list" where
  "planned_rows only =
     concat (map (\<lambda>strategy. map (Pair strategy) (carriers_for strategy))
       (filter (\<lambda>strategy. case only of None \<Rightarrow> True | Some h \<Rightarrow> h = strategy) handshake_ALL))"

fun did_carry :: "('e, 'x) measured \<Rightarrow> bool" where
  "did_carry (Carried _ _) = True"
| "did_carry _ = False"

definition held_over :: "carrier \<Rightarrow> ('e, 'x) row list \<Rightarrow> handshake list" where
  "held_over c rows = map ro_strategy (filter (\<lambda>r. ro_carrier r = c) (filter (\<lambda>r. did_carry (ro_result r)) rows))"

datatype verdict =
    NothingOpened
  | LinkDoesNotFilter "handshake list" bool
  | FrontedCarries
  | CarriesWith "handshake list"

definition verdict_of :: "handshake list \<Rightarrow> verdict" where
  "verdict_of over_h2 =
     (if over_h2 = [] then NothingOpened
      else if Named \<in> set over_h2 then LinkDoesNotFilter over_h2 (NoSni \<in> set over_h2)
      else if over_h2 = [Fronted] then FrontedCarries
      else CarriesWith over_h2)"

text \<open>The table, and the verdict with the strategies that held over HTTP/3 unless one strategy was asked for.\<close>

definition handshake_run :: "u32 \<Rightarrow> (handshake_choice \<Rightarrow> carrier \<Rightarrow> ('e, 'x) link_answer) \<Rightarrow> instant \<Rightarrow> handshake option \<Rightarrow>
    handshake_choice \<times> carrier_state \<Rightarrow> (unit, ('e, 'x) row list \<times> (verdict \<times> handshake list) option) outcome" where
  "handshake_run inside net now only s =
     and_then (measure_rows inside net now (planned_rows only) s) (\<lambda>rows.
       Ok (rows, if only \<noteq> None then None else Some (verdict_of (held_over H2 rows), held_over H3 rows)))"

section \<open>One name through the tunnel\<close>









section \<open>Lemmas\<close>

lemma echo_length: "length (ipv4_icmp_echo src dst ident seq body) = 28 + length body"
  by (simp add: ipv4_icmp_echo_def Let_def)

lemmas echo_read = conjunct1[OF checks_never_panic]


text \<open>A round of sends counts its packets and their bytes, and a round of listening at most eight replies.\<close>

lemma send_round_counts:
  fixes sends :: "'x option list"
  shows "unat (ca_seq c) + n < 0xffff \<Longrightarrow>
   send_round inside n sends c \<noteq> Panic \<and>
   (\<forall>c' rest. send_round inside n sends c = Ok (c', rest) \<longrightarrow>
      c' = \<lparr>ca_seq = ca_seq c + of_nat n, ca_bytes = ca_bytes c + n * 1228, ca_replies = ca_replies c\<rparr>)"
proof (induction n arbitrary: sends c)
  case (Suc n)
  define c1 where "c1 = c\<lparr>ca_seq := ca_seq c + 1, ca_bytes := ca_bytes c + 1228\<rparr>"
  have top: "ca_seq c \<noteq> 0xffff" using Suc.prems by auto
  have one: "unat (ca_seq c + 1) = unat (ca_seq c) + 1"
    using Suc.prems by (simp add: unat_word_ariths)
  have ih: "send_round inside n rest c1 \<noteq> Panic \<and>
    (\<forall>c' rest'. send_round inside n rest c1 = Ok (c', rest') \<longrightarrow>
      c' = \<lparr>ca_seq = ca_seq c + of_nat (Suc n), ca_bytes = ca_bytes c + Suc n * 1228, ca_replies = ca_replies c\<rparr>)" for rest :: "'x option list"
    using Suc.IH[of c1 rest] Suc.prems one by (simp add: c1_def algebra_simps)
  show ?case
  proof (cases sends)
    case Nil
    then show ?thesis using ih[of "[]"] top by (simp add: Let_def echo_length CARRY_PAYLOAD_def c1_def)
  next
    case (Cons a rest)
    then show ?thesis using ih[of rest] top
      by (cases a) (simp_all add: Let_def echo_length CARRY_PAYLOAD_def c1_def)
  qed
qed simp

lemma listen_reply:
  assumes "this_round < CARRY_PER_ROUND" "icmp_echo_reply packet inside CARRY_ID = Ok r"
  shows "listen_round inside (Some (Packet packet) # rest) this_round c =
    (if r \<noteq> None then listen_round inside rest (this_round + 1) (c\<lparr>ca_replies := ca_replies c + 1\<rparr>)
     else listen_round inside rest this_round c)"
  using assms by simp

lemma listen_full: "\<not> this_round < CARRY_PER_ROUND \<Longrightarrow> listen_round inside arrivals this_round c = Ok (this_round, c, arrivals)"
  by (cases arrivals) simp_all

lemma listen_round_returns: "listen_round inside arrivals this_round c \<noteq> Panic"
proof (induction arrivals arbitrary: this_round c)
  case (Cons a rest)
  show ?case
  proof (cases "this_round < CARRY_PER_ROUND")
    case few: True
    then show ?thesis
    proof (cases "\<exists>packet. a = Some (Packet packet)")
      case True
      then obtain packet where a: "a = Some (Packet packet)" by blast
      obtain r where "icmp_echo_reply packet inside CARRY_ID = Ok r" using echo_read by blast
      then show ?thesis using listen_reply[OF few] a Cons.IH by simp
    qed (cases a, auto split: arrival.split)
  qed (simp add: listen_full)
qed simp

lemma listen_round_counts:
  assumes "listen_round inside arrivals this_round c = Ok (this', c', rest)" "this_round \<le> CARRY_PER_ROUND"
  shows "this_round \<le> this' \<and> this' \<le> CARRY_PER_ROUND \<and> ca_seq c' = ca_seq c \<and> ca_bytes c' = ca_bytes c \<and>
    ca_replies c' + this_round = ca_replies c + this'"
  using assms
proof (induction arrivals arbitrary: this_round c)
  case (Cons a as)
  show ?case
  proof (cases "this_round < CARRY_PER_ROUND")
    case few: True
    then show ?thesis
    proof (cases "\<exists>packet. a = Some (Packet packet)")
      case True
      then obtain packet where a: "a = Some (Packet packet)" by blast
      obtain r where r: "icmp_echo_reply packet inside CARRY_ID = Ok r" using echo_read by blast
      note step = Cons.prems(1)[unfolded a listen_reply[OF few r]]
      show ?thesis
      proof (cases "r = None")
        case True
        then show ?thesis using Cons.IH[of this_round c] step Cons.prems(2) by simp
      next
        case False
        then have "listen_round inside as (this_round + 1) (c\<lparr>ca_replies := ca_replies c + 1\<rparr>) = Ok (this', c', rest)"
          using step by simp
        from Cons.IH[OF this] few show ?thesis by simp
      qed
    qed (use Cons.prems few in \<open>cases a; auto split: arrival.splits\<close>)
  qed (use Cons.prems in \<open>simp add: listen_full\<close>)
qed simp

text \<open>A round ends the run, or leaves eight packets more sent and at least one reply more.\<close>

lemma carry_rounds_step:
  assumes "unat (ca_seq c) + 8 * Suc n < 0xffff"
  shows "(\<exists>e. carry_rounds inside (Suc n) calls c = Err e) \<or>
    (\<exists>calls1 c1 k. carry_rounds inside (Suc n) calls c = carry_rounds inside n calls1 c1 \<and> 1 \<le> k \<and> k \<le> 8 \<and>
       unat (ca_seq c1) + 8 * n < 0xffff \<and> ca_seq c1 = ca_seq c + 8 \<and> ca_bytes c1 = ca_bytes c + 9824 \<and>
       ca_replies c1 = ca_replies c + k)"
proof -
  define sent where "sent = \<lparr>ca_seq = ca_seq c + 8, ca_bytes = ca_bytes c + 9824, ca_replies = ca_replies c\<rparr>"
  let ?send = "send_round inside CARRY_PER_ROUND (tc_sends calls) c"
  let ?listen = "listen_round inside (tc_arrivals calls) 0 sent"
  have s: "?send \<noteq> Panic" "\<And>c' rest. ?send = Ok (c', rest) \<Longrightarrow> c' = sent"
    using send_round_counts[of c 8 inside "tc_sends calls"] assms by (simp_all add: CARRY_PER_ROUND_def sent_def)
  show ?thesis
  proof (cases ?send)
    case (Ok out)
    then obtain rest where out: "?send = Ok (sent, rest)" using s(2) by (cases out) auto
    show ?thesis
    proof (cases ?listen)
      case (Ok heard)
      then obtain k c1 rest1 where heard: "?listen = Ok (k, c1, rest1)" by (cases heard) auto
      have k: "k \<le> 8" "ca_seq c1 = ca_seq c + 8" "ca_bytes c1 = ca_bytes c + 9824" "ca_replies c1 = ca_replies c + k"
        using listen_round_counts[OF heard] by (simp_all add: sent_def CARRY_PER_ROUND_def)
      have b: "unat (ca_seq c1) + 8 * n < 0xffff" using k(2) assms by (simp add: unat_word_ariths)
      show ?thesis
      proof (cases "k = 0")
        case False
        then have "carry_rounds inside (Suc n) calls c = carry_rounds inside n (calls\<lparr>tc_sends := rest, tc_arrivals := rest1\<rparr>) c1"
          by (simp add: out heard)
        moreover have "1 \<le> k" using False by simp
        ultimately show ?thesis using k b by blast
      qed (simp add: out heard)
    qed (simp_all add: out listen_round_returns)
  qed (use s(1) in simp_all)
qed

lemma carry_rounds_returns:
  assumes "unat (ca_seq c) + 8 * n < 0xffff"
  shows "carry_rounds inside n calls c \<noteq> Panic"
  using assms
proof (induction n arbitrary: calls c)
  case (Suc n)
  from carry_rounds_step[OF Suc.prems, of inside calls] show ?case
  proof (elim disjE exE conjE)
    fix calls1 c1
    assume "carry_rounds inside (Suc n) calls c = carry_rounds inside n calls1 c1" "unat (ca_seq c1) + 8 * n < 0xffff"
    then show ?thesis using Suc.IH by presburger
  qed (simp del: carry_rounds.simps)
qed simp


lemma hold_pings_keeps: "hold_pings n round pings c \<noteq> Panic \<and> (\<forall>c'. hold_pings n round pings c = Ok c' \<longrightarrow> c' = c)"
  by (induction n round pings c rule: hold_pings.induct) (auto split: list.split option.split sum.split)

lemma carry_and_hold_returns: "carry_and_hold inside calls \<noteq> Panic"
  using carry_rounds_returns[of carry_start CARRY_ROUNDS inside calls] hold_pings_keeps
  by (auto simp: carry_and_hold_def carry_start_def CARRY_ROUNDS_def and_then_eq_Panic)

lemma connect_chosen:
  assumes "c \<in> set (carriers_for strategy)"
  shows "connect over (handshake_select strategy hs) now later (carrier_select (choice_of c) st) =
    (over c, [c], carrier_select (choice_of c) st)"
proof -
  have sel: "handshake_selected (handshake_select strategy hs) = strategy"
    by (simp add: handshake_selected_def handshake_select_def handshake_from_code_code)
  have "c = H3 \<Longrightarrow> works_over_quic strategy" using assms by (auto simp: carriers_for_def split: if_splits)
  then show ?thesis by (cases c) (simp_all add: connect_def sel carrier_selected_select plan_def)
qed

lemma planned_carriers: "(strategy, c) \<in> set (planned_rows only) \<Longrightarrow> c \<in> set (carriers_for strategy)"
  by (auto simp: planned_rows_def)

lemma measure_row_named:
  assumes "c \<in> set (carriers_for strategy)"
  shows "\<exists>row s. measure_row inside net now strategy c (handshake_select strategy hs, st) = (Ok row, s) \<and>
    ro_strategy row = strategy \<and> ro_carrier row = c \<and> ro_tried row = [c] \<and> ro_shown row = strategy \<and>
    (did_carry (ro_result row) \<longleftrightarrow> (\<exists>stages calls carried. net (handshake_select strategy hs) c = (True, Inr (stages, calls)) \<and>
      carry_and_hold inside calls = Ok carried))"
proof -
  have sel: "handshake_selected (handshake_select strategy hs) = strategy"
    by (simp add: handshake_selected_def handshake_select_def handshake_from_code_code)
  obtain in_time opened where net: "net (handshake_select strategy hs) c = (in_time, opened)" by (cases "net (handshake_select strategy hs) c")
  show ?thesis
  proof (cases "\<exists>tunnel. in_time \<and> opened = Inr tunnel")
    case True
    then obtain stages calls where o: "in_time" "opened = Inr (stages, calls)" by auto
    show ?thesis using carry_and_hold_returns[of inside calls]
      by (cases "carry_and_hold inside calls") (simp_all add: measure_row_def connect_chosen[OF assms] net o sel)
  next
    case False
    then show ?thesis by (cases opened) (auto simp: measure_row_def connect_chosen[OF assms] net sel)
  qed
qed

lemma measure_rows_named:
  "(\<And>strategy c. (strategy, c) \<in> set todo \<Longrightarrow> c \<in> set (carriers_for strategy)) \<Longrightarrow>
   \<exists>rows. measure_rows inside net now todo s = Ok rows \<and> map (\<lambda>r. (ro_strategy r, ro_carrier r)) rows = todo \<and>
     map ro_tried rows = map (\<lambda>(_, c). [c]) todo \<and> map ro_shown rows = map fst todo"
proof (induction todo arbitrary: s)
  case (Cons first todo)
  obtain strategy c hs st where fs: "first = (strategy, c)" "s = (hs, st)" by fastforce
  then have "c \<in> set (carriers_for strategy)" using Cons.prems by simp
  from measure_row_named[OF this, of inside net now hs st] obtain row s'
    where row: "measure_row inside net now strategy c (handshake_select strategy hs, st) = (Ok row, s')"
      "ro_strategy row = strategy" "ro_carrier row = c" "ro_tried row = [c]" "ro_shown row = strategy" by blast
  obtain rows where "measure_rows inside net now todo s' = Ok rows" "map (\<lambda>r. (ro_strategy r, ro_carrier r)) rows = todo"
    "map ro_tried rows = map (\<lambda>(_, c). [c]) todo" "map ro_shown rows = map fst todo"
    using Cons.IH[of s'] Cons.prems by fastforce
  then show ?case using row by (simp add: fs)
qed simp

text \<open>What holds over a carrier is what carried in time when its row was measured.\<close>

lemma nothing_held: "held_over c rows = [] \<longleftrightarrow> (\<forall>r\<in>set rows. ro_carrier r = c \<longrightarrow> \<not> did_carry (ro_result r))"
  by (auto simp: held_over_def filter_empty_conv)

text \<open>A tunnel that takes every packet.\<close>

lemma send_round_taken:
  "unat (ca_seq c) + n < 0xffff \<Longrightarrow> send_round inside n [] c =
     Ok (\<lparr>ca_seq = ca_seq c + of_nat n, ca_bytes = ca_bytes c + n * 1228, ca_replies = ca_replies c\<rparr>, [])"
proof (induction n arbitrary: c)
  case (Suc n)
  have "ca_seq c \<noteq> 0xffff" using Suc.prems by auto
  moreover have "unat (ca_seq c + 1) = unat (ca_seq c) + 1" using Suc.prems by (simp add: unat_word_ariths)
  ultimately show ?case using Suc.IH Suc.prems
    by (simp add: Let_def echo_length CARRY_PAYLOAD_def algebra_simps)
qed simp

lemma carry_rounds_taken:
  assumes "unat (ca_seq c) + 8 < 0xffff" "tc_sends calls = []"
  shows "carry_rounds inside (Suc n) calls c =
    and_then (listen_round inside (tc_arrivals calls) 0
        \<lparr>ca_seq = ca_seq c + 8, ca_bytes = ca_bytes c + 9824, ca_replies = ca_replies c\<rparr>) (\<lambda>(this_round, c, arrivals).
      if this_round = 0 then
        (if ping_answered (tc_pings calls) then Err (TargetQuiet (ca_bytes c)) else Err (Died (ca_bytes c)))
      else carry_rounds inside n (calls\<lparr>tc_sends := [], tc_arrivals := arrivals\<rparr>) c)"
  using assms by (simp add: send_round_taken CARRY_PER_ROUND_def)


section \<open>Properties\<close>


text \<open>Every row of the table describes the attempt it names: the tunnel was tried over the row's carrier alone and
  with the row's strategy selected, whatever the process had chosen or parked before; and there is one row for
  each strategy and each carrier it works over, in the order of the strategies.\<close>

theorem rows_measured_as_named:
  "\<exists>rows. handshake_run inside net now only s =
       Ok (rows, if only \<noteq> None then None else Some (verdict_of (held_over H2 rows), held_over H3 rows)) \<and>
     map (\<lambda>r. (ro_strategy r, ro_carrier r)) rows = planned_rows only \<and>
     map ro_tried rows = map (\<lambda>(_, c). [c]) (planned_rows only) \<and> map ro_shown rows = map fst (planned_rows only)"
  using measure_rows_named[of "planned_rows only" inside net now s] planned_carriers[of _ _ only]
  by (fastforce simp: handshake_run_def)

text \<open>A target that stops answering echoes while its tunnels are alive makes the verdict the one of a blocked address:
  every strategy opened a tunnel that carried a whole round out and answered a ping, and what is printed is that
  nothing opened.\<close>

definition quiet_calls :: "unit tunnel_calls" where
  "quiet_calls = \<lparr>tc_sends = [], tc_arrivals = [], tc_pings = [Some (Inr ())]\<rparr>"

lemma carry_quiet: "carry_and_hold inside quiet_calls = Err (TargetQuiet 9824)"
proof -
  have "carry_rounds inside (Suc 7) quiet_calls carry_start = Err (TargetQuiet 9824)"
    by (subst carry_rounds_taken) (simp_all add: quiet_calls_def carry_start_def)
  moreover have "CARRY_ROUNDS = Suc 7" by (simp add: CARRY_ROUNDS_def)
  ultimately show ?thesis by (simp only: carry_and_hold_def and_then.simps)
qed

lemma measure_rows_quiet:
  "(\<And>strategy c. (strategy, c) \<in> set todo \<Longrightarrow> c \<in> set (carriers_for strategy)) \<Longrightarrow>
   \<exists>rows :: ('e, unit) row list. measure_rows inside (\<lambda>_ _. (True, Inr (stages, quiet_calls))) now todo s = Ok rows \<and>
     map ro_result rows = replicate (length todo) (DidNotCarry stages (TargetQuiet 9824))"
proof (induction todo arbitrary: s)
  case (Cons first todo)
  obtain strategy c hs st where fs: "first = (strategy, c)" "s = (hs, st)" by fastforce
  then have c: "c \<in> set (carriers_for strategy)" using Cons.prems by simp
  obtain s' where row: "measure_row inside (\<lambda>_ _. (True, Inr (stages, quiet_calls) :: 'e + stages \<times> unit tunnel_calls)) now strategy c (handshake_select strategy hs, st) =
      (Ok \<lparr>ro_strategy = strategy, ro_carrier = c, ro_tried = [c], ro_shown = handshake_selected (handshake_select strategy hs),
        ro_result = DidNotCarry stages (TargetQuiet 9824)\<rparr>, s')"
    by (simp add: measure_row_def connect_chosen[OF c] carry_quiet)
  obtain rows :: "('e, unit) row list" where "measure_rows inside (\<lambda>_ _. (True, Inr (stages, quiet_calls))) now todo s' = Ok rows"
    "map ro_result rows = replicate (length todo) (DidNotCarry stages (TargetQuiet 9824))"
    using Cons.IH[of s'] Cons.prems by fastforce
  then show ?case using row by (simp add: fs)
qed simp

theorem quiet_target_reads_blocked:
  "\<exists>rows :: ('e, unit) row list. handshake_run inside (\<lambda>_ _. (True, Inr (stages, quiet_calls))) now None s = Ok (rows, Some (NothingOpened, [])) \<and>
     map ro_result rows = replicate 8 (DidNotCarry stages (TargetQuiet 9824))"
proof -
  obtain rows :: "('e, unit) row list" where rows: "measure_rows inside (\<lambda>_ _. (True, Inr (stages, quiet_calls))) now (planned_rows None) s = Ok rows"
    "map ro_result rows = replicate (length (planned_rows None)) (DidNotCarry stages (TargetQuiet 9824))"
    using measure_rows_quiet[of "planned_rows None" inside stages now s] planned_carriers by blast
  have "set (map ro_result rows) \<subseteq> {DidNotCarry stages (TargetQuiet 9824)}" unfolding rows(2) by auto
  then have "held_over c rows = []" for c by (auto simp: nothing_held)
  moreover have "length (planned_rows None) = 8"
    by (simp add: planned_rows_def carriers_for_def works_over_quic_def handshake_ALL_def)
  ultimately show ?thesis using rows by (simp add: handshake_run_def verdict_of_def)
qed










end
