(* ===== verification/Tun_Session.thy ===== *)
theory Tun_Session
  imports Routes
begin

text \<open>
  The adapter's session, \<open>src/tun/mod.rs\<close>: the thread that reads it, the half that writes it, and how
  \<open>src/main.rs\<close> takes it down, as one step relation over the two threads and the driver; and the wait
  for the adapter's name.

  A call into the driver is one step. What Wintun forbids is recorded in the state as it happens: a
  call into a session that has ended, a session ended with a reader in it, an adapter closed before
  its session. The engine and the shutdown are one task, so nothing is written once stopping began.
\<close>

section \<open>Waiting for the name\<close>

text \<open>\<open>ask_once\<close> asks for the adapter at one instant and answers at a later one; \<open>wake\<close> is when a sleep of the
  poll interval begun then is over.\<close>

partial_function (option) create_waiting :: "(instant \<Rightarrow> (u32 + 'a) \<times> instant) \<Rightarrow> (instant \<Rightarrow> instant) \<Rightarrow>
    duration \<Rightarrow> duration \<Rightarrow> instant \<Rightarrow> instant \<Rightarrow> (tun_error + 'a) option" where
  "create_waiting ask_once wake budget poll deadline now =
     (case ask_once now of
        (Inr made, _) \<Rightarrow> Some (Inr made)
      | (Inl problem, now) \<Rightarrow>
          if problem \<noteq> ERROR_ALREADY_EXISTS then Some (Inl (TunCreate problem))
          else if deadline \<le> now + poll then Some (Inl (NameHeld budget))
          else create_waiting ask_once wake budget poll deadline (wake now))"

definition NAME_RELEASE_BUDGET :: duration where "NAME_RELEASE_BUDGET = from_secs 8"
definition NAME_RELEASE_POLL :: duration where "NAME_RELEASE_POLL = from_millis 250"

definition adapter_created :: "(instant \<Rightarrow> (u32 + 'a) \<times> instant) \<Rightarrow> (instant \<Rightarrow> instant) \<Rightarrow> instant \<Rightarrow>
    (tun_error + 'a) option" where
  "adapter_created ask_once wake now =
     create_waiting ask_once wake NAME_RELEASE_BUDGET NAME_RELEASE_POLL (now + NAME_RELEASE_BUDGET) now"

section \<open>The two threads\<close>

text \<open>Where the reader is: about to ask the ring, with a packet to give back to the ring, with one to push,
  waiting for an event, on its way out, gone.\<close>

datatype reader_at = Taking | Releasing bytes | Pushing bytes | Awaiting | Shutting | Gone

text \<open>Where the shutdown is: not begun, the reader asked, the reader seen to leave, the session ended, the
  adapter closed, or the process ended with both left to Windows.\<close>

datatype stopping = Carrying | Asked | Handed | Ended | Closed | Exited

record session =
  sn_ring :: "bytes list"
  sn_readable :: bool
  sn_quit :: bool
  sn_ended :: bool
  sn_reader :: reader_at
  sn_main :: stopping
  sn_queue_open :: bool
  sn_pushed :: "bytes list"
  sn_faults :: nat

definition session_start :: session where
  "session_start = \<lparr>sn_ring = [], sn_readable = False, sn_quit = False, sn_ended = False, sn_reader = Taking,
     sn_main = Carrying, sn_queue_open = True, sn_pushed = [], sn_faults = 0\<rparr>"

definition driver_call :: "session \<Rightarrow> session" where
  "driver_call s = (if sn_ended s then s\<lparr>sn_faults := sn_faults s + 1\<rparr> else s)"

definition inside :: "session \<Rightarrow> bool" where
  "inside s = (sn_reader s \<notin> {Shutting, Gone})"

definition stop_reading :: "session \<Rightarrow> session" where
  "stop_reading s = s\<lparr>sn_quit := True\<rparr>"

text \<open>\<open>ended.swap(true)\<close>: the session is ended once, whichever way this is reached.\<close>

definition session_close :: "session \<Rightarrow> session" where
  "session_close s =
     (if sn_ended s then s
      else s\<lparr>sn_ended := True, sn_faults := (if inside s then sn_faults s + 1 else sn_faults s)\<rparr>)"

text \<open>What the reader does next, where it can: \<open>recv\<close> up to the next call or wait, and the loop around it. With
  both events set, the first of the two in the list wins.\<close>

definition reader_turn :: "session \<Rightarrow> session option" where
  "reader_turn s =
     (case sn_reader s of
        Taking \<Rightarrow> Some (case sn_ring s of
            packet # ring \<Rightarrow> (driver_call s)\<lparr>sn_ring := ring, sn_reader := Releasing packet\<rparr>
          | [] \<Rightarrow> (driver_call s)\<lparr>sn_reader := Awaiting\<rparr>)
      | Releasing packet \<Rightarrow> Some ((driver_call s)\<lparr>sn_reader := Pushing packet\<rparr>)
      | Pushing packet \<Rightarrow> Some (if sn_queue_open s then s\<lparr>sn_pushed := sn_pushed s @ [packet], sn_reader := Taking\<rparr>
          else s\<lparr>sn_reader := Shutting\<rparr>)
      | Awaiting \<Rightarrow>
          if sn_readable s then Some (s\<lparr>sn_readable := False, sn_reader := Taking\<rparr>)
          else if sn_quit s then Some (s\<lparr>sn_reader := Shutting\<rparr>)
          else None
      | Shutting \<Rightarrow> Some (s\<lparr>sn_queue_open := False, sn_reader := Gone\<rparr>)
      | Gone \<Rightarrow> None)"

text \<open>The shutdown, in the order of \<open>cmd_up\<close>. The wait for the reader ends with it gone or with its time.\<close>

inductive session_step :: "session \<Rightarrow> session \<Rightarrow> bool" where
  arrives: "session_step s (s\<lparr>sn_ring := sn_ring s @ [packet], sn_readable := True\<rparr>)"
    if "sn_main s \<noteq> Exited" "\<not> sn_ended s"
| reads: "session_step s s'" if "sn_main s \<noteq> Exited" "reader_turn s = Some s'"
| fails: "session_step s ((driver_call s)\<lparr>sn_reader := Shutting\<rparr>)" if "sn_main s \<noteq> Exited" "sn_reader s = Taking"
| writes: "session_step s (driver_call s)" if "sn_main s = Carrying"
| stops: "session_step s ((stop_reading s)\<lparr>sn_main := Asked\<rparr>)" if "sn_main s = Carrying"
| handed: "session_step s (s\<lparr>sn_main := Handed\<rparr>)" if "sn_main s = Asked" "sn_reader s = Gone"
| gives_up: "session_step s (s\<lparr>sn_main := Exited\<rparr>)" if "sn_main s = Asked"
| closes: "session_step s ((session_close s)\<lparr>sn_main := Ended\<rparr>)" if "sn_main s = Handed"
| drops: "session_step s ((session_close s)\<lparr>sn_main := Closed, sn_faults := (if sn_ended s then sn_faults s else sn_faults s + 1)\<rparr>)"
    if "sn_main s = Ended"

inductive_cases session_stepE: "session_step s s'"

section \<open>Lemmas\<close>

definition session_ok :: "session \<Rightarrow> bool" where
  "session_ok s \<longleftrightarrow> sn_faults s = 0 \<and> sn_ended s = (sn_main s \<in> {Ended, Closed}) \<and>
     (sn_main s \<in> {Handed, Ended, Closed} \<longrightarrow> sn_reader s = Gone) \<and>
     sn_quit s = (sn_main s \<noteq> Carrying) \<and> sn_queue_open s = (sn_reader s \<noteq> Gone)"

lemma session_start_ok: "session_ok session_start"
  by (simp add: session_ok_def session_start_def)

lemma driver_call_ok: "session_ok s \<Longrightarrow> sn_reader s \<noteq> Gone \<or> sn_main s = Carrying \<Longrightarrow> driver_call s = s"
  by (cases "sn_main s") (auto simp: session_ok_def driver_call_def)

lemma reader_turn_ok:
  assumes "session_ok s" "reader_turn s = Some s'"
  shows "session_ok s'"
proof -
  have g: "sn_reader s \<noteq> Gone" using assms(2) by (auto simp: reader_turn_def)
  then have d: "driver_call s = s" using driver_call_ok[OF assms(1)] by simp
  have "sn_main s \<notin> {Handed, Ended, Closed}" "sn_queue_open s" using assms(1) g by (auto simp: session_ok_def)
  moreover have "sn_main s' = sn_main s \<and> sn_faults s' = sn_faults s \<and> sn_ended s' = sn_ended s \<and>
      sn_quit s' = sn_quit s \<and> sn_queue_open s' = (sn_reader s' \<noteq> Gone)"
    using assms(2) g \<open>sn_queue_open s\<close> unfolding reader_turn_def d
    by (cases "sn_reader s"; cases "sn_ring s") (auto split: if_splits)
  ultimately show ?thesis using assms(1) by (simp add: session_ok_def)
qed

lemma session_step_ok: "session_step s s' \<Longrightarrow> session_ok s \<Longrightarrow> session_ok s'"
proof (induction rule: session_step.induct)
  case (reads s s')
  then show ?case using reader_turn_ok by blast
next
  case (fails s)
  then show ?case using driver_call_ok[of s] by (auto simp: session_ok_def)
next
  case (writes s)
  then show ?case using driver_call_ok[of s] by auto
qed (auto simp: session_ok_def stop_reading_def session_close_def inside_def)

lemma session_steps_ok: "session_step\<^sup>*\<^sup>* s s' \<Longrightarrow> session_ok s \<Longrightarrow> session_ok s'"
  by (induction rule: rtranclp_induct) (auto intro: session_step_ok)

text \<open>The reader left to itself, for so many turns or until it waits.\<close>

fun reader_runs :: "nat \<Rightarrow> session \<Rightarrow> session" where
  "reader_runs 0 s = s"
| "reader_runs (Suc n) s = (case reader_turn s of None \<Rightarrow> s | Some s' \<Rightarrow> reader_runs n s')"

text \<open>How many turns are left to it, and the packet it has in hand.\<close>

definition turns_left :: "session \<Rightarrow> nat" where
  "turns_left s = (let taking = 3 * length (sn_ring s) + (if sn_readable s then 5 else 3) in
     case sn_reader s of
       Taking \<Rightarrow> taking | Releasing _ \<Rightarrow> taking + 2 | Pushing _ \<Rightarrow> taking + 1
     | Awaiting \<Rightarrow> if sn_readable s then 3 * length (sn_ring s) + 4 else 2
     | Shutting \<Rightarrow> 1 | Gone \<Rightarrow> 0)"

definition in_hand :: "session \<Rightarrow> bytes list" where
  "in_hand s = (case sn_reader s of Releasing packet \<Rightarrow> [packet] | Pushing packet \<Rightarrow> [packet] | _ \<Rightarrow> [])"

definition noticed :: "session \<Rightarrow> bool" where
  "noticed s \<longleftrightarrow> (sn_reader s = Awaiting \<and> \<not> sn_readable s \<longrightarrow> sn_ring s = [])"

lemma noticed_step: "session_step s s' \<Longrightarrow> noticed s \<Longrightarrow> session_ok s \<Longrightarrow> noticed s'"
  by (erule session_stepE)
    (auto simp: noticed_def reader_turn_def driver_call_def stop_reading_def session_close_def
      split: reader_at.splits list.splits if_splits)

lemma session_reached:
  "session_step\<^sup>*\<^sup>* session_start s \<Longrightarrow> session_ok s \<and> noticed s"
proof (induction rule: rtranclp_induct)
  case base
  then show ?case by (simp add: session_start_ok) (simp add: noticed_def session_start_def)
next
  case (step s s')
  then show ?case using session_step_ok noticed_step by blast
qed

lemma turn_taken:
  assumes "session_ok s" "noticed s" "sn_quit s" "reader_turn s = Some s'"
  shows "turns_left s = turns_left s' + 1 \<and> sn_quit s' \<and> session_ok s' \<and> noticed s' \<and>
    (inside s \<longrightarrow> sn_pushed s' @ in_hand s' @ sn_ring s' = sn_pushed s @ in_hand s @ sn_ring s) \<and>
    (\<not> inside s \<longrightarrow> sn_pushed s' = sn_pushed s \<and> \<not> inside s') \<and> (inside s \<and> \<not> inside s' \<longrightarrow> in_hand s' @ sn_ring s' = [])"
proof -
  have g: "sn_reader s \<noteq> Gone" using assms(4) by (auto simp: reader_turn_def)
  then have d: "driver_call s = s" "sn_queue_open s" using driver_call_ok[OF assms(1)] assms(1) by (auto simp: session_ok_def)
  have "turns_left s = turns_left s' + 1 \<and> sn_quit s' \<and> noticed s' \<and>
    (inside s \<longrightarrow> sn_pushed s' @ in_hand s' @ sn_ring s' = sn_pushed s @ in_hand s @ sn_ring s) \<and>
    (\<not> inside s \<longrightarrow> sn_pushed s' = sn_pushed s \<and> \<not> inside s') \<and> (inside s \<and> \<not> inside s' \<longrightarrow> in_hand s' @ sn_ring s' = [])"
    using assms(2-4) d(2) unfolding reader_turn_def d(1)
    by (cases "sn_reader s"; cases "sn_ring s")
      (auto simp: turns_left_def in_hand_def inside_def noticed_def split: if_splits)
  then show ?thesis using reader_turn_ok[OF assms(1,4)] by blast
qed

lemma turns_run:
  assumes "session_ok s" "noticed s" "sn_quit s" "turns_left s \<le> n"
  shows "sn_reader (reader_runs n s) = Gone \<and>
    sn_pushed (reader_runs n s) = sn_pushed s @ (if inside s then in_hand s @ sn_ring s else [])"
  using assms
proof (induction n arbitrary: s)
  case 0
  then show ?case by (auto simp: turns_left_def inside_def Let_def split: reader_at.splits if_splits)
next
  case (Suc n)
  show ?case
  proof (cases "reader_turn s")
    case None
    then have "sn_reader s = Gone" using Suc.prems(3) by (auto simp: reader_turn_def split: reader_at.splits if_splits)
    then show ?thesis using None by (simp add: inside_def)
  next
    case (Some s')
    note t = turn_taken[OF Suc.prems(1,2,3) Some]
    then have "turns_left s' \<le> n" using Suc.prems(4) by simp
    from Suc.IH[OF _ _ _ this] t show ?thesis using Some by (cases "inside s"; cases "inside s'") auto
  qed
qed

lemma names_waited:
  assumes clock: "\<And>t. t \<le> snd (ask_once t)" "\<And>t. t + poll \<le> wake t" and poll: "0 < poll"
    and "now + k * poll \<ge> deadline"
  shows "\<exists>n\<le>k. let at = (\<lambda>i. ((\<lambda>t. wake (snd (ask_once t))) ^^ i) now) in
    (\<forall>i<n. fst (ask_once (at i)) = Inl ERROR_ALREADY_EXISTS \<and> snd (ask_once (at i)) + poll < deadline) \<and>
    create_waiting ask_once wake budget poll deadline now =
      Some (case fst (ask_once (at n)) of Inr made \<Rightarrow> Inr made
        | Inl problem \<Rightarrow> Inl (if problem = ERROR_ALREADY_EXISTS then NameHeld budget else TunCreate problem)) \<and>
    (fst (ask_once (at n)) = Inl ERROR_ALREADY_EXISTS \<longrightarrow> deadline \<le> snd (ask_once (at n)) + poll)"
  using assms(4)
proof (induction k arbitrary: now)
  case 0
  have "deadline \<le> snd (ask_once now) + poll" using 0 clock(1)[of now] by simp
  then show ?case by (auto simp: create_waiting.simps[of _ _ _ _ _ now] split: prod.splits sum.splits)
next
  case (Suc k)
  show ?case
  proof (cases "fst (ask_once now) = Inl ERROR_ALREADY_EXISTS \<and> snd (ask_once now) + poll < deadline")
    case False
    then show ?thesis
      by (intro exI[of _ 0]) (auto simp: create_waiting.simps[of _ _ _ _ _ now] split: prod.splits sum.splits)
  next
    case True
    let ?next = "wake (snd (ask_once now))"
    have "deadline \<le> ?next + k * poll" using Suc.prems clock(1)[of now] clock(2)[of "snd (ask_once now)"] by simp
    from Suc.IH[OF this] obtain n where n: "n \<le> k" "let at = (\<lambda>i. ((\<lambda>t. wake (snd (ask_once t))) ^^ i) ?next) in
      (\<forall>i<n. fst (ask_once (at i)) = Inl ERROR_ALREADY_EXISTS \<and> snd (ask_once (at i)) + poll < deadline) \<and>
      create_waiting ask_once wake budget poll deadline ?next =
        Some (case fst (ask_once (at n)) of Inr made \<Rightarrow> Inr made
          | Inl problem \<Rightarrow> Inl (if problem = ERROR_ALREADY_EXISTS then NameHeld budget else TunCreate problem)) \<and>
      (fst (ask_once (at n)) = Inl ERROR_ALREADY_EXISTS \<longrightarrow> deadline \<le> snd (ask_once (at n)) + poll)" by blast
    have again: "create_waiting ask_once wake budget poll deadline now = create_waiting ask_once wake budget poll deadline ?next"
      using True by (cases "ask_once now") (simp add: create_waiting.simps[of _ _ _ _ _ now])
    show ?thesis using n True unfolding again Let_def
      by (intro exI[of _ "Suc n"]) (auto simp: funpow_swap1 less_Suc_eq_0_disj simp del: funpow.simps(2) simp add: funpow_Suc_right)
  qed
qed

section \<open>The properties\<close>

text \<open>C32. In every order of packets, reads, writes, failures and the steps of the shutdown, the driver is never
  misused: no call goes into an ended session, no session is ended with its reader in it, no adapter is
  closed before its session. Ended means the reader has gone; a process that gives up waiting for the
  reader ends with the session as it was.\<close>

theorem session_never_misused:
  assumes "session_step\<^sup>*\<^sup>* session_start s"
  shows "sn_faults s = 0 \<and> (sn_ended s \<longrightarrow> sn_reader s = Gone) \<and> (sn_main s = Closed \<longrightarrow> sn_ended s) \<and>
    (sn_main s = Exited \<longrightarrow> \<not> sn_ended s)"
  using session_reached[OF assms] by (auto simp: session_ok_def)

text \<open>C33. A reader that was asked to stop leaves, having handed over everything the ring held and nothing else,
  within three turns for each packet and seven more, when no further packet arrives: wherever it was,
  with whatever it had in hand.\<close>

theorem reader_leaves:
  assumes "session_step\<^sup>*\<^sup>* session_start s" "sn_quit s" "3 * length (sn_ring s) + 7 \<le> n" "inside s"
  shows "sn_reader (reader_runs n s) = Gone \<and>
    sn_pushed (reader_runs n s) = sn_pushed s @ in_hand s @ sn_ring s"
proof -
  have "turns_left s \<le> 3 * length (sn_ring s) + 7" by (auto simp: turns_left_def Let_def split: reader_at.split)
  then have "turns_left s \<le> n" using assms(3) by simp
  with turns_run[of s n] session_reached[OF assms(1)] assms(2,4) show ?thesis by simp
qed

text \<open>A reader that is never without a packet does not notice that it was asked to stop: it looks at the
  event only when the ring is empty, and then at the other event first. Whatever the number of packets
  that come one after another, it reads and pushes them all and is where it was; what is left to the
  shutdown is to give up on it.\<close>

theorem reader_outrun:
  assumes "session_step\<^sup>*\<^sup>* session_start s" "sn_main s = Asked" "sn_reader s = Taking" "sn_ring s = []"
  shows "\<exists>s'. (session_step ^^ (4 * length packets)) s s' \<and> sn_quit s' \<and> sn_reader s' = Taking \<and> sn_ring s' = [] \<and>
    sn_pushed s' = sn_pushed s @ packets \<and> session_step s' (s'\<lparr>sn_main := Exited\<rparr>)"
proof -
  have cycle: "\<exists>s'. (session_step ^^ 4) s s' \<and> session_ok s' \<and> sn_main s' = Asked \<and> sn_reader s' = Taking \<and> sn_ring s' = [] \<and>
      sn_pushed s' = sn_pushed s @ [packet]"
    if s: "session_ok s" "sn_main s = Asked" "sn_reader s = Taking" "sn_ring s = []" for s packet
  proof -
    have e: "\<not> sn_ended s" "sn_queue_open s" using s by (simp_all add: session_ok_def)
    define s1 where "s1 = s\<lparr>sn_ring := sn_ring s @ [packet], sn_readable := True\<rparr>"
    define s2 where "s2 = s1\<lparr>sn_ring := [], sn_reader := Releasing packet\<rparr>"
    define s3 where "s3 = s2\<lparr>sn_reader := Pushing packet\<rparr>"
    define s4 where "s4 = s3\<lparr>sn_pushed := sn_pushed s3 @ [packet], sn_reader := Taking\<rparr>"
    have "session_step s s1" unfolding s1_def by (rule arrives) (use s e in simp_all)
    moreover have "session_step s1 s2" "session_step s2 s3" "session_step s3 s4"
      by (rule reads; use s e in \<open>simp add: s1_def s2_def s3_def s4_def reader_turn_def driver_call_def\<close>)+
    ultimately have "(session_step ^^ 4) s s4" by (simp add: numeral_eq_Suc) blast
    moreover have "session_ok s4" using s by (simp add: session_ok_def s1_def s2_def s3_def s4_def)
    ultimately show ?thesis using s by (intro exI[of _ s4]) (simp add: s1_def s2_def s3_def s4_def)
  qed
  have "\<exists>s'. (session_step ^^ (4 * length packets)) s s' \<and> session_ok s' \<and> sn_main s' = Asked \<and> sn_reader s' = Taking \<and>
      sn_ring s' = [] \<and> sn_pushed s' = sn_pushed s @ packets"
    using session_reached[OF assms(1)] assms(2-4)
  proof (induction packets arbitrary: s)
    case (Cons packet packets)
    obtain s1 where s1: "(session_step ^^ 4) s s1" "session_ok s1" "sn_main s1 = Asked" "sn_reader s1 = Taking" "sn_ring s1 = []"
      "sn_pushed s1 = sn_pushed s @ [packet]" using cycle[of s packet] Cons.prems by blast
    have "noticed s1" using s1(4) by (simp add: noticed_def)
    with Cons.IH[of s1] s1 obtain s2 where s2: "(session_step ^^ (4 * length packets)) s1 s2" "session_ok s2" "sn_main s2 = Asked"
      "sn_reader s2 = Taking" "sn_ring s2 = []" "sn_pushed s2 = sn_pushed s1 @ packets" by blast
    have "(session_step ^^ (4 + 4 * length packets)) s s2" unfolding relpowp_add using s1(1) s2(1) by blast
    then show ?case using s2 s1(6) by (intro exI[of _ s2]) simp
  qed simp
  then obtain s' where "(session_step ^^ (4 * length packets)) s s'" "session_ok s'" "sn_main s' = Asked" "sn_reader s' = Taking"
    "sn_ring s' = []" "sn_pushed s' = sn_pushed s @ packets" by blast
  then show ?thesis using gives_up[of s'] by (intro exI[of _ s']) (simp add: session_ok_def)
qed

text \<open>Waiting for the adapter's name ends, after at most one attempt more than the budget holds intervals.
  Every attempt but the last was told that the name is held, with time for another; the last one's
  answer is the result: the adapter, a refusal of another kind at once, or that the name was held all
  along, no sooner than an interval before the deadline.\<close>

theorem name_waited_for:
  assumes "\<And>t. t \<le> snd (ask_once t)" "\<And>t. t + poll \<le> wake t" "0 < poll" "budget \<le> k * poll"
  shows "\<exists>n\<le>k. let at = (\<lambda>i. ((\<lambda>t. wake (snd (ask_once t))) ^^ i) now) in
    (\<forall>i<n. fst (ask_once (at i)) = Inl ERROR_ALREADY_EXISTS \<and> snd (ask_once (at i)) + poll < now + budget) \<and>
    create_waiting ask_once wake budget poll (now + budget) now =
      Some (case fst (ask_once (at n)) of Inr made \<Rightarrow> Inr made
        | Inl problem \<Rightarrow> Inl (if problem = ERROR_ALREADY_EXISTS then NameHeld budget else TunCreate problem)) \<and>
    (fst (ask_once (at n)) = Inl ERROR_ALREADY_EXISTS \<longrightarrow> now + budget \<le> snd (ask_once (at n)) + poll)"
  by (rule names_waited[OF assms(1-3)]) (use assms(4) in simp_all)

section \<open>Runs\<close>

lemma asked_reached:
  "session_step\<^sup>*\<^sup>* session_start (session_start\<lparr>sn_quit := True, sn_main := Asked\<rparr>)"
  using stops[of session_start] by (auto simp: session_start_def stop_reading_def)

lemma packet_reached:
  "session_step\<^sup>*\<^sup>* session_start
     (session_start\<lparr>sn_quit := True, sn_main := Asked, sn_ring := [packet], sn_readable := True\<rparr>)"
  using rtranclp.rtrancl_into_rtrancl[OF asked_reached arrives[of _ packet]] by (simp add: session_start_def)

theorem session_never_misused_witness:
  "\<exists>s. session_step\<^sup>*\<^sup>* session_start s \<and> sn_main s = Closed \<and> sn_faults s = 0"
proof -
  define s1 where "s1 = session_start\<lparr>sn_quit := True, sn_main := Asked\<rparr>"
  define s2 where "s2 = s1\<lparr>sn_reader := Awaiting\<rparr>"
  define s3 where "s3 = s2\<lparr>sn_reader := Shutting\<rparr>"
  define s4 where "s4 = s3\<lparr>sn_queue_open := False, sn_reader := Gone\<rparr>"
  define s5 where "s5 = s4\<lparr>sn_main := Handed\<rparr>"
  define s6 where "s6 = s5\<lparr>sn_ended := True, sn_main := Ended\<rparr>"
  define s7 where "s7 = s6\<lparr>sn_main := Closed\<rparr>"
  note defs = s1_def s2_def s3_def s4_def s5_def s6_def s7_def session_start_def
  have "session_step s1 s2" "session_step s2 s3" "session_step s3 s4"
    by (rule reads; simp add: defs reader_turn_def driver_call_def)+
  moreover have "session_step s4 s5" using handed[of s4] by (simp add: defs)
  moreover have "session_step s5 s6" using closes[of s5] by (simp add: defs session_close_def inside_def)
  moreover have "session_step s6 s7" using drops[of s6] by (simp add: defs session_close_def)
  ultimately have "session_step\<^sup>*\<^sup>* session_start s7"
    using asked_reached[folded s1_def] by (meson rtranclp.rtrancl_into_rtrancl)
  moreover have "sn_main s7 = Closed" by (simp add: s7_def)
  ultimately show ?thesis using session_never_misused by blast
qed

theorem reader_leaves_witness:
  "sn_reader (reader_runs 10 (session_start\<lparr>sn_quit := True, sn_main := Asked, sn_ring := [[7]], sn_readable := True\<rparr>)) = Gone \<and>
   sn_pushed (reader_runs 10 (session_start\<lparr>sn_quit := True, sn_main := Asked, sn_ring := [[7]], sn_readable := True\<rparr>)) = [[7]]"
  using reader_leaves[OF packet_reached[of "[7]"], of 10] by (simp add: session_start_def inside_def in_hand_def)

theorem reader_outrun_witness:
  "\<exists>s'. (session_step ^^ 8) (session_start\<lparr>sn_quit := True, sn_main := Asked\<rparr>) s' \<and> sn_quit s' \<and> sn_reader s' = Taking \<and>
     sn_pushed s' = [[7], [8]]"
  using reader_outrun[OF asked_reached, of "[[7], [8]]"] by (auto simp: session_start_def)

definition held_until :: "instant \<Rightarrow> instant \<Rightarrow> (u32 + unit) \<times> instant" where
  "held_until free t = (if t < free then Inl ERROR_ALREADY_EXISTS else Inr (), t)"

theorem name_waited_for_witness:
  "\<exists>n\<le>4. let at = (\<lambda>i. ((\<lambda>t. snd (held_until 6 t) + 5) ^^ i) 0) in
      create_waiting (held_until 6) (\<lambda>t. t + 5) 20 5 (0 + 20) 0 = Some (case fst (held_until 6 (at n)) of Inr made \<Rightarrow> Inr made
        | Inl problem \<Rightarrow> Inl (if problem = ERROR_ALREADY_EXISTS then NameHeld 20 else TunCreate problem))"
  using name_waited_for[of "held_until 6" 5 "\<lambda>t. t + 5" 20 4 0] by (fastforce simp: held_until_def Let_def)

end
