(* ===== verification/Opening.thy ===== *)
theory Opening
  imports Quic Engine
begin

text \<open>
  Opening a tunnel over either carrier: \<open>connect\<close> of \<open>src/transport/quic.rs\<close> and of
  \<open>src/transport/tcp.rs\<close>, stage by stage. What each call into a library answered, and when, is a
  parameter; the order of the stages, their time limits, what each failure is reported as and what the
  connection is closed with are the code's.

  A call that answers is its answer with the instant; one that never does is \<open>None\<close>.
\<close>

section \<open>Limits\<close>

definition HANDSHAKE_WAIT :: duration where "HANDSHAKE_WAIT = from_secs 4"
definition EXCHANGE_WAIT :: duration where "EXCHANGE_WAIT = from_secs 4"
definition PATH_WAIT :: duration where "PATH_WAIT = from_secs 2"
definition PATH_POLL :: duration where "PATH_POLL = from_millis 20"
definition CODE_NO_ERROR :: u64 where "CODE_NO_ERROR = 0x100"

type_synonym 'a timed = "('a \<times> instant) option"

text \<open>\<open>timeout(wait, ..)\<close> begun at \<open>start\<close>: what came in time, and when the waiting was over.\<close>

definition within :: "duration \<Rightarrow> instant \<Rightarrow> 'a timed \<Rightarrow> 'a option \<times> instant" where
  "within wait start answered =
     (case answered of
        Some (a, t) \<Rightarrow> if t \<le> start + wait then (Some a, t) else (None, start + wait)
      | None \<Rightarrow> (None, start + wait))"

text \<open>An awaited call whose error is passed on with \<open>?\<close>.\<close>

definition awaited :: "('x + 'a) timed \<Rightarrow> ('x \<Rightarrow> 'e) \<Rightarrow> ('a \<Rightarrow> instant \<Rightarrow> ('e, 'b) outcome timed) \<Rightarrow> ('e, 'b) outcome timed" where
  "awaited answered wrap rest =
     (case answered of
        None \<Rightarrow> None
      | Some (Inl problem, t) \<Rightarrow> Some (Err (wrap problem), t)
      | Some (Inr a, t) \<Rightarrow> rest a t)"

section \<open>HTTP/3\<close>

record 'x h3_run =
  h3_tls :: "'x + unit"
  h3_crypto :: "string + unit"
  h3_socket :: "'x + unit"
  h3_endpoint :: "'x + unit"
  h3_dial :: "string + unit"
  h3_handshake :: "(string + unit) timed"
  h3_open_uni :: "('x + unit) timed"
  h3_preface :: "('x + unit) timed"
  h3_settings :: "('x option + peer_settings) timed"
  h3_open_bi :: "('x + unit) timed"
  h3_request :: "('x + unit) timed"
  h3_reads :: "'x response_read list"
  h3_answered :: instant
  h3_stream :: u64
  h3_rooms :: "(nat option \<times> 'x option \<times> instant) list"
  h3_ended :: "ended option"

text \<open>SETTINGS both ways, then the request; the status comes with when SETTINGS did.\<close>

definition h3_exchange :: "(bytes \<Rightarrow> 'st option) \<Rightarrow> ('st \<Rightarrow> bool) \<Rightarrow> 'x h3_run \<Rightarrow>
    (('x, 'st) connect_error, 'st \<times> instant) outcome timed" where
  "h3_exchange from_bytes interim run =
     awaited (h3_open_uni run) Quic (\<lambda>_ _. awaited (h3_preface run) QuicWrite (\<lambda>_ _.
     awaited (h3_settings run) (\<lambda>lost. case lost of Some x \<Rightarrow> Quic x | None \<Rightarrow> H3Broken ControlClosed) (\<lambda>offered settled.
       if \<not> h3_datagram offered then Some (Err (H3Unfit ''the endpoint does not offer HTTP datagrams''), settled)
       else if \<not> extended_connect offered then Some (Err (H3Unfit ''the endpoint does not offer extended CONNECT''), settled)
       else awaited (h3_open_bi run) Quic (\<lambda>_ _. awaited (h3_request run) QuicWrite (\<lambda>_ _.
         (case read_response from_bytes interim frame_reader_new (h3_reads run) of
            None \<Rightarrow> None
          | Some (Ok status) \<Rightarrow> Some (Ok (status, settled), h3_answered run)
          | Some (Err problem) \<Rightarrow> Some (Err problem, h3_answered run)
          | Some Panic \<Rightarrow> Some (Panic, h3_answered run)))))))"

text \<open>What the connection was closed with for a failed exchange, and what is reported instead of it.\<close>

definition exchange_closes :: "('x, 'st) connect_error \<Rightarrow> u64 list" where
  "exchange_closes problem = (case problem of H3Broken e \<Rightarrow> [h3_code e] | _ \<Rightarrow> [])"

definition explained :: "ended option \<Rightarrow> ('x, 'st) connect_error \<Rightarrow> ('x, 'st) connect_error" where
  "explained ended problem = (case ended of Some e \<Rightarrow> ended_error e | None \<Rightarrow> problem)"

text \<open>When the waiting for room was over.\<close>

fun room_until :: "nat \<Rightarrow> instant \<Rightarrow> (nat option \<times> 'x option \<times> instant) list \<Rightarrow> instant option" where
  "room_until needed deadline [] = None"
| "room_until needed deadline ((room, lost, now) # turns) =
     (if room = None \<or> the room \<ge> needed \<or> lost \<noteq> None \<or> now \<ge> deadline then Some now
      else room_until needed deadline turns)"

text \<open>An opening that came to an end: the result with the stream of the request, what the connection was
  closed with, and when. Once there is a connection every way out but success closes it.\<close>

type_synonym ('x, 'st) opening_end = "((('x, 'st) connect_error, stages \<times> u64) outcome \<times> u64 list \<times> instant) option"

definition unanswered :: "handshake_choice \<Rightarrow> ('x, 'st) connect_error" where
  "unanswered shape = (let h = handshake_selected shape in
     H3Unanswered (case sni shape h of Some name \<Rightarrow> name | None \<Rightarrow> ''none'') (handshake_name h))"

definition after_handshake :: "(bytes \<Rightarrow> 'st option) \<Rightarrow> ('st \<Rightarrow> bool) \<Rightarrow> ('st \<Rightarrow> bool) \<Rightarrow> handshake_choice \<Rightarrow> nat \<Rightarrow>
    duration \<Rightarrow> instant \<Rightarrow> 'x h3_run \<Rightarrow> ('x, 'st) opening_end" where
  "after_handshake from_bytes interim success shape largest quic_took start run =
     (case within EXCHANGE_WAIT start (h3_exchange from_bytes interim run) of
        (None, t) \<Rightarrow> Some (Err (unanswered shape), [CODE_NO_ERROR], t)
      | (Some Panic, t) \<Rightarrow> Some (Panic, [CODE_NO_ERROR], t)
      | (Some (Err problem), t) \<Rightarrow>
          Some (Err (explained (h3_ended run) problem), exchange_closes problem @ [CODE_NO_ERROR], t)
      | (Some (Ok (status, settled)), t) \<Rightarrow>
          if \<not> success status then Some (Err (H3Refused status), [CODE_NO_ERROR], t)
          else
            let needed = largest + datagram_overhead (h3_stream run) in
            (case (wait_for_room needed (t + PATH_WAIT) (h3_rooms run), room_until needed (t + PATH_WAIT) (h3_rooms run)) of
               (Some (Ok _), Some until) \<Rightarrow>
                 Some (Ok (StagesH3 (as_millis quic_took) (as_millis (settled - start)) (as_millis (until - settled)), h3_stream run), [], until)
             | (Some (Err problem), Some until) \<Rightarrow> Some (Err problem, [CODE_NO_ERROR], until)
             | _ \<Rightarrow> None))"

definition connect_h3_at :: "(bytes \<Rightarrow> 'st option) \<Rightarrow> ('st \<Rightarrow> bool) \<Rightarrow> ('st \<Rightarrow> bool) \<Rightarrow> handshake_choice \<Rightarrow> nat \<Rightarrow>
    instant \<Rightarrow> 'x h3_run \<Rightarrow> ('x, 'st) opening_end" where
  "connect_h3_at from_bytes interim success shape largest start run =
     (let failed = (\<lambda>problem. Some (Err problem, [], start)) in
      case h3_tls run of
        Inl x \<Rightarrow> failed (TlsSetup x)
      | Inr _ \<Rightarrow>
     (case h3_crypto run of
        Inl problem \<Rightarrow> failed (QuicUnavailable (''the TLS setup cannot run inside QUIC: '' @ problem))
      | Inr _ \<Rightarrow>
     (case h3_socket run of
        Inl x \<Rightarrow> failed (Io x)
      | Inr _ \<Rightarrow>
     (case h3_endpoint run of
        Inl x \<Rightarrow> failed (Io x)
      | Inr _ \<Rightarrow>
     (case h3_dial run of
        Inl problem \<Rightarrow> failed (QuicUnavailable problem)
      | Inr _ \<Rightarrow>
     (case within HANDSHAKE_WAIT start (h3_handshake run) of
        (None, t) \<Rightarrow> Some (Err (QuicUnavailable (''no answer within '' @ decimal (HANDSHAKE_WAIT div from_secs 1) @ '' s'')), [], t)
      | (Some (Inl problem), t) \<Rightarrow> Some (Err (QuicUnavailable problem), [], t)
      | (Some (Inr _), t) \<Rightarrow> after_handshake from_bytes interim success shape largest (t - start) t run))))))"

definition connect_h3 :: "(bytes \<Rightarrow> 'st option) \<Rightarrow> ('st \<Rightarrow> bool) \<Rightarrow> ('st \<Rightarrow> bool) \<Rightarrow> (string \<Rightarrow> ip_addr option) \<Rightarrow> string \<Rightarrow>
    handshake_choice \<Rightarrow> nat \<Rightarrow> instant \<Rightarrow> 'x h3_run \<Rightarrow> ('x, 'st) opening_end" where
  "connect_h3 from_bytes interim success parse_ip written shape largest start run =
     (case parse_ip written of
        None \<Rightarrow> Some (Err (BadEndpoint written), [], start)
      | Some _ \<Rightarrow> connect_h3_at from_bytes interim success shape largest start run)"

section \<open>HTTP/2\<close>

text \<open>The error of the TLS handshake says whether it was an end of file.\<close>

record ('x, 'st) h2_run =
  h2_tls :: "'x + unit"
  h2_tcp :: "('x + unit) timed"
  h2_nodelay :: "'x + unit"
  h2_hello :: "(('x \<times> bool) + unit) timed"
  h2_preface :: "('x + unit) timed"
  h2_build :: "'x + unit"
  h2_request :: "'x + unit"
  h2_response :: "('x + 'st) timed"

definition hello_problem :: "handshake_choice \<Rightarrow> 'x \<times> bool \<Rightarrow> ('x, 'st) connect_error" where
  "hello_problem shape = (\<lambda>(problem, eof).
     (let h = handshake_selected shape in
      if eof then HandshakeCut (case sni shape h of Some name \<Rightarrow> name | None \<Rightarrow> ''none'') (handshake_name h)
      else Io problem))"

definition connect_h2 :: "('st \<Rightarrow> bool) \<Rightarrow> (string \<Rightarrow> ip_addr option) \<Rightarrow> string \<Rightarrow> handshake_choice \<Rightarrow> instant \<Rightarrow>
    ('x, 'st) h2_run \<Rightarrow> (('x, 'st) connect_error, stages) outcome timed" where
  "connect_h2 success parse_ip written shape start run =
     (case h2_tls run of
        Inl x \<Rightarrow> Some (Err (TlsSetup x), start)
      | Inr _ \<Rightarrow>
     (case parse_ip written of
        None \<Rightarrow> Some (Err (BadEndpoint written), start)
      | Some _ \<Rightarrow>
     awaited (h2_tcp run) Io (\<lambda>_ reached.
     (case h2_nodelay run of
        Inl x \<Rightarrow> Some (Err (Io x), reached)
      | Inr _ \<Rightarrow>
     awaited (h2_hello run) (hello_problem shape) (\<lambda>_ secured.
     awaited (h2_preface run) H2Failed (\<lambda>_ spoken.
     (case h2_build run of
        Inl x \<Rightarrow> Some (Err (Request x), spoken)
      | Inr _ \<Rightarrow>
     (case h2_request run of
        Inl x \<Rightarrow> Some (Err (H2Failed x), spoken)
      | Inr _ \<Rightarrow>
     awaited (h2_response run) H2Failed (\<lambda>status answered.
       if \<not> success status then Some (Err (Refused status), answered)
       else Some (Ok (StagesH2 (as_millis (reached - start)) (as_millis (secured - reached)) (as_millis (spoken - secured))
         (as_millis (answered - spoken))), answered))))))))))"

section \<open>Lemmas\<close>

lemma awaited_cases:
  "awaited answered wrap rest = r \<longleftrightarrow>
     (case answered of None \<Rightarrow> r = None | Some (Inl x, t) \<Rightarrow> r = Some (Err (wrap x), t) | Some (Inr a, t) \<Rightarrow> r = rest a t)"
  by (auto simp: awaited_def split: option.splits sum.splits prod.splits)

lemma awaited_Ok:
  "awaited answered wrap rest = Some (Ok y, t) \<longleftrightarrow> (\<exists>a t'. answered = Some (Inr a, t') \<and> rest a t' = Some (Ok y, t))"
  by (auto simp: awaited_def split: option.splits sum.splits)

lemma awaited_Err:
  "awaited answered wrap rest = Some (Err e, t) \<longleftrightarrow>
     (\<exists>x. answered = Some (Inl x, t) \<and> e = wrap x) \<or> (\<exists>a t'. answered = Some (Inr a, t') \<and> rest a t' = Some (Err e, t))"
  by (auto simp: awaited_def split: option.splits sum.splits)

lemma within_Some: "within wait start answered = (Some a, t) \<Longrightarrow> answered = Some (a, t) \<and> t \<le> start + wait"
  by (auto simp: within_def split: option.splits if_splits)

lemma within_until: "within wait start answered = (r, t) \<Longrightarrow> t \<le> start + wait"
  by (auto simp: within_def split: option.splits if_splits)

lemma h3_exchange_Ok:
  assumes "h3_exchange from_bytes interim run = Some (Ok (status, settled), t)"
  shows "(\<exists>offered. h3_settings run = Some (Inr offered, settled) \<and> h3_datagram offered \<and> extended_connect offered) \<and>
    read_response from_bytes interim frame_reader_new (h3_reads run) = Some (Ok status) \<and> t = h3_answered run"
  using assms unfolding h3_exchange_def
  by (auto simp: awaited_Ok split: if_splits option.splits outcome.splits)

lemma read_response_unblocked:
  "read_response from_bytes interim reader reads = Some (Err e) \<Longrightarrow> \<not> is_blocked e"
proof (induction reads arbitrary: reader)
  case Nil
  then show ?case by (auto simp: read_response.simps[of _ _ reader] is_blocked_def split: outcome.splits option.splits)
next
  case (Cons r reads)
  note unfold = Cons.prems[unfolded read_response.simps[of _ _ reader]]
  show ?case
  proof (cases "response_frames from_bytes interim reader")
    case (Ok p)
    then show ?thesis using unfold Cons.IH
      by (cases p; cases "fst p"; cases r) (auto simp: is_blocked_def)
  qed (use unfold in \<open>auto simp: is_blocked_def\<close>)
qed

lemma h3_exchange_unblocked: "h3_exchange from_bytes interim run = Some (Err e, t) \<Longrightarrow> \<not> is_blocked e"
  unfolding h3_exchange_def
  by (auto simp: awaited_Err is_blocked_def split: if_splits option.splits outcome.splits
      dest!: read_response_unblocked)

lemma explained_unblocked: "\<not> is_blocked problem \<Longrightarrow> \<not> is_blocked (explained ended problem)"
  by (cases ended; cases "the ended") (auto simp: explained_def is_blocked_def)

lemma explained_exchange:
  "h3_exchange from_bytes interim run = Some (Err problem, t) \<Longrightarrow> \<not> is_blocked (explained ended problem)"
  by (rule explained_unblocked[OF h3_exchange_unblocked])

lemma blocked_simps:
  "is_blocked (HandshakeCut name how)" "\<not> is_blocked (Io x)" "\<not> is_blocked (TlsSetup x)" "\<not> is_blocked (BadEndpoint w)"
  "\<not> is_blocked (H2Failed x)" "\<not> is_blocked (Request x)" "\<not> is_blocked (Refused st)" "\<not> is_blocked (H3Refused st)"
  by (simp_all add: is_blocked_def)

lemma room_found:
  "(wait_for_room needed deadline rooms :: (('x, 'st) connect_error, unit) outcome option) = Some (Ok u) \<Longrightarrow> \<exists>room lost now. (Some room, lost, now) \<in> set rooms \<and> needed \<le> room"
proof (induction needed deadline rooms rule: wait_for_room.induct)
  case (2 needed deadline room lost now turns)
  show ?case
  proof (cases "room \<noteq> None \<and> needed \<le> the room")
    case True
    then show ?thesis by (intro exI[of _ "the room"] exI[of _ lost] exI[of _ now]) auto
  next
    case False
    then have "(wait_for_room needed deadline turns :: (('x, 'st) connect_error, unit) outcome option) = Some (Ok u) \<and> (\<exists>r. room = Some r \<and> \<not> needed \<le> r \<and> lost = None \<and> \<not> deadline \<le> now)"
      using "2.prems" by (auto split: option.splits if_splits)
    then show ?thesis using "2.IH" by (metis list.set_intros(2))
  qed
qed simp

lemma room_unblocked: "wait_for_room needed deadline rooms = Some (Err e) \<Longrightarrow> \<not> is_blocked e"
  by (induction needed deadline rooms rule: wait_for_room.induct) (auto simp: is_blocked_def split: option.splits if_splits)

lemma room_no_panic: "wait_for_room needed deadline rooms \<noteq> Some Panic"
  by (induction needed deadline rooms rule: wait_for_room.induct) (auto split: option.splits)

text \<open>The clock between two readings of the path moves by at most so much.\<close>

fun paced :: "duration \<Rightarrow> instant \<Rightarrow> (nat option \<times> 'x option \<times> instant) list \<Rightarrow> bool" where
  "paced gap before [] = True"
| "paced gap before ((_, _, now) # rooms) = (now \<le> before + gap \<and> paced gap now rooms)"

lemma room_until_bound:
  "room_until needed deadline rooms = Some t \<Longrightarrow> paced gap before rooms \<Longrightarrow> before \<le> deadline \<Longrightarrow> t \<le> deadline + gap"
proof (induction needed deadline rooms arbitrary: before rule: room_until.induct)
  case (2 needed deadline room lost now rooms)
  show ?case
  proof (cases "room = None \<or> the room \<ge> needed \<or> lost \<noteq> None \<or> now \<ge> deadline")
    case True
    then show ?thesis using "2.prems" by simp
  next
    case False
    then show ?thesis using "2.IH"[OF False, of now] "2.prems" by auto
  qed
qed simp

lemma handshaken:
  assumes "connect_h3 from_bytes interim success parse_ip written shape largest start run = Some (r, closes, t)"
  shows "(\<exists>e. r = Err e \<and> closes = [] \<and> \<not> is_blocked e \<and> t \<le> start + HANDSHAKE_WAIT) \<or>
    (\<exists>t1. within HANDSHAKE_WAIT start (h3_handshake run) = (Some (Inr ()), t1) \<and>
      after_handshake from_bytes interim success shape largest (t1 - start) t1 run = Some (r, closes, t))"
  using assms within_until[of HANDSHAKE_WAIT start "h3_handshake run"]
  by (auto simp: connect_h3_def connect_h3_at_def Let_def is_blocked_def split: option.splits sum.splits prod.splits)

lemma h3_ends_by:
  fixes from_bytes :: "bytes \<Rightarrow> 'st option" and run :: "'x h3_run"
  assumes "connect_h3 from_bytes interim success parse_ip written shape largest start run = Some (r, closes, t)"
    and "paced gap (h3_answered run) (h3_rooms run)"
  shows "t \<le> start + from_secs 10 + gap \<and> (closes = [] \<or> last closes = CODE_NO_ERROR) \<and>
    (closes = [] \<longrightarrow> (\<exists>opened. r = Ok opened) \<or> t \<le> start + HANDSHAKE_WAIT)"
  using handshaken[OF assms(1)]
proof (elim disjE exE conjE)
  fix t1 assume w: "within HANDSHAKE_WAIT start (h3_handshake run) = (Some (Inr ()), t1)"
    and a: "after_handshake from_bytes interim success shape largest (t1 - start) t1 run = Some (r, closes, t)"
  let ?needed = "largest + datagram_overhead (h3_stream run)"
  obtain answer t2 where e: "within EXCHANGE_WAIT t1 (h3_exchange from_bytes interim run ::
      (('x, 'st) connect_error, 'st \<times> instant) outcome timed) = (answer, t2)" by fastforce
  have t2: "t2 \<le> start + from_secs 8"
    using within_until[OF w] within_until[OF e] by (simp add: HANDSHAKE_WAIT_def EXCHANGE_WAIT_def from_secs_def)
  consider (early) "t = t2" "closes \<noteq> []" "last closes = CODE_NO_ERROR"
    | (room) status settled where "answer = Some (Ok (status, settled))"
        "room_until ?needed (t2 + PATH_WAIT) (h3_rooms run) = Some t"
        "closes = [] \<and> (\<exists>opened. r = Ok opened) \<or> closes \<noteq> [] \<and> last closes = CODE_NO_ERROR"
    using a e by (auto simp: after_handshake_def Let_def split: option.splits outcome.splits if_splits)
  then show ?thesis
  proof cases
    case early
    then show ?thesis using t2 by (simp add: from_secs_def)
  next
    case room
    have "t2 = h3_answered run" using h3_exchange_Ok[OF conjunct1[OF within_Some[OF e[unfolded room(1)]]]] by blast
    then have "t \<le> t2 + PATH_WAIT + gap" using room_until_bound[OF room(2)] assms(2) by simp
    then show ?thesis using t2 room(3) by (auto simp: PATH_WAIT_def from_secs_def)
  qed
qed (auto simp: HANDSHAKE_WAIT_def from_secs_def)

section \<open>The properties\<close>

text \<open>C34. A tunnel over HTTP/3 is handed over only when it can carry the adapter's packets: the endpoint offered
  datagrams and extended CONNECT, it answered the request with success, and every packet of at most the
  adapter's size, in its datagram, fits what the path was found to take. Nothing was closed on the way.\<close>

theorem h3_opened_fits:
  assumes "connect_h3 from_bytes interim success parse_ip written shape largest start run = Some (Ok (stages, stream), closes, t)"
  shows "closes = [] \<and> stream = h3_stream run \<and>
    (\<exists>offered t1. h3_settings run = Some (Inr offered, t1) \<and> h3_datagram offered \<and> extended_connect offered) \<and>
    (\<exists>status. read_response from_bytes interim frame_reader_new (h3_reads run) =
       Some (Ok status :: (('x, 'st) connect_error, 'st) outcome) \<and> success status) \<and>
    (\<exists>room lost now. (Some room, lost, now) \<in> set (h3_rooms run) \<and>
       (\<forall>packet. length packet \<le> largest \<longrightarrow> length (datagram stream packet) \<le> room))"
proof -
  obtain t1 where a: "after_handshake from_bytes interim success shape largest (t1 - start) t1 run =
      Some (Ok (stages, stream), closes, t)" using handshaken[OF assms] by auto
  let ?needed = "largest + datagram_overhead (h3_stream run)"
  obtain status settled t2 where b:
    "within EXCHANGE_WAIT t1 (h3_exchange from_bytes interim run :: (('x, 'st) connect_error, 'st \<times> instant) outcome timed) =
      (Some (Ok (status, settled)), t2)" "success status" "stream = h3_stream run" "closes = []"
    "(wait_for_room ?needed (t2 + PATH_WAIT) (h3_rooms run) :: (('x, 'st) connect_error, unit) outcome option) = Some (Ok ())"
    using a by (auto simp: after_handshake_def Let_def split: prod.splits option.splits outcome.splits if_splits)
  note e = h3_exchange_Ok[OF conjunct1[OF within_Some[OF b(1)]]]
  obtain room lost now where r: "(Some room, lost, now) \<in> set (h3_rooms run)" "?needed \<le> room" using room_found[OF b(5)] by blast
  have "length (datagram stream packet) \<le> room" if "length packet \<le> largest" for packet
    using that r(2) b(3) by (simp add: datagram_def datagram_overhead_def)
  then show ?thesis using b e r(1) by blast
qed

text \<open>What is reported as something on the way refusing the handshake is exactly that. Over HTTP/3: a
  connection was made, its handshake was answered in time and the exchange after it was not. Over
  HTTP/2: the socket was connected, and the TLS handshake on it ended without a word.\<close>

theorem h3_blocked_is_silence:
  assumes "connect_h3 from_bytes interim success parse_ip written shape largest start run = Some (Err e, closes, t)"
  shows "is_blocked e \<longleftrightarrow> closes \<noteq> [] \<and> (\<exists>t1. within HANDSHAKE_WAIT start (h3_handshake run) = (Some (Inr ()), t1) \<and>
    fst (within EXCHANGE_WAIT t1 (h3_exchange from_bytes interim run :: (('x, 'st) connect_error, 'st \<times> instant) outcome timed)) = None)"
proof -
  show ?thesis
    using handshaken[OF assms(1)]
  proof (elim disjE exE conjE)
    fix t1 assume w: "within HANDSHAKE_WAIT start (h3_handshake run) = (Some (Inr ()), t1)"
      and a: "after_handshake from_bytes interim success shape largest (t1 - start) t1 run = Some (Err e, closes, t)"
    show ?thesis using a w
      by (auto simp: after_handshake_def Let_def unanswered_def blocked_simps is_blocked_def[of "H3Unanswered _ _"]
          split: prod.splits option.splits outcome.splits if_splits
          dest!: within_Some dest: room_unblocked explained_exchange[of _ _ _ _ _ "h3_ended run"])
  qed auto
qed

theorem h2_blocked_is_silence:
  assumes "connect_h2 success parse_ip written shape start run = Some (Err e, t)"
  shows "is_blocked e \<longleftrightarrow> (\<exists>problem reached. h2_tls run = Inr () \<and> parse_ip written \<noteq> None \<and>
    h2_tcp run = Some (Inr (), reached) \<and> h2_nodelay run = Inr () \<and> h2_hello run = Some (Inl (problem, True), t))"
  using assms
  by (cases "h2_tls run"; cases "parse_ip written"; cases "h2_nodelay run"; cases "h2_build run"; cases "h2_request run")
    (auto simp: connect_h2_def awaited_Err hello_problem_def Let_def blocked_simps split: if_splits)

text \<open>An attempt over HTTP/3 is over, one way or the other, ten seconds and one reading of the path after it
  began; with the readings half a second apart that leaves nine seconds of the engine's limit to
  HTTP/2. It always closes what it opened unless it hands it over: with the code of the rule the
  endpoint broke first, when it broke one in the exchange.\<close>

theorem h3_opening_bounded:
  fixes from_bytes :: "bytes \<Rightarrow> 'st option" and run :: "'x h3_run"
  assumes "connect_h3 from_bytes interim success parse_ip written shape largest start run = Some (r, closes, t)"
    and "paced gap (h3_answered run) (h3_rooms run)"
  shows "t \<le> start + from_secs 10 + gap \<and> (gap \<le> from_millis 500 \<longrightarrow> t + from_secs 9 \<le> start + CONNECT_TIMEOUT) \<and>
    (closes = [] \<or> last closes = CODE_NO_ERROR) \<and>
    (closes = [] \<longrightarrow> (\<exists>opened. r = Ok opened) \<or> t \<le> start + HANDSHAKE_WAIT)"
  using h3_ends_by[OF assms] by (auto simp: from_secs_def from_millis_def CONNECT_TIMEOUT_def)

section \<open>Runs\<close>

text \<open>An endpoint that answers everything and whose response is \<open>:status 200\<close>, and one that says nothing
  after its SETTINGS; a line that cuts the TLS handshake.\<close>

definition sample_h3 :: "unit h3_run" where
  "sample_h3 = \<lparr>h3_tls = Inr (), h3_crypto = Inr (), h3_socket = Inr (), h3_endpoint = Inr (), h3_dial = Inr (),
     h3_handshake = Some (Inr (), 1), h3_open_uni = Some (Inr (), 2), h3_preface = Some (Inr (), 3),
     h3_settings = Some (Inr \<lparr>h3_datagram = True, extended_connect = True\<rparr>, 4), h3_open_bi = Some (Inr (), 5),
     h3_request = Some (Inr (), 6), h3_reads = [ResponseData [1, 3, 0, 0, 0xd9]], h3_answered = 7, h3_stream = 0,
     h3_rooms = [(Some 1200, None, 8), (Some 1300, None, 9)], h3_ended = None\<rparr>"

definition silent_h3 :: "unit h3_run" where
  "silent_h3 = sample_h3\<lparr>h3_reads := []\<rparr>"

definition cut_h2 :: "(unit, unit) h2_run" where
  "cut_h2 = \<lparr>h2_tls = Inr (), h2_tcp = Some (Inr (), 1), h2_nodelay = Inr (), h2_hello = Some (Inl ((), True), 2),
     h2_preface = None, h2_build = Inr (), h2_request = Inr (), h2_response = None\<rparr>"

lemma sample_calls:
  "h3_tls sample_h3 = Inr ()" "h3_crypto sample_h3 = Inr ()" "h3_socket sample_h3 = Inr ()" "h3_endpoint sample_h3 = Inr ()"
  "h3_dial sample_h3 = Inr ()" "h3_stream sample_h3 = 0" "h3_tls silent_h3 = Inr ()" "h3_crypto silent_h3 = Inr ()"
  "h3_socket silent_h3 = Inr ()" "h3_endpoint silent_h3 = Inr ()" "h3_dial silent_h3 = Inr ()"
  by (simp_all add: sample_h3_def silent_h3_def)

lemma sample_handshaken:
  "within HANDSHAKE_WAIT 0 (h3_handshake sample_h3) = (Some (Inr ()), 1)"
  "within HANDSHAKE_WAIT 0 (h3_handshake silent_h3) = (Some (Inr ()), 1)"
  by (simp_all add: within_def silent_h3_def sample_h3_def HANDSHAKE_WAIT_def from_secs_def)

lemma sample_status:
  "read_response (\<lambda>_. Some ()) (\<lambda>_. False) frame_reader_new (h3_reads sample_h3) =
     Some (Ok () :: ((unit, unit) connect_error, unit) outcome)"
  by code_simp

lemma sample_opened:
  "connect_h3 (\<lambda>_. Some ()) (\<lambda>_. False) (\<lambda>_. True) (\<lambda>_. Some (V4 1)) ''1'' handshake_initial 1280 0 sample_h3 =
     Some (Ok (StagesH3 0 0 0, 0), [], 9)"
proof -
  have "h3_exchange (\<lambda>_. Some ()) (\<lambda>_. False) sample_h3 = Some (Ok ((), 4), 7)"
    using sample_status by (simp add: h3_exchange_def awaited_def) (simp add: sample_h3_def awaited_def)
  then have e: "within EXCHANGE_WAIT 1 (h3_exchange (\<lambda>_. Some ()) (\<lambda>_. False) sample_h3) =
      (Some (Ok ((), 4) :: ((unit, unit) connect_error, unit \<times> instant) outcome), 7)"
    by (simp add: within_def EXCHANGE_WAIT_def from_secs_def)
  have r: "wait_for_room 1282 (7 + PATH_WAIT) (h3_rooms sample_h3) = Some (Ok () :: ((unit, unit) connect_error, unit) outcome)"
    "room_until 1282 (7 + PATH_WAIT) (h3_rooms sample_h3) = Some 9"
    by (simp_all add: sample_h3_def PATH_WAIT_def from_secs_def)
  have "datagram_overhead 0 = 2" by code_simp
  then have "after_handshake (\<lambda>_. Some ()) (\<lambda>_. False) (\<lambda>_. True) handshake_initial 1280 1 1 sample_h3 =
      Some (Ok (StagesH3 0 0 0, 0) :: ((unit, unit) connect_error, stages \<times> u64) outcome, [], 9)"
    using r unfolding after_handshake_def e by (simp add: Let_def sample_calls as_millis_def)
  then show ?thesis by (simp add: connect_h3_def connect_h3_at_def Let_def sample_calls sample_handshaken)
qed

theorem h3_opened_fits_witness:
  "\<exists>room lost now. (Some room, lost, now) \<in> set (h3_rooms sample_h3) \<and> length (datagram 0 (replicate 1280 0)) \<le> room"
  using h3_opened_fits[OF sample_opened] by (metis length_replicate order_refl)

theorem h3_opening_bounded_witness:
  "9 \<le> 0 + from_secs 10 + 2 \<and> paced 2 (h3_answered sample_h3) (h3_rooms sample_h3)"
proof -
  have p: "paced 2 (h3_answered sample_h3) (h3_rooms sample_h3)" by (simp add: sample_h3_def)
  show ?thesis using h3_opening_bounded[OF sample_opened p] p by blast
qed

lemma silent_exchange:
  "h3_exchange (\<lambda>_. Some ()) (\<lambda>_. False) silent_h3 = (None :: ((unit, unit) connect_error, unit \<times> instant) outcome timed)"
proof -
  have "read_response (\<lambda>_. Some ()) (\<lambda>_. False) frame_reader_new [] =
      (None :: ((unit, unit) connect_error, unit) outcome option)" by code_simp
  then show ?thesis by (simp add: h3_exchange_def awaited_def silent_h3_def sample_h3_def)
qed

lemma silent_unanswered:
  "connect_h3 (\<lambda>_. Some ()) (\<lambda>_. False) (\<lambda>_. True) (\<lambda>_. Some (V4 1)) ''1'' handshake_initial 1280 0 silent_h3 =
     Some (Err (unanswered handshake_initial) :: ((unit, unit) connect_error, stages \<times> u64) outcome, [CODE_NO_ERROR], 1 + EXCHANGE_WAIT)"
proof -
  have "after_handshake (\<lambda>_. Some ()) (\<lambda>_. False) (\<lambda>_. True) handshake_initial 1280 1 1 silent_h3 =
      Some (Err (unanswered handshake_initial) :: ((unit, unit) connect_error, stages \<times> u64) outcome, [CODE_NO_ERROR], 1 + EXCHANGE_WAIT)"
    unfolding after_handshake_def silent_exchange by (simp add: within_def)
  then show ?thesis by (simp add: connect_h3_def connect_h3_at_def Let_def sample_calls sample_handshaken)
qed

theorem h3_blocked_is_silence_witness:
  "\<exists>e :: (unit, unit) connect_error. connect_h3 (\<lambda>_. Some ()) (\<lambda>_. False) (\<lambda>_. True) (\<lambda>_. Some (V4 1)) ''1'' handshake_initial 1280 0 silent_h3 =
     Some (Err e, [CODE_NO_ERROR], 1 + EXCHANGE_WAIT) \<and> is_blocked e"
proof -
  have "fst (within EXCHANGE_WAIT 1 (h3_exchange (\<lambda>_. Some ()) (\<lambda>_. False) silent_h3 ::
      ((unit, unit) connect_error, unit \<times> instant) outcome timed)) = None" unfolding silent_exchange by (simp add: within_def)
  then have "is_blocked (unanswered handshake_initial :: (unit, unit) connect_error)"
    using h3_blocked_is_silence[OF silent_unanswered] sample_handshaken(2) by blast
  then show ?thesis using silent_unanswered by blast
qed

theorem h2_blocked_is_silence_witness:
  "\<exists>e. connect_h2 (\<lambda>_. True) (\<lambda>_. Some (V4 1)) ''1'' handshake_initial 0 cut_h2 = Some (Err e, 2) \<and> is_blocked e"
proof -
  have c: "connect_h2 (\<lambda>_. True) (\<lambda>_. Some (V4 1)) ''1'' handshake_initial 0 cut_h2 =
      Some (Err (hello_problem handshake_initial ((), True)), 2)"
    by (simp add: connect_h2_def awaited_def cut_h2_def)
  from h2_blocked_is_silence[OF c] c show ?thesis by (simp add: cut_h2_def)
qed

end
