(* ===== verification/Names.thy ===== *)
theory Names
  imports Dns_Server "HOL-Library.AList"
begin

text \<open>
  The machine's name resolution, \<open>src/names.rs\<close>: one rule of the name resolution policy, marked as this
  core's, written by \<open>claim\<close>, swept by \<open>release\<close>, and proved in use by \<open>take_over\<close>, which has the
  operating system ask a name and waits for it at the resolver of \<open>Dns_Server\<close>.

  The policy is kept by Windows: creating, reading and deleting its keys are parameters, and what the
  registry documents of them is the locale \<open>name_policy\<close>. A takeover is two steps with whatever happens
  at the resolver between them, since the wait in it gives way to every other task.
\<close>

section \<open>The rule\<close>

definition RULE :: string where "RULE = ''{6D617371-7200-4000-8000-6E616D657301}''"
definition MARK :: string where "MARK = ''masqr''"
definition EVERY_NAME :: string where "EVERY_NAME = ''.''"
definition USES_GENERIC_SERVERS :: u32 where "USES_GENERIC_SERVERS = 8"
definition RULE_VERSION :: u32 where "RULE_VERSION = 2"

text \<open>\<open>REG_SZ\<close>, \<open>REG_MULTI_SZ\<close> of one entry, \<open>REG_DWORD\<close>.\<close>

datatype reg_value = RegText string | RegNames string | RegNumber u32

datatype name_error = RegistryFailed string u32 | NotCarried

text \<open>The keys under \<open>RULES\<close>: each operation answers with a status, \<open>rg_subkeys\<close> with \<open>None\<close> when the key
  does not open.\<close>

record 'r registry =
  rg_create :: "string \<Rightarrow> 'r \<Rightarrow> u32 \<times> 'r"
  rg_set :: "string \<Rightarrow> string \<Rightarrow> reg_value \<Rightarrow> 'r \<Rightarrow> u32 \<times> 'r"
  rg_subkeys :: "'r \<Rightarrow> string list option"
  rg_query :: "string \<Rightarrow> string \<Rightarrow> 'r \<Rightarrow> reg_value option"
  rg_delete :: "string \<Rightarrow> 'r \<Rightarrow> u32 \<times> 'r"

text \<open>The policy, and how often the machine was told to forget the answers it has.\<close>

record 'r naming =
  nm_policy :: 'r
  nm_forgotten :: nat

definition forget_answers :: "'r naming \<Rightarrow> 'r naming" where
  "forget_answers nm = nm\<lparr>nm_forgotten := nm_forgotten nm + 1\<rparr>"

section \<open>Writing it\<close>

fun write_values :: "'r registry \<Rightarrow> (string \<times> reg_value) list \<Rightarrow> 'r \<Rightarrow> (name_error + unit) \<times> 'r" where
  "write_values rg [] r = (Inr (), r)"
| "write_values rg ((name, content) # rest) r =
     (case rg_set rg RULE name content r of
        (code, r) \<Rightarrow>
          if code = NO_ERROR then write_values rg rest r
          else (Inl (RegistryFailed ''writing a value of the rule'' code), r))"

definition rule_values :: "string \<Rightarrow> (string \<times> reg_value) list" where
  "rule_values server = [(''Version'', RegNumber RULE_VERSION), (''Name'', RegNames EVERY_NAME),
     (''GenericDNSServers'', RegText server), (''ConfigOptions'', RegNumber USES_GENERIC_SERVERS),
     (''Comment'', RegText MARK), (''DisplayName'', RegText MARK)]"

definition claim :: "'r registry \<Rightarrow> string \<Rightarrow> 'r \<Rightarrow> (name_error + unit) \<times> 'r" where
  "claim rg server r =
     (case rg_create rg RULE r of
        (code, r) \<Rightarrow>
          if code \<noteq> NO_ERROR then (Inl (RegistryFailed ''creating the rule'' code), r)
          else write_values rg (rule_values server) r)"

section \<open>Sweeping it\<close>

definition read_text :: "'r registry \<Rightarrow> string \<Rightarrow> string \<Rightarrow> 'r \<Rightarrow> string option" where
  "read_text rg rule name r = (case rg_query rg rule name r of Some (RegText t) \<Rightarrow> Some t | _ \<Rightarrow> None)"

fun delete_rules :: "'r registry \<Rightarrow> string list \<Rightarrow> nat \<Rightarrow> 'r \<Rightarrow> nat \<times> 'r" where
  "delete_rules rg [] removed r = (removed, r)"
| "delete_rules rg (name # rest) removed r =
     (case rg_delete rg name r of
        (code, r) \<Rightarrow> delete_rules rg rest (if code = NO_ERROR then removed + 1 else removed) r)"

definition release :: "'r registry \<Rightarrow> 'r naming \<Rightarrow> nat \<times> 'r naming" where
  "release rg nm =
     (case rg_subkeys rg (nm_policy nm) of
        None \<Rightarrow> (0, nm)
      | Some names \<Rightarrow>
          let ours = filter (\<lambda>name. read_text rg name ''Comment'' (nm_policy nm) = Some MARK) names in
          (case delete_rules rg ours 0 (nm_policy nm) of
             (removed, r) \<Rightarrow>
               let nm = nm\<lparr>nm_policy := r\<rparr> in
               (removed, if 0 < removed then forget_answers nm else nm)))"

section \<open>Proving it\<close>

text \<open>What a waiter of \<open>watch_for\<close> has by now: word that its name arrived, the other end dropped without a
  word, or nothing yet.\<close>

datatype channel = Told | Dropped

definition arrived :: "nat \<Rightarrow> 'cl resolver_state \<Rightarrow> channel option" where
  "arrived waiter rv =
     (if waiter \<in> set (rv_told rv) then Some Told
      else if (case rv_watching rv of Some (_, w) \<Rightarrow> w = waiter | None \<Rightarrow> False) then None
      else Some Dropped)"

text \<open>Up to the wait: the rule is written, a fresh name is watched for, and the operating system is asked
  to resolve it.\<close>

definition take_over_begins :: "'r registry \<Rightarrow> string \<Rightarrow> string \<Rightarrow> 'cl resolver_state \<times> 'r naming \<Rightarrow>
    (name_error + nat) \<times> 'cl resolver_state \<times> 'r naming" where
  "take_over_begins rg server canary = (\<lambda>(rv, nm).
     (case claim rg server (nm_policy nm) of
        (Inl problem, r) \<Rightarrow> (Inl problem, rv, nm\<lparr>nm_policy := r\<rparr>)
      | (Inr _, r) \<Rightarrow>
          (case watch_for canary rv of (waiter, rv) \<Rightarrow> (Inr waiter, rv, nm\<lparr>nm_policy := r\<rparr>))))"

text \<open>From the end of the wait: the time ran out (nothing came), or the waiter's channel had something to
  say. \<open>timeout(..).await.is_ok()\<close> asks only whether the time ran out.\<close>

definition take_over_ends :: "'r registry \<Rightarrow> nat \<Rightarrow> 'cl resolver_state \<times> 'r naming \<Rightarrow>
    (name_error + unit) \<times> 'cl resolver_state \<times> 'r naming" where
  "take_over_ends rg waiter = (\<lambda>(rv, nm).
     let carried = (arrived waiter rv \<noteq> None); rv = stop_watching rv in
     if \<not> carried then (Inl NotCarried, rv, snd (release rg nm))
     else (Inr (), rv, forget_answers nm))"

section \<open>What the registry promises\<close>

type_synonym rule_set = "string \<Rightarrow> (string \<Rightarrow> reg_value option) option"

definition marked :: "(string \<Rightarrow> reg_value option) option \<Rightarrow> bool" where
  "marked rule = (case rule of Some content \<Rightarrow> content ''Comment'' = Some (RegText MARK) | None \<Rightarrow> False)"

text \<open>No rule that is there refuses to be deleted.\<close>

definition obliging :: "'r registry \<Rightarrow> ('r \<Rightarrow> rule_set) \<Rightarrow> bool" where
  "obliging rg rules \<longleftrightarrow> (\<forall>k r. k \<in> dom (rules r) \<longrightarrow> fst (rg_delete rg k r) = NO_ERROR)"

text \<open>A rule that is there takes the values of exactly these names, and a key can always be created.\<close>

definition takes_values :: "'r registry \<Rightarrow> ('r \<Rightarrow> rule_set) \<Rightarrow> (string \<Rightarrow> bool) \<Rightarrow> bool" where
  "takes_values rg rules taken \<longleftrightarrow> (\<forall>k r. fst (rg_create rg k r) = NO_ERROR) \<and>
     (\<forall>k name v r. rules r k \<noteq> None \<longrightarrow> (fst (rg_set rg k name v r) = NO_ERROR \<longleftrightarrow> taken name))"

locale name_policy =
  fixes rg :: "'r registry" and rules :: "'r \<Rightarrow> rule_set"
  assumes created: "rg_create rg k r = (code, r') \<Longrightarrow> rules r' =
      (if code = NO_ERROR then (rules r)(k \<mapsto> case rules r k of Some content \<Rightarrow> content | None \<Rightarrow> Map.empty) else rules r)"
    and written: "rg_set rg k n v r = (code, r') \<Longrightarrow> rules r k = Some content \<Longrightarrow>
      rules r' = (if code = NO_ERROR then (rules r)(k \<mapsto> content(n \<mapsto> v)) else rules r)"
    and listed: "rg_subkeys rg r = Some ks \<Longrightarrow> set ks = dom (rules r) \<and> distinct ks"
    and queried: "rg_query rg k n r = Option.bind (rules r k) (\<lambda>content. content n)"
    and deleted: "rg_delete rg k r = (code, r') \<Longrightarrow>
      rules r' = (if code = NO_ERROR then (rules r)(k := None) else rules r)"
begin

lemma read_mark: "read_text rg k ''Comment'' r = Some MARK \<longleftrightarrow> marked (rules r k)"
  by (auto simp: read_text_def marked_def queried split: option.splits reg_value.splits)

lemma deleted_rules:
  "delete_rules rg ks n r = (m, r') \<Longrightarrow> distinct ks \<Longrightarrow> set ks \<subseteq> dom (rules r) \<Longrightarrow>
     \<exists>gone. gone \<subseteq> set ks \<and> rules r' = rules r |` (- gone) \<and> m = n + card gone \<and>
       (obliging rg rules \<longrightarrow> gone = set ks)"
proof (induction ks arbitrary: n r)
  case Nil
  then show ?case by (intro exI[of _ "{}"]) (simp add: restrict_map_def)
next
  case (Cons k ks)
  obtain code r1 where d: "rg_delete rg k r = (code, r1)" by fastforce
  have dom: "set ks \<subseteq> dom (rules r1)" using deleted[OF d] Cons.prems(2,3) by auto
  have rest: "delete_rules rg ks (if code = NO_ERROR then n + 1 else n) r1 = (m, r')" using Cons.prems(1) d by simp
  obtain gone where g: "gone \<subseteq> set ks" "rules r' = rules r1 |` (- gone)"
    "m = (if code = NO_ERROR then n + 1 else n) + card gone"
    "obliging rg rules \<longrightarrow> gone = set ks"
    using Cons.IH[OF rest _ dom] Cons.prems(2) by auto
  have k: "k \<notin> gone" "finite gone" using g(1) Cons.prems(2) finite_subset[OF g(1)] by auto
  show ?case
  proof (cases "code = NO_ERROR")
    case True
    have "((rules r)(k := None)) |` (- gone) = rules r |` (- insert k gone)"
      by (auto simp: restrict_map_def fun_eq_iff)
    then show ?thesis using g k deleted[OF d] True by (intro exI[of _ "insert k gone"]) auto
  next
    case False
    then have "\<not> obliging rg rules" using d Cons.prems(3) by (auto simp: obliging_def) (metis domI fst_conv)
    then show ?thesis using g deleted[OF d] False by (intro exI[of _ gone]) auto
  qed
qed

lemma released:
  assumes "release rg nm = (n, nm')"
  shows "\<exists>gone. gone \<subseteq> {k. marked (rules (nm_policy nm) k)} \<and> n = card gone \<and>
      rules (nm_policy nm') = rules (nm_policy nm) |` (- gone) \<and>
      nm_forgotten nm' = nm_forgotten nm + (if 0 < n then 1 else 0) \<and>
      (rg_subkeys rg (nm_policy nm) \<noteq> None \<and> obliging rg rules \<longrightarrow>
         gone = {k. marked (rules (nm_policy nm) k)})"
proof (cases "rg_subkeys rg (nm_policy nm)")
  case None
  then show ?thesis using assms by (intro exI[of _ "{}"]) (simp add: release_def restrict_map_def)
next
  case (Some ks)
  define ours where "ours = filter (\<lambda>k. marked (rules (nm_policy nm) k)) ks"
  note l = listed[OF Some]
  have ours: "distinct ours" "set ours \<subseteq> dom (rules (nm_policy nm))" "set ours = {k. marked (rules (nm_policy nm) k)}"
    using l by (auto simp: ours_def marked_def split: option.splits)
  obtain m r where d: "delete_rules rg ours 0 (nm_policy nm) = (m, r)" by fastforce
  have "m = n" "nm_policy nm' = r" "nm_forgotten nm' = nm_forgotten nm + (if 0 < n then 1 else 0)"
    using assms Some d by (auto simp: release_def Let_def read_mark ours_def forget_answers_def split: if_splits)
  then show ?thesis using deleted_rules[OF d ours(1,2)] unfolding ours(3) by auto
qed

lemma wrote:
  "write_values rg vals r = (res, r') \<Longrightarrow> rules r RULE = Some content \<Longrightarrow>
     \<exists>before after. vals = before @ after \<and> rules r' = (rules r)(RULE \<mapsto> content ++ map_of (rev before)) \<and>
       (res = Inr () \<longleftrightarrow> after = [])"
proof (induction vals arbitrary: r content)
  case Nil
  then show ?case by (auto simp: fun_upd_idem)
next
  case (Cons nv vals)
  obtain n v where nv: "nv = (n, v)" by (cases nv)
  obtain code r1 where s: "rg_set rg RULE n v r = (code, r1)" by fastforce
  show ?case
  proof (cases "code = NO_ERROR")
    case True
    have r1: "rules r1 = (rules r)(RULE \<mapsto> content(n \<mapsto> v))" using written[OF s Cons.prems(2)] True by simp
    have w: "write_values rg vals r1 = (res, r')" using Cons.prems(1) nv s True by simp
    have c: "rules r1 RULE = Some (content(n \<mapsto> v))" using r1 by simp
    from Cons.IH[OF w c] obtain before after where b: "vals = before @ after"
      "rules r' = (rules r1)(RULE \<mapsto> content(n \<mapsto> v) ++ map_of (rev before))" "res = Inr () \<longleftrightarrow> after = []" by blast
    have "content(n \<mapsto> v) ++ map_of (rev before) = content ++ map_of (rev (nv # before))"
      by (simp add: nv map_of_append)
    then show ?thesis using b r1 by (intro exI[of _ "nv # before"] exI[of _ after]) simp
  next
    case False
    then show ?thesis using Cons.prems written[OF s Cons.prems(2)] nv s
      by (intro exI[of _ "[]"] exI[of _ "nv # vals"]) (auto simp: fun_upd_idem)
  qed
qed

lemma wrote_until:
  "takes_values rg rules taken \<Longrightarrow> rules r RULE = Some content \<Longrightarrow> \<forall>nv\<in>set before. taken (fst nv) \<Longrightarrow>
     \<exists>r'. rules r' = (rules r)(RULE \<mapsto> content ++ map_of (rev before)) \<and>
       write_values rg (before @ after) r = write_values rg after r'"
proof (induction before arbitrary: r content)
  case Nil
  then show ?case by (intro exI[of _ r]) (simp add: fun_upd_idem)
next
  case (Cons nv before)
  obtain n v where nv: "nv = (n, v)" by (cases nv)
  obtain code r1 where s: "rg_set rg RULE n v r = (code, r1)" by fastforce
  have "fst (rg_set rg RULE n v r) = NO_ERROR"
    using Cons.prems nv unfolding takes_values_def by (metis fst_conv list.set_intros(1) option.distinct(1))
  then have code: "code = NO_ERROR" using s by simp
  have r1: "rules r1 = (rules r)(RULE \<mapsto> content(n \<mapsto> v))" using written[OF s Cons.prems(2)] code by simp
  then have c: "rules r1 RULE = Some (content(n \<mapsto> v))" by simp
  have b: "\<forall>nv\<in>set before. taken (fst nv)" using Cons.prems(3) by simp
  obtain r' where r': "rules r' = (rules r1)(RULE \<mapsto> content(n \<mapsto> v) ++ map_of (rev before))"
    "write_values rg (before @ after) r1 = write_values rg after r'"
    using Cons.IH[OF Cons.prems(1) c b] by blast
  then show ?case using s code nv r1 by (intro exI[of _ r']) (simp add: map_of_append)
qed

lemma claim_written:
  assumes "takes_values rg rules taken" "rule_values server = before @ after"
    "\<forall>nv\<in>set before. taken (fst nv)"
  shows "\<exists>r'. rules r' = (rules r)(RULE \<mapsto>
      (case rules r RULE of Some content \<Rightarrow> content | None \<Rightarrow> Map.empty) ++ map_of (rev before)) \<and> claim rg server r = write_values rg after r'"
proof -
  obtain code r1 where c: "rg_create rg RULE r = (code, r1)" by fastforce
  then have code: "code = NO_ERROR" using assms(1) unfolding takes_values_def by (metis fst_conv)
  let ?content = "case rules r RULE of Some content \<Rightarrow> content | None \<Rightarrow> Map.empty"
  have r1: "rules r1 = (rules r)(RULE \<mapsto> ?content)" using created[OF c] code by simp
  then have "rules r1 RULE = Some ?content" by simp
  from wrote_until[OF assms(1) this assms(3), of after] show ?thesis using c code r1 assms(2)
    by (auto simp: claim_def)
qed

lemma claimed:
  assumes "claim rg server r = (res, r')" "rules r RULE = None"
  shows "rules r' = rules r \<and> res \<noteq> Inr () \<or>
    (\<exists>before after. rule_values server = before @ after \<and> rules r' = (rules r)(RULE \<mapsto> map_of (rev before)) \<and>
       (res = Inr () \<longleftrightarrow> after = []))"
proof -
  obtain code r1 where c: "rg_create rg RULE r = (code, r1)" by fastforce
  show ?thesis
  proof (cases "code = NO_ERROR")
    case True
    then have "rules r1 RULE = Some Map.empty" "rules r1 = (rules r)(RULE \<mapsto> Map.empty)"
      using created[OF c] assms(2) by simp_all
    then show ?thesis using wrote[of "rule_values server" r1 res r' Map.empty] assms(1) c True
      by (auto simp: claim_def)
  next
    case False
    then show ?thesis using created[OF c] assms(1) c by (auto simp: claim_def)
  qed
qed

end

text \<open>A registry kept as lists, in which the values whose names are refused cannot be written.\<close>

type_synonym kept = "(string \<times> (string \<times> reg_value) list) list"

definition keeping :: "(string \<Rightarrow> bool) \<Rightarrow> kept registry" where
  "keeping refused = \<lparr>
     rg_create = (\<lambda>k r. (NO_ERROR, if map_of r k = None then AList.update k [] r else r)),
     rg_set = (\<lambda>k n v r. if refused n then (5, r) else
       (case map_of r k of Some vs \<Rightarrow> (NO_ERROR, AList.update k (AList.update n v vs) r) | None \<Rightarrow> (2, r))),
     rg_subkeys = (\<lambda>r. Some (remdups (map fst r))),
     rg_query = (\<lambda>k n r. Option.bind (map_of r k) (\<lambda>vs. map_of vs n)),
     rg_delete = (\<lambda>k r. if map_of r k = None then (2, r) else (NO_ERROR, AList.delete k r))\<rparr>"

definition kept_rules :: "kept \<Rightarrow> rule_set" where
  "kept_rules r k = map_option map_of (map_of r k)"

interpretation keeping: name_policy "keeping refused" kept_rules for refused
proof
  have dom: "dom (kept_rules r) = fst ` set r" for r
    by (simp add: kept_rules_def dom_def dom_map_of_conv_image_fst [symmetric])
  fix k n v r code r' content ks
  show "rg_create (keeping refused) k r = (code, r') \<Longrightarrow> kept_rules r' = (if code = NO_ERROR
      then (kept_rules r)(k \<mapsto> case kept_rules r k of Some content \<Rightarrow> content | None \<Rightarrow> Map.empty) else kept_rules r)"
    by (auto simp: keeping_def kept_rules_def fun_eq_iff update_conv split: if_splits option.splits)
  show "rg_set (keeping refused) k n v r = (code, r') \<Longrightarrow> kept_rules r k = Some content \<Longrightarrow>
      kept_rules r' = (if code = NO_ERROR then (kept_rules r)(k \<mapsto> content(n \<mapsto> v)) else kept_rules r)"
    by (auto simp: keeping_def kept_rules_def fun_eq_iff update_conv NO_ERROR_def split: if_splits option.splits)
  show "rg_subkeys (keeping refused) r = Some ks \<Longrightarrow> set ks = dom (kept_rules r) \<and> distinct ks"
    by (simp add: keeping_def dom) (metis distinct_remdups list.set_map set_remdups)
  show "rg_query (keeping refused) k n r = Option.bind (kept_rules r k) (\<lambda>content. content n)"
    by (cases "map_of r k") (simp_all add: keeping_def kept_rules_def)
  show "rg_delete (keeping refused) k r = (code, r') \<Longrightarrow>
      kept_rules r' = (if code = NO_ERROR then (kept_rules r)(k := None) else kept_rules r)"
    by (auto simp: keeping_def kept_rules_def fun_eq_iff delete_conv NO_ERROR_def split: if_splits)
qed

section \<open>Lemmas\<close>

lemma lower_char_idem: "lower_char (lower_char c) = lower_char c"
proof (cases "65 \<le> (of_char c :: nat) \<and> (of_char c :: nat) \<le> 90")
  case True
  then have "of_char (char_of (of_char c + 32 :: nat)) = (of_char c + 32 :: nat)" by simp
  then show ?thesis using True by (simp add: lower_char_def Let_def)
qed (auto simp: lower_char_def Let_def)

lemma lowercase_idem [simp]: "lowercase (lowercase s) = lowercase s"
  by (simp add: lowercase_def lower_char_idem)

text \<open>No waiter is told before it was handed out.\<close>

definition waiters_ok :: "'cl resolver_state \<Rightarrow> bool" where
  "waiters_ok rv \<longleftrightarrow> (\<forall>w\<in>set (rv_told rv). w < rv_waiters rv)"

definition seen :: "string list \<Rightarrow> 'cl resolver_state \<Rightarrow> 'cl resolver_state" where
  "seen names = fold (\<lambda>name rv. snd (watching_for name rv)) names"

lemma seen_simps [simp]:
  "seen [] rv = rv" "seen (name # names) rv = seen names (snd (watching_for name rv))"
  by (simp_all add: seen_def)

lemma seen_told:
  assumes "rv_watched rv" "rv_watching rv = Some (lowercase canary, waiter)"
  shows "if \<exists>name\<in>set names. lowercase name = lowercase canary
    then waiter \<in> set (rv_told (seen names rv))
    else rv_watching (seen names rv) = Some (lowercase canary, waiter) \<and> rv_told (seen names rv) = rv_told rv"
  using assms
proof (induction names arbitrary: rv)
  case (Cons name names)
  have idle: "rv_watching r = None \<Longrightarrow> seen ns r = r" for ns and r :: "'a resolver_state"
    by (induction ns) (auto simp: watching_for_def)
  show ?case
  proof (cases "lowercase name = lowercase canary")
    case True
    then show ?thesis using Cons.prems
      idle[of "snd (watching_for name rv)" names] by (simp add: watching_for_def)
  next
    case False
    then show ?thesis using Cons.IH[of rv] Cons.prems by (simp add: watching_for_def)
  qed
qed simp

lemma begun:
  assumes "take_over_begins rg server canary (rv, nm) = (Inr waiter, rv', nm')"
  shows "waiter = rv_waiters rv" "rv' = snd (watch_for canary rv)" "rv_told rv' = rv_told rv"
  using assms by (auto simp: take_over_begins_def watch_for_def split: prod.splits sum.splits)

section \<open>The properties\<close>

text \<open>The sweep takes this core's rules and no other: whatever it deletes carries the mark, everything else
  is as it was, and it says how many there were, having had the machine forget its answers when there
  was any. When the policy opens and no rule refuses to go, no marked rule is left.\<close>

theorem sweep_takes_own_rules:
  assumes "name_policy rg rules" "release rg nm = (n, nm')"
  shows "\<exists>gone. gone \<subseteq> {k. marked (rules (nm_policy nm) k)} \<and> n = card gone \<and>
      rules (nm_policy nm') = rules (nm_policy nm) |` (- gone) \<and>
      nm_forgotten nm' = nm_forgotten nm + (if 0 < n then 1 else 0) \<and>
      (rg_subkeys rg (nm_policy nm) \<noteq> None \<and> obliging rg rules \<longrightarrow>
         gone = {k. marked (rules (nm_policy nm) k)})"
  by (rule name_policy.released[OF assms])

definition sample_naming :: "kept naming" where
  "sample_naming = \<lparr>nm_policy = [(''a'', [(''Comment'', RegText ''vpn'')]), (RULE, [(''Comment'', RegText MARK)])],
     nm_forgotten = 0\<rparr>"

theorem sweep_takes_own_rules_witness:
  "release (keeping (\<lambda>_. False)) sample_naming = (1, \<lparr>nm_policy = [(''a'', [(''Comment'', RegText ''vpn'')])], nm_forgotten = 1\<rparr>) \<and>
   marked (kept_rules (nm_policy sample_naming) RULE)"
proof -
  have r: "release (keeping (\<lambda>_. False)) sample_naming =
      (1, \<lparr>nm_policy = [(''a'', [(''Comment'', RegText ''vpn'')])], nm_forgotten = 1\<rparr>)" by code_simp
  have "marked (kept_rules (nm_policy sample_naming) RULE)" by code_simp
  then show ?thesis using r sweep_takes_own_rules[OF keeping.name_policy_axioms r] by simp
qed

text \<open>C27. A takeover that nothing supersedes is reported exactly when the machine uses the rule: it succeeds
  when the name the operating system was given to resolve, in whatever case, is among the names asked
  of the resolver before the time ran out, and is not carried otherwise.\<close>

theorem lone_claim_proved:
  assumes "take_over_begins rg server canary (rv, nm) = (Inr waiter, rv1, nm1)" "waiters_ok rv"
  shows "fst (take_over_ends rg waiter (seen names rv1, nm1)) =
    (if \<exists>name\<in>set names. lowercase name = lowercase canary then Inr () else Inl NotCarried)"
proof -
  note b = begun[OF assms(1)]
  have "waiter \<notin> set (rv_told rv1)" using b assms(2) by (auto simp: waiters_ok_def)
  moreover have "rv_watched rv1" "rv_watching rv1 = Some (lowercase canary, waiter)"
    using b(1,2) by (simp_all add: watch_for_def)
  ultimately show ?thesis using seen_told[of rv1 canary waiter names]
    by (auto simp: take_over_ends_def Let_def arrived_def split: if_splits)
qed

text \<open>A takeover that is superseded is reported as carried although nothing arrived: two begin, no name is
  asked of the resolver at all, and both end in success, the first because the second watch closed its
  channel, the second because the first stopped watching. Only the clock running out is looked at.\<close>

theorem superseded_claim_believed:
  assumes "take_over_begins rg server first (rv, nm) = (Inr w1, rv1, nm1)"
    and "take_over_begins rg server second (rv1, nm1) = (Inr w2, rv2, nm2)" "waiters_ok rv"
  shows "\<exists>rv3 nm3 rv4 nm4. take_over_ends rg w1 (rv2, nm2) = (Inr (), rv3, nm3) \<and>
    take_over_ends rg w2 (rv3, nm3) = (Inr (), rv4, nm4) \<and> rv_told rv4 = rv_told rv \<and>
    w1 \<notin> set (rv_told rv4) \<and> w2 \<notin> set (rv_told rv4)"
  using begun[OF assms(1)] begun[OF assms(2)] assms(3)
  by (auto simp: take_over_ends_def Let_def arrived_def watch_for_def stop_watching_def waiters_ok_def forget_answers_def)

text \<open>A claim that fails at the mark leaves the rule behind: every name is pointed at this core, the caller is
  told that nothing was claimed, and no sweep will take the rule, now or in a later run, since what it
  looks for was never written.\<close>

theorem half_written_rule_stays:
  assumes "name_policy rg rules" "rules (nm_policy nm) RULE = None"
    and "takes_values rg rules (\<lambda>name. name \<noteq> ''Comment'')"
  shows "\<exists>code nm'. take_over_begins rg server canary (rv, nm) =
      (Inl (RegistryFailed ''writing a value of the rule'' code), rv, nm') \<and>
    rules (nm_policy (snd (release rg nm'))) RULE = Some [''Version'' \<mapsto> RegNumber RULE_VERSION,
      ''Name'' \<mapsto> RegNames EVERY_NAME, ''GenericDNSServers'' \<mapsto> RegText server,
      ''ConfigOptions'' \<mapsto> RegNumber USES_GENERIC_SERVERS]"
proof -
  let ?before = "take 4 (rule_values server)"
  let ?left = "[''Version'' \<mapsto> RegNumber RULE_VERSION, ''Name'' \<mapsto> RegNames EVERY_NAME,
      ''GenericDNSServers'' \<mapsto> RegText server, ''ConfigOptions'' \<mapsto> RegNumber USES_GENERIC_SERVERS]"
  have "\<forall>nv\<in>set ?before. fst nv \<noteq> ''Comment''" by (simp add: rule_values_def)
  from name_policy.claim_written[OF assms(1,3) append_take_drop_id[symmetric] this, of "nm_policy nm"] assms(2)
  obtain r4
    where r4: "rules r4 RULE = Some (map_of (rev ?before))"
      "claim rg server (nm_policy nm) = write_values rg (drop 4 (rule_values server)) r4"
    by auto (metis fun_upd_same)
  obtain code r5 where s: "rg_set rg RULE ''Comment'' (RegText MARK) r4 = (code, r5)" by fastforce
  have code: "code \<noteq> NO_ERROR" using assms(3) r4(1) s unfolding takes_values_def by (metis fst_conv option.distinct(1))
  let ?nm = "nm\<lparr>nm_policy := r5\<rparr>"
  have left: "map_of (rev ?before) = ?left" by (simp add: rule_values_def fun_upd_twist)
  have l: "rules (nm_policy ?nm) RULE = Some ?left"
    using name_policy.written[OF assms(1) s r4(1)] code r4(1) left by simp
  have "drop 4 (rule_values server) = [(''Comment'', RegText MARK), (''DisplayName'', RegText MARK)]"
    by (simp add: rule_values_def)
  then have t: "take_over_begins rg server canary (rv, nm) =
      (Inl (RegistryFailed ''writing a value of the rule'' code), rv, ?nm)"
    using r4(2) s code by (simp add: take_over_begins_def)
  from l have unmarked: "\<not> marked (rules (nm_policy ?nm) RULE)" by (simp add: marked_def)
  obtain n nm'' where r: "release rg ?nm = (n, nm'')" by fastforce
  obtain gone where g: "gone \<subseteq> {k. marked (rules (nm_policy ?nm) k)}"
    "rules (nm_policy nm'') = rules (nm_policy ?nm) |` (- gone)" using name_policy.released[OF assms(1) r] by blast
  have "RULE \<notin> gone" using g(1) unmarked by blast
  then have "rules (nm_policy nm'') RULE = Some ?left" using g(2) l by simp
  then show ?thesis using t r by (intro exI[of _ code] exI[of _ ?nm]) simp
qed

definition empty_naming :: "kept naming" where
  "empty_naming = \<lparr>nm_policy = [], nm_forgotten = 0\<rparr>"

lemma keeping_takes: "takes_values (keeping refused) kept_rules (\<lambda>name. \<not> refused name)"
  by (auto simp: takes_values_def keeping_def kept_rules_def NO_ERROR_def)

lemma keeping_begins:
  "\<exists>nm'. take_over_begins (keeping (\<lambda>_. False)) server canary (rv, nm) =
     (Inr (rv_waiters rv), snd (watch_for canary rv), nm')"
proof -
  have "\<forall>nv\<in>set (rule_values server). \<not> False" by simp
  from keeping.claim_written[OF keeping_takes append_Nil2[symmetric] this]
  obtain r' where "claim (keeping (\<lambda>_. False)) server (nm_policy nm) = (Inr (), r')" by auto
  then show ?thesis by (simp add: take_over_begins_def watch_for_def)
qed

theorem half_written_rule_stays_witness:
  "\<exists>code nm'. take_over_begins (keeping (\<lambda>name. name = ''Comment'')) ''127.0.0.1'' ''q'' (resolver_new None :: unit resolver_state, empty_naming) =
      (Inl (RegistryFailed ''writing a value of the rule'' code), resolver_new None, nm') \<and>
    kept_rules (nm_policy (snd (release (keeping (\<lambda>name. name = ''Comment'')) nm'))) RULE \<noteq> None"
proof -
  have "kept_rules (nm_policy empty_naming) RULE = None" by (simp add: kept_rules_def empty_naming_def)
  from half_written_rule_stays[OF keeping.name_policy_axioms this keeping_takes,
      of "''127.0.0.1''" "''q''" "resolver_new None :: unit resolver_state"]
  show ?thesis by (metis option.distinct(1))
qed

theorem lone_claim_proved_witness:
  "\<exists>rv1 nm1. take_over_begins (keeping (\<lambda>_. False)) ''127.0.0.1'' ''aB'' (resolver_new None :: unit resolver_state, empty_naming) =
      (Inr 0, rv1, nm1) \<and>
    fst (take_over_ends (keeping (\<lambda>_. False)) 0 (seen [''c'', ''Ab''] rv1, nm1)) = Inr () \<and>
    fst (take_over_ends (keeping (\<lambda>_. False)) 0 (seen [''c''] rv1, nm1)) = Inl NotCarried"
proof -
  obtain nm1 where b: "take_over_begins (keeping (\<lambda>_. False)) ''127.0.0.1'' ''aB''
      (resolver_new None :: unit resolver_state, empty_naming) =
      (Inr 0, snd (watch_for ''aB'' (resolver_new None)), nm1)"
    using keeping_begins[of "''127.0.0.1''" "''aB''" "resolver_new None :: unit resolver_state" empty_naming]
    by (auto simp: resolver_new_def)
  have w: "waiters_ok (resolver_new None :: unit resolver_state)" by (simp add: waiters_ok_def resolver_new_def)
  have "lowercase ''Ab'' = lowercase ''aB''" "lowercase ''c'' \<noteq> lowercase ''aB''" by code_simp+
  then show ?thesis
    using b lone_claim_proved[OF b w, of "[''c'', ''Ab'']"] lone_claim_proved[OF b w, of "[''c'']"] by auto
qed

theorem superseded_claim_believed_witness:
  "\<exists>rv2 nm2 rv3 nm3. take_over_ends (keeping (\<lambda>_. False)) 0 (rv2 :: unit resolver_state, nm2) = (Inr (), rv3, nm3) \<and>
    0 \<notin> set (rv_told rv2)"
proof -
  let ?rv = "resolver_new None :: unit resolver_state"
  obtain nm1 where b1: "take_over_begins (keeping (\<lambda>_. False)) ''127.0.0.1'' ''a'' (?rv, empty_naming) =
      (Inr (rv_waiters ?rv), snd (watch_for ''a'' ?rv), nm1)" using keeping_begins by blast
  obtain nm2 where b2: "take_over_begins (keeping (\<lambda>_. False)) ''127.0.0.1'' ''b'' (snd (watch_for ''a'' ?rv), nm1) =
      (Inr (rv_waiters (snd (watch_for ''a'' ?rv))), snd (watch_for ''b'' (snd (watch_for ''a'' ?rv))), nm2)"
    using keeping_begins by blast
  have w: "waiters_ok ?rv" "rv_waiters ?rv = 0" "rv_told (snd (watch_for ''b'' (snd (watch_for ''a'' ?rv)))) = []"
    by (simp_all add: waiters_ok_def resolver_new_def watch_for_def)
  from superseded_claim_believed[OF b1 b2 w(1)] w(2,3) show ?thesis by fastforce
qed

end
