(* ===== verification/Control.thy ===== *)
theory Control
  imports Dns_System Names Handshake
begin

text \<open>
  The control interface, \<open>src/control.rs\<close>, and the level of the journal, \<open>src/log.rs\<close>: what each
  request of the application does to the core, the resolver, the machine's names, the shape of the
  handshake and the level, and what is said in reply.

  A reply is the JSON value of the code, which the library prints; how a line is read as a request is
  the library's as well. The one request that waits is the claim of the machine's names: it is two
  steps, as the takeover of \<open>Names\<close> is. Text is taken to be ASCII where it is trimmed.
\<close>

section \<open>How much is said\<close>

datatype level = Error | Warn | Notice | Info | Debug

fun level_code :: "level \<Rightarrow> u8" where
  "level_code Error = 0"
| "level_code Warn = 1"
| "level_code Notice = 2"
| "level_code Info = 3"
| "level_code Debug = 4"

fun word :: "level \<Rightarrow> string" where
  "word Error = ''ERROR''"
| "word Warn = ''WARN''"
| "word Notice = ''NOTICE''"
| "word Info = ''INFO''"
| "word Debug = ''DEBUG''"

definition is_white :: "char \<Rightarrow> bool" where
  "is_white c = (let n = of_char c :: nat in n = 32 \<or> 9 \<le> n \<and> n \<le> 13)"

definition trim :: "string \<Rightarrow> string" where
  "trim s = rev (dropWhile is_white (rev (dropWhile is_white s)))"

definition parse_level :: "string \<Rightarrow> level option" where
  "parse_level written =
     (let w = lowercase (trim written) in
      if w = ''error'' then Some Error
      else if w = ''warn'' \<or> w = ''warning'' then Some Warn
      else if w = ''notice'' then Some Notice
      else if w = ''info'' then Some Info
      else if w = ''debug'' \<or> w = ''trace'' then Some Debug
      else None)"

definition from_stored :: "u8 \<Rightarrow> level" where
  "from_stored v = (if v = 0 then Error else if v = 1 then Warn else if v = 2 then Notice
     else if v = 4 then Debug else Info)"

definition enabled :: "level \<Rightarrow> u8 \<Rightarrow> bool" where
  "enabled l stored = (level_code l \<le> stored)"

section \<open>Requests and replies\<close>

datatype request =
    StatusRequest
  | RoutesRequest "string list" bool
  | DnsRequest policy_input
  | LogRequest string
  | NamesRequest bool
  | SniRequest string
  | ReconnectRequest
  | StopRequest

datatype json = JBool bool | JNumber nat | JText string | JList "json list" | JObject "(string \<times> json) list"

text \<open>The process, as far as a request can reach it, and what is outside of it.\<close>

record ('os, 'cl, 'r) process =
  ps_core :: "'os core"
  ps_resolver :: "'cl resolver_state"
  ps_naming :: "'r naming"
  ps_shape :: handshake_choice
  ps_level :: u8

record ('os, 'x, 'st, 'cl, 'r) machine =
  mc_create :: "prefix \<Rightarrow> 'os \<Rightarrow> u32 \<times> 'os"
  mc_delete :: "prefix \<Rightarrow> 'os \<Rightarrow> u32 \<times> 'os"
  mc_stack :: stack
  mc_net :: "('x, 'st, 'cl) net"
  mc_registry :: "'r registry"
  mc_is_name :: "string \<Rightarrow> bool"
  mc_parse_ip :: "string \<Rightarrow> ip_addr option"
  mc_show_ip :: "ip_addr \<Rightarrow> string"
  mc_show_tun :: "tun_error \<Rightarrow> string"
  mc_show_install :: "('x, 'st) install_error \<Rightarrow> string"

definition refusal :: "string \<Rightarrow> json" where
  "refusal problem = JObject [(''ok'', JBool False), (''error'', JText problem)]"

definition accepted :: "(string \<times> json) list \<Rightarrow> json" where
  "accepted entries = JObject ((''ok'', JBool True) # entries)"

fun prefix_problem :: "prefix_error \<Rightarrow> string" where
  "prefix_problem (NotAddress w) = ''`'' @ w @ ''` is not an address''"
| "prefix_problem (NoLength w) = ''`'' @ w @ ''` has no prefix length after the slash''"
| "prefix_problem (TooLongFor w) = ''`'' @ w @ ''` is longer than its address family allows''"

fun name_problem :: "name_error \<Rightarrow> string" where
  "name_problem (RegistryFailed what code) =
     ''the name policy could not be written ('' @ what @ '' failed with error '' @ decimal (unat code) @ '')''"
| "name_problem NotCarried = ''the name policy was written but the machine did not use it''"

text \<open>Collected into a set, stopping at the first that does not read.\<close>

fun prefixes :: "(string \<Rightarrow> ip_addr option) \<Rightarrow> string list \<Rightarrow> string + prefix set" where
  "prefixes parse_ip [] = Inr {}"
| "prefixes parse_ip (one # rest) =
     (case parse_prefix parse_ip one of
        Inl problem \<Rightarrow> Inl (prefix_problem problem)
      | Inr p \<Rightarrow> (case prefixes parse_ip rest of Inl problem \<Rightarrow> Inl problem | Inr ps \<Rightarrow> Inr (insert p ps)))"

definition written :: "(ip_addr \<Rightarrow> string) \<Rightarrow> prefix list \<Rightarrow> json" where
  "written show_ip ps = JList (map (\<lambda>(address, len). JText (show_ip address @ ''/'' @ decimal (unat len))) ps)"

section \<open>Status\<close>

definition low64 :: "nat \<Rightarrow> json" where
  "low64 n = JNumber (n mod 2 ^ 64)"

definition path_entry :: "path_reading \<Rightarrow> json" where
  "path_entry p = JObject [(''rtt_ms'', low64 (as_millis (pr_rtt p))), (''cwnd'', JNumber (unat (pr_cwnd p))),
     (''sent'', JNumber (unat (pr_sent p))), (''lost'', JNumber (unat (pr_lost p))),
     (''datagrams'', JNumber (unat (pr_datagrams p))), (''read'', JNumber (unat (pr_read p)))]"

definition tunnel_entry :: "'os core \<Rightarrow> json" where
  "tunnel_entry c = JObject ((''state'', JText (phase_name (co_phase c))) #
     (case co_phase c of
        Connecting tries \<Rightarrow> [(''attempt'', JNumber tries)]
      | Up stages \<Rightarrow>
          [(''transport'', JText (carrier_name (stages_carrier stages))),
           (''stages'', JObject (map (\<lambda>(name, ms). (name @ ''_ms'', low64 ms)) (stages_steps stages)))] @
          (case co_path c of Some p \<Rightarrow> [(''path'', path_entry p)] | None \<Rightarrow> [])
      | Lost reason retry blocked \<Rightarrow>
          [(''reason'', JText reason), (''retry_in_ms'', low64 (as_millis retry)), (''blocked'', JBool blocked)]))"

definition traffic_entry :: "counter \<Rightarrow> json" where
  "traffic_entry c = (case counter_read c of (packets, volume) \<Rightarrow>
     JObject [(''packets'', JNumber (unat packets)), (''bytes'', JNumber (unat volume))])"

definition ipv6_entry :: "'os core \<Rightarrow> json" where
  "ipv6_entry c = JText (case core_ipv6_support c of
     Carries \<Rightarrow> ''carried'' | DoesNot \<Rightarrow> ''not carried'' | Unknown \<Rightarrow> ''not measured yet'')"

definition dns_entry :: "server_stats \<Rightarrow> leases \<Rightarrow> json" where
  "dns_entry s l = JObject [(''queries'', JNumber (ss_queries s)), (''answered'', JNumber (ss_answered s)),
     (''failed'', JNumber (ss_failed s)), (''routed'', JNumber (ss_routed s)), (''leases'', JNumber (length (ls_held l)))]"

definition status :: "(ip_addr \<Rightarrow> string) \<Rightarrow> ('os, 'cl, 'r) process \<Rightarrow> json" where
  "status show_ip ps = (let c = ps_core ps in accepted
     [(''tunnel'', tunnel_entry c), (''routes'', written show_ip (sorted_list_of_set (co_routes c))),
      (''traffic'', JObject [(''out'', traffic_entry (co_out c)), (''back'', traffic_entry (co_back c))]),
      (''level'', JText (lowercase (word (from_stored (ps_level ps))))), (''ipv6'', ipv6_entry c),
      (''dns'', dns_entry (rv_stats (ps_resolver ps)) (co_leases c))])"

section \<open>Answering\<close>

definition routes_request :: "('os, 'x, 'st, 'cl, 'r) machine \<Rightarrow> string list \<Rightarrow> bool \<Rightarrow> ('os, 'cl, 'r) process \<Rightarrow>
    json \<times> ('os, 'cl, 'r) process" where
  "routes_request mc listed ipv6 ps =
     (case prefixes (mc_parse_ip mc) listed of
        Inl problem \<Rightarrow> (refusal problem, ps)
      | Inr wanted \<Rightarrow>
          (case set_routes (mc_create mc) (mc_delete mc) wanted (set_wants_ipv6 ipv6 (ps_core ps)) of
             (Inl problem, c) \<Rightarrow> (refusal (mc_show_tun mc problem), ps\<lparr>ps_core := c\<rparr>)
           | (Inr change, c) \<Rightarrow>
               (accepted [(''added'', written (mc_show_ip mc) (ch_added change)),
                  (''removed'', written (mc_show_ip mc) (ch_removed change))], ps\<lparr>ps_core := c\<rparr>)))"

definition dns_request :: "('os, 'x, 'st, 'cl, 'r) machine \<Rightarrow> policy_input \<Rightarrow> ('os, 'cl, 'r) process \<Rightarrow>
    (unit, json) outcome \<times> ('os, 'cl, 'r) process" where
  "dns_request mc input ps =
     (case install (core_sink (mc_create mc) (mc_delete mc) (mc_stack mc)) (mc_net mc) input (ps_resolver ps, ps_core ps) of
        (r, rv, c) \<Rightarrow>
          let ps = ps\<lparr>ps_resolver := rv, ps_core := c\<rparr> in
          (case r of
             Panic \<Rightarrow> (Panic, ps)
           | Err problem \<Rightarrow> (Ok (refusal (mc_show_install mc problem)), ps)
           | Ok report \<Rightarrow>
               (Ok (accepted [(''rules'', JNumber (ir_rules report)), (''resolvers'', JNumber (ir_resolvers report)),
                  (''tunnelled'', JNumber (ir_tunnelled report))]),
                ps\<lparr>ps_naming := forget_answers (ps_naming ps)\<rparr>)))"

definition log_request :: "string \<Rightarrow> ('os, 'cl, 'r) process \<Rightarrow> json \<times> ('os, 'cl, 'r) process" where
  "log_request wording ps =
     (case parse_level wording of
        None \<Rightarrow> (refusal (''`'' @ wording @ ''` is not a level; it is one of error, warn, notice, info, debug''), ps)
      | Some level \<Rightarrow> (accepted [(''level'', JText (lowercase (word level)))], ps\<lparr>ps_level := level_code level\<rparr>))"

text \<open>A reply, or the number of the waiter a claim waits for.\<close>

datatype progress = Replied json | Claiming nat

definition names_request :: "('os, 'x, 'st, 'cl, 'r) machine \<Rightarrow> string \<Rightarrow> bool \<Rightarrow> ('os, 'cl, 'r) process \<Rightarrow>
    progress \<times> ('os, 'cl, 'r) process" where
  "names_request mc canary wanted ps =
     (if \<not> wanted then
        (case release (mc_registry mc) (ps_naming ps) of (removed, nm) \<Rightarrow>
           (Replied (accepted [(''claimed'', JBool False), (''removed'', JNumber removed)]), ps\<lparr>ps_naming := nm\<rparr>))
      else
        (case rv_listen (ps_resolver ps) of
           None \<Rightarrow> (Replied (refusal ''this core is not answering names''), ps)
         | Some listen \<Rightarrow>
             (case take_over_begins (mc_registry mc) (mc_show_ip mc (fst listen)) canary (ps_resolver ps, ps_naming ps) of
                (Inl problem, rv, nm) \<Rightarrow> (Replied (refusal (name_problem problem)), ps\<lparr>ps_resolver := rv, ps_naming := nm\<rparr>)
              | (Inr waiter, rv, nm) \<Rightarrow> (Claiming waiter, ps\<lparr>ps_resolver := rv, ps_naming := nm\<rparr>))))"

definition claim_ends :: "('os, 'x, 'st, 'cl, 'r) machine \<Rightarrow> nat \<Rightarrow> ('os, 'cl, 'r) process \<Rightarrow>
    json \<times> ('os, 'cl, 'r) process" where
  "claim_ends mc waiter ps =
     (case take_over_ends (mc_registry mc) waiter (ps_resolver ps, ps_naming ps) of
        (r, rv, nm) \<Rightarrow>
          let ps = ps\<lparr>ps_resolver := rv, ps_naming := nm\<rparr> in
          (case r of
             Inl problem \<Rightarrow> (refusal (name_problem problem), ps)
           | Inr _ \<Rightarrow> (accepted [(''claimed'', JBool True)], ps)))"

definition sni_request :: "('os, 'x, 'st, 'cl, 'r) machine \<Rightarrow> string \<Rightarrow> ('os, 'cl, 'r) process \<Rightarrow>
    json \<times> ('os, 'cl, 'r) process" where
  "sni_request mc name ps =
     (case set_fronted_name (mc_is_name mc) name (ps_shape ps) of
        None \<Rightarrow> (refusal (''`'' @ name @ ''` is not a DNS name''), ps)
      | Some shape \<Rightarrow> (accepted [], ps\<lparr>ps_shape := shape\<rparr>))"

text \<open>\<open>answer\<close>, up to the wait of a claim.\<close>

fun answer_request :: "('os, 'x, 'st, 'cl, 'r) machine \<Rightarrow> string \<Rightarrow> request \<Rightarrow> ('os, 'cl, 'r) process \<Rightarrow>
    (unit, progress) outcome \<times> ('os, 'cl, 'r) process" where
  "answer_request mc canary StatusRequest ps = (Ok (Replied (status (mc_show_ip mc) ps)), ps)"
| "answer_request mc canary (RoutesRequest listed ipv6) ps =
     (case routes_request mc listed ipv6 ps of (reply, ps) \<Rightarrow> (Ok (Replied reply), ps))"
| "answer_request mc canary (DnsRequest input) ps =
     (case dns_request mc input ps of
        (Ok reply, ps) \<Rightarrow> (Ok (Replied reply), ps) | (Err e, ps) \<Rightarrow> (Err e, ps) | (Panic, ps) \<Rightarrow> (Panic, ps))"
| "answer_request mc canary (LogRequest wording) ps =
     (case log_request wording ps of (reply, ps) \<Rightarrow> (Ok (Replied reply), ps))"
| "answer_request mc canary (NamesRequest wanted) ps =
     (case names_request mc canary wanted ps of (progress, ps) \<Rightarrow> (Ok progress, ps))"
| "answer_request mc canary (SniRequest name) ps =
     (case sni_request mc name ps of (reply, ps) \<Rightarrow> (Ok (Replied reply), ps))"
| "answer_request mc canary ReconnectRequest ps =
     (Ok (Replied (accepted [])), ps\<lparr>ps_core := core_reconnect (ps_core ps)\<rparr>)"
| "answer_request mc canary StopRequest ps =
     (Ok (Replied (accepted [])), ps\<lparr>ps_core := core_stop (ps_core ps)\<rparr>)"

section \<open>A conversation\<close>

text \<open>The lines of one caller: the blank ones are passed over, each other one is answered by a line, until
  the caller is gone.\<close>

fun control_converse :: "(string \<Rightarrow> string + request) \<Rightarrow> (request \<Rightarrow> 's \<Rightarrow> json \<times> 's) \<Rightarrow> string list \<Rightarrow> 's \<Rightarrow>
    json list \<times> 's" where
  "control_converse parse answered [] s = ([], s)"
| "control_converse parse answered (line # lines) s =
     (if trim line = [] then control_converse parse answered lines s
      else
        (case (case parse line of Inr request \<Rightarrow> answered request s | Inl problem \<Rightarrow> (refusal problem, s)) of
           (reply, s) \<Rightarrow> (case control_converse parse answered lines s of (replies, s) \<Rightarrow> (reply # replies, s))))"

section \<open>Lemmas\<close>

lemma build_resolvers_no_panic: "build_resolvers m rs \<noteq> Panic"
  by (induction m rs rule: build_resolvers.induct) auto

lemma build_rules_no_panic: "build_rules p i rs \<noteq> Panic"
  by (induction p i rs rule: build_rules.induct)
    (auto simp: Let_def and_then_eq_Panic split: if_splits matcher.splits)

lemma policy_build_no_panic: "policy_build input \<noteq> Panic"
  by (simp add: policy_build_def and_then_eq_Panic build_resolvers_no_panic build_rules_no_panic)

lemma ok_or_no_panic: "ok_or r e \<noteq> Panic"
  by (cases r) simp_all

lemma build_upstream_no_panic: "build_upstream net r \<noteq> Panic"
  by (auto simp: build_upstream_def Let_def and_then_eq_Panic ok_or_no_panic split: resolver_kind.splits sum.splits)

lemma upstreams_build_no_panic: "upstreams_build net rs by_id \<noteq> Panic"
  by (induction rs arbitrary: by_id) (simp_all add: and_then_eq_Panic build_upstream_no_panic)

lemma install_no_panic: "fst (install sink net input (rv, s)) \<noteq> Panic"
  by (auto simp: install_def Let_def policy_build_no_panic upstreams_build_no_panic split: outcome.splits option.splits)

lemma prefixes_set:
  "prefixes parse_ip listed = Inr wanted \<Longrightarrow>
     finite wanted \<and> (\<forall>p. p \<in> wanted \<longleftrightarrow> (\<exists>w\<in>set listed. parse_prefix parse_ip w = Inr p))"
  by (induction listed arbitrary: wanted) (fastforce split: sum.splits)+

text \<open>A reply has the shape the application reads: an object that says first whether it went well, and
  otherwise carries the problem and nothing else.\<close>

fun is_refused :: "json \<Rightarrow> bool" where
  "is_refused (JObject ((key, JBool went) # _)) = (key = ''ok'' \<and> \<not> went)"
| "is_refused _ = False"

fun formed :: "json \<Rightarrow> bool" where
  "formed (JObject ((key, JBool True) # entries)) = (key = ''ok'' \<and> ''error'' \<notin> fst ` set entries \<and>
     distinct (key # map fst entries))"
| "formed (JObject [(key, JBool False), (name, JText _)]) = (key = ''ok'' \<and> name = ''error'')"
| "formed _ = False"

lemma reply_forms [simp]:
  "formed (refusal t)" "is_refused (refusal t)" "\<not> is_refused (accepted es)"
  "formed (accepted es) \<longleftrightarrow> ''error'' \<notin> fst ` set es \<and> ''ok'' \<notin> fst ` set es \<and> distinct (map fst es)"
  by (auto simp: refusal_def accepted_def)

lemma level_words: "parse_level (word l) = Some l" "parse_level (lowercase (word l)) = Some l"
  by (cases l; simp add: parse_level_def Let_def trim_def is_white_def lowercase_def lower_char_def char_of_def bit_0)+

section \<open>The properties\<close>

text \<open>C30. No request brings the control task down, whatever the application sends and the outside answers: each
  is answered by an object that says whether it went well and, when it did not, what was wrong and
  nothing else; the only one that waits is a claim of the machine's names, and it is answered so when
  its wait is over.\<close>

theorem replies_formed:
  "(case answer_request mc canary req ps of
      (Ok (Replied j), _) \<Rightarrow> formed j | (Ok (Claiming _), _) \<Rightarrow> req = NamesRequest True | _ \<Rightarrow> False) \<and>
   formed (fst (claim_ends mc waiter ps))"
proof -
  have "formed (fst (claim_ends mc waiter ps))"
    by (auto simp: claim_ends_def Let_def split: prod.splits sum.splits)
  moreover have "case answer_request mc canary req ps of
      (Ok (Replied j), _) \<Rightarrow> formed j | (Ok (Claiming _), _) \<Rightarrow> req = NamesRequest True | _ \<Rightarrow> False"
  proof (cases req)
    case (DnsRequest input)
    then show ?thesis
      using install_no_panic[of "core_sink (mc_create mc) (mc_delete mc) (mc_stack mc)" "mc_net mc" input "ps_resolver ps" "ps_core ps"]
      by (auto simp: dns_request_def Let_def split: prod.splits outcome.splits)
  qed (auto simp: status_def Let_def routes_request_def log_request_def names_request_def sni_request_def
      split: prod.splits sum.splits option.splits)
  ultimately show ?thesis by blast
qed


text \<open>C29. Routes that were accepted are installed and reported: the set asked for is the prefixes listed, what
  is routed is that set and the leased addresses, IPv6 only when asked for and carried, the reply lists
  what was not routed before, and the next status lists it all.\<close>

theorem routes_request_installed:
  assumes "forward_table (mc_create mc) (mc_delete mc) rows"
    and "finite (co_routes (ps_core ps))"
    and "answer_request mc canary (RoutesRequest listed ipv6) ps = (Ok (Replied j), ps')" "\<not> is_refused j"
  shows "\<exists>added removed.
    j = accepted [(''added'', written (mc_show_ip mc) added), (''removed'', written (mc_show_ip mc) removed)] \<and>
    (\<forall>p. p \<in> co_asked (ps_core ps') \<longleftrightarrow> (\<exists>w\<in>set listed. parse_prefix (mc_parse_ip mc) w = Inr p)) \<and>
    co_routes (ps_core ps') = {(a, len). ((a, len) \<in> co_asked (ps_core ps') \<or>
        a \<in> set (lease_addresses (co_leases (ps_core ps))) \<and> len = (if is_ipv4 a then 32 else 128)) \<and>
      (is_ipv4 a \<or> ipv6 \<and> core_ipv6_support (ps_core ps) = Carries)} \<and>
    set added = co_routes (ps_core ps') - co_routes (ps_core ps) \<and>
    ps' = ps\<lparr>ps_core := ps_core ps'\<rparr>"
proof -
  obtain wanted where w: "prefixes (mc_parse_ip mc) listed = Inr wanted"
    using assms(3,4) by (auto simp: routes_request_def split: sum.splits)
  note fin = prefixes_set[OF w]
  let ?c = "(set_wants_ipv6 ipv6 (ps_core ps))\<lparr>co_asked := wanted\<rparr>"
  obtain change c where s: "install_union (mc_create mc) (mc_delete mc) ?c = (Inr change, c)"
    "j = accepted [(''added'', written (mc_show_ip mc) (ch_added change)), (''removed'', written (mc_show_ip mc) (ch_removed change))]"
    "ps' = ps\<lparr>ps_core := c\<rparr>"
    using assms(3,4) w by (auto simp: routes_request_def set_routes_def split: sum.splits prod.splits)
  note b = forward_table.install_books[OF assms(1) s(1)]
  have r: "co_routes c = wanted_routes ?c" "set (ch_added change) = wanted_routes ?c - co_routes (ps_core ps)"
    using b(4)[of change] assms(2) fin by (simp_all add: set_wants_ipv6_def)
  obtain installed os where c: "c = ?c\<lparr>co_routes := installed, co_table := os\<rparr>"
    using b(5) assms(2) fin by (auto simp: set_wants_ipv6_def)
  have a: "co_asked c = wanted" "co_leases ?c = co_leases (ps_core ps)" "co_wants_v6 ?c = ipv6"
    "core_ipv6_support ?c = core_ipv6_support (ps_core ps)"
    by (simp_all add: c set_wants_ipv6_def core_ipv6_support_def)
  show ?thesis
    using s(2,3) r fin a wanted_routes_eq[of ?c]
    by (intro exI[of _ "ch_added change"] exI[of _ "ch_removed change"]) simp
qed

text \<open>A level once accepted is the one in force: lines at it and above are printed, the others are not, and
  status says so; a word that is none is refused and changes nothing. Each level's own word is read as
  that level, in any case.\<close>

theorem level_takes_hold:
  "(case parse_level wording of
      None \<Rightarrow> is_refused (fst (log_request wording ps)) \<and> snd (log_request wording ps) = ps
    | Some l \<Rightarrow> from_stored (ps_level (snd (log_request wording ps))) = l \<and>
        (\<forall>m. enabled m (ps_level (snd (log_request wording ps))) = (level_code m \<le> level_code l))) \<and>
   parse_level (word l') = Some l' \<and> parse_level (lowercase (word l')) = Some l'"
proof -
  have "from_stored (level_code l) = l" for l by (cases l) (simp_all add: from_stored_def)
  then show ?thesis by (simp add: log_request_def enabled_def level_words split: option.split)
qed

text \<open>A caller is answered line by line: a line that says something gets one reply, at the place its turn
  has among those lines, in the state the lines before it have left; one that does not read as a request
  is refused there and changes nothing; blank lines get none.\<close>

theorem conversation_line_by_line:
  assumes "control_converse parse answered (before @ line # after) s = (replies, s')" "trim line \<noteq> []"
  shows "\<exists>rs1 s1 reply s2 rs2. control_converse parse answered before s = (rs1, s1) \<and>
    length rs1 = length (filter (\<lambda>l. trim l \<noteq> []) before) \<and>
    (reply, s2) = (case parse line of Inr request \<Rightarrow> answered request s1 | Inl problem \<Rightarrow> (refusal problem, s1)) \<and>
    control_converse parse answered after s2 = (rs2, s') \<and> replies = rs1 @ reply # rs2"
  using assms(1)
proof (induction before arbitrary: s replies)
  case Nil
  then show ?case using assms(2) by (auto split: prod.splits)
next
  case (Cons l before)
  show ?case
  proof (cases "trim l = []")
    case True
    then show ?thesis using Cons by simp
  next
    case False
    obtain r s0 where r: "(case parse l of Inr request \<Rightarrow> answered request s | Inl problem \<Rightarrow> (refusal problem, s)) = (r, s0)"
      by fastforce
    obtain rest where rest: "control_converse parse answered (before @ line # after) s0 = (rest, s')"
      "replies = r # rest" using Cons.prems False r by (auto split: prod.splits)
    from Cons.IH[OF rest(1)] obtain rs1 s1 reply s2 rs2 where
      "control_converse parse answered before s0 = (rs1, s1)" "length rs1 = length (filter (\<lambda>l. trim l \<noteq> []) before)"
      "(reply, s2) = (case parse line of Inr request \<Rightarrow> answered request s1 | Inl problem \<Rightarrow> (refusal problem, s1))"
      "control_converse parse answered after s2 = (rs2, s')" "rest = rs1 @ reply # rs2" by blast
    then show ?thesis using rest False r
      by (intro exI[of _ "r # rs1"] exI[of _ s1] exI[of _ reply] exI[of _ s2] exI[of _ rs2]) simp
  qed
qed

section \<open>A machine\<close>

text \<open>One address that reads, a table that refuses no row, names as in \<open>keeping\<close>.\<close>

definition sample_machine :: "(prefix set, unit, unit, unit, kept) machine" where
  "sample_machine = \<lparr>mc_create = open_create, mc_delete = open_delete, mc_stack = sample_stack, mc_net = udp_net,
     mc_registry = keeping (\<lambda>_. False), mc_is_name = (\<lambda>name. name \<noteq> []),
     mc_parse_ip = (\<lambda>w. if w = ''10.0.0.9'' then Some (V4 0x0A000009) else None),
     mc_show_ip = (\<lambda>_. ''10.0.0.9''), mc_show_tun = (\<lambda>_. ''refused''), mc_show_install = (\<lambda>_. ''not installed'')\<rparr>"

definition sample_process :: "(prefix set, unit, kept) process" where
  "sample_process = \<lparr>ps_core = core_new 0 7 {}, ps_resolver = resolver_new None, ps_naming = empty_naming,
     ps_shape = handshake_initial, ps_level = level_code Info\<rparr>"


theorem routes_request_installed_witness:
  "\<exists>j ps'. answer_request sample_machine ''q'' (RoutesRequest [''10.0.0.9/32''] False) sample_process = (Ok (Replied j), ps') \<and>
     (V4 0x0A000009, 32) \<in> co_routes (ps_core ps')"
proof -
  have parse: "parse_prefix (mc_parse_ip sample_machine) ''10.0.0.9/32'' = Inr (V4 0x0A000009, 32)" by code_simp
  have mc: "mc_create sample_machine = open_create" "mc_delete sample_machine = open_delete"
    by (simp_all add: sample_machine_def)
  let ?c = "(set_wants_ipv6 False (ps_core sample_process))\<lparr>co_asked := {(V4 0x0A000009, 32)}\<rparr>"
  obtain ch c' where "install_union open_create open_delete ?c = (Inr ch, c')"
    using install_willing[OF open_willing] by blast
  then obtain j ps' where a: "answer_request sample_machine ''q'' (RoutesRequest [''10.0.0.9/32''] False) sample_process =
      (Ok (Replied j), ps')" "\<not> is_refused j"
    using parse by (simp add: routes_request_def set_routes_def mc)
  have t: "forward_table (mc_create sample_machine) (mc_delete sample_machine) (\<lambda>os. os)"
    unfolding mc by (rule unrefused.forward_table_axioms)
  have f: "finite (co_routes (ps_core sample_process))" by (simp add: sample_process_def core_new_def)
  have "\<exists>w\<in>set [''10.0.0.9/32'']. parse_prefix (mc_parse_ip sample_machine) w = Inr (V4 0x0A000009, 32)" using parse by simp
  then have "(V4 0x0A000009, 32) \<in> co_routes (ps_core ps')"
    using routes_request_installed[OF t f a] by (elim exE conjE) simp
  then show ?thesis using a(1) by blast
qed

theorem conversation_line_by_line_witness:
  "\<exists>rs1 rs2 s'. control_converse (\<lambda>l. if l = ''s'' then Inr StopRequest else Inl ''what'') (\<lambda>_ n. (accepted [], n + 1))
      ([''s'', '' '', ''x''] @ ''s'' # ['' '']) (0 :: nat) = (rs1 @ accepted [] # rs2, s') \<and> length rs1 = 2"
proof -
  let ?parse = "\<lambda>l. if l = ''s'' then Inr StopRequest else Inl ''what''"
  let ?answered = "\<lambda>(_ :: request) n :: nat. (accepted [], n + 1)"
  have t: "trim ''s'' = ''s''" "trim ''x'' = ''x''" "trim '' '' = []" by code_simp+
  obtain replies s' where c: "control_converse ?parse ?answered ([''s'', '' '', ''x''] @ ''s'' # ['' '']) 0 = (replies, s')"
    by fastforce
  have n: "trim ''s'' \<noteq> []" by (simp add: t)
  from conversation_line_by_line[OF c n] obtain rs1 s1 reply s2 rs2 where
    r: "length rs1 = length (filter (\<lambda>l. trim l \<noteq> []) [''s'', '' '', ''x''])"
      "(reply, s2) = (case ?parse ''s'' of Inr request \<Rightarrow> ?answered request s1 | Inl problem \<Rightarrow> (refusal problem, s1))"
      "replies = rs1 @ reply # rs2" by blast
  then have "length rs1 = 2" "reply = accepted []" by (simp_all add: t)
  then show ?thesis unfolding c using r(3) by blast
qed

end
