(* ===== verification/Startup.thy ===== *)
theory Startup
  imports Control Carrier
begin

text \<open>
  The process, \<open>src/main.rs\<close>: the command line, what it sets before anything is opened, the sweep every
  command begins with, and the lines that say what the tunnel is doing. Paths are text; how an address
  and port is read from its text, and what a DNS name is, are the libraries' business.
\<close>

section \<open>The command line\<close>

record options =
  op_identity :: string
  op_wintun :: "string option"
  op_targets :: "string list"
  op_dns_listen :: "sock_addr option"
  op_log_level :: "level option"
  op_handshake :: "handshake option"
  op_sni :: "string option"
  op_transport :: "choice option"
  op_mtu :: "nat option"

definition default_options :: options where
  "default_options = \<lparr>op_identity = ''identity.json'', op_wintun = None, op_targets = [], op_dns_listen = None,
     op_log_level = None, op_handshake = None, op_sni = None, op_transport = None, op_mtu = None\<rparr>"

text \<open>\<open>parse::<u32>\<close>: an optional plus sign, then decimal digits, below \<open>2^32\<close>.\<close>

fun digits_below :: "nat \<Rightarrow> nat \<Rightarrow> string \<Rightarrow> nat option" where
  "digits_below limit v [] = Some v"
| "digits_below limit v (c # cs) =
     Option.bind (digit c) (\<lambda>d. if 10 * v + d < limit then digits_below limit (10 * v + d) cs else None)"

definition parse_u32 :: "string \<Rightarrow> nat option" where
  "parse_u32 s =
     (case s of
        [] \<Rightarrow> None
      | c # cs \<Rightarrow> let ds = if c = CHR ''+'' then cs else s in
          if ds = [] then None else digits_below (2 ^ 32) 0 ds)"

definition quoted :: "string \<Rightarrow> string \<Rightarrow> string" where
  "quoted w rest = ''`'' @ w @ ''` '' @ rest"

text \<open>The options that take a value, and what each does with it.\<close>

definition VALUED :: "string list" where
  "VALUED = [''--identity'', ''--wintun'', ''--target'', ''--log-level'', ''--handshake'', ''--sni'',
     ''--transport'', ''--mtu'', ''--dns-listen'']"

definition set_option :: "(string \<Rightarrow> sock_addr option) \<Rightarrow> string \<Rightarrow> string \<Rightarrow> options \<Rightarrow> string + options" where
  "set_option parse_addr flag v opts =
     (if flag = ''--identity'' then Inr (opts\<lparr>op_identity := v\<rparr>)
      else if flag = ''--wintun'' then Inr (opts\<lparr>op_wintun := Some v\<rparr>)
      else if flag = ''--target'' then Inr (opts\<lparr>op_targets := op_targets opts @ [v]\<rparr>)
      else if flag = ''--log-level'' then
        (case parse_level v of Some l \<Rightarrow> Inr (opts\<lparr>op_log_level := Some l\<rparr>) | None \<Rightarrow> Inl (quoted v ''is not a level''))
      else if flag = ''--handshake'' then
        (case handshake_parse v of Some h \<Rightarrow> Inr (opts\<lparr>op_handshake := Some h\<rparr>)
         | None \<Rightarrow> Inl (quoted v ''is not a handshake strategy''))
      else if flag = ''--sni'' then Inr (opts\<lparr>op_sni := Some v\<rparr>)
      else if flag = ''--transport'' then
        (case choice_parse v of Some c \<Rightarrow> Inr (opts\<lparr>op_transport := Some c\<rparr>) | None \<Rightarrow> Inl (quoted v ''is not auto, h3 or h2''))
      else if flag = ''--mtu'' then
        (case parse_u32 v of
           None \<Rightarrow> Inl (quoted v ''is not a number'')
         | Some mtu \<Rightarrow> if 1280 \<le> mtu \<and> mtu \<le> 9000 then Inr (opts\<lparr>op_mtu := Some mtu\<rparr>)
             else Inl (decimal mtu @ '' is outside 1280..=9000''))
      else
        (case parse_addr v of Some a \<Rightarrow> Inr (opts\<lparr>op_dns_listen := Some a\<rparr>)
         | None \<Rightarrow> Inl (quoted v ''is not an address and port'')))"

fun parse_args :: "(string \<Rightarrow> sock_addr option) \<Rightarrow> string list \<Rightarrow> string option \<Rightarrow> options \<Rightarrow>
    string + string option \<times> options" where
  "parse_args parse_addr [] command opts = Inr (command, opts)"
| "parse_args parse_addr (argument # args) command opts =
     (if argument \<in> set VALUED then
        (case args of
           [] \<Rightarrow> Inl (argument @ '' needs a value after it'')
         | v # args \<Rightarrow>
             (case set_option parse_addr argument v opts of
                Inl problem \<Rightarrow> Inl problem
              | Inr opts \<Rightarrow> parse_args parse_addr args command opts))
      else if take 1 argument = ''-'' then Inl (''unknown option: '' @ argument)
      else if command = None then parse_args parse_addr args (Some argument) opts
      else Inl (''unexpected argument: '' @ argument))"

definition options_parse :: "(string \<Rightarrow> sock_addr option) \<Rightarrow> string list \<Rightarrow> string + string \<times> options" where
  "options_parse parse_addr args =
     (case parse_args parse_addr args None default_options of
        Inl problem \<Rightarrow> Inl problem
      | Inr (command, opts) \<Rightarrow>
          if op_transport opts = Some ChoiceH3 \<and> (case op_handshake opts of Some h \<Rightarrow> \<not> works_over_quic h | None \<Rightarrow> False)
          then Inl ''the split strategies cut TCP segments and have nothing to cut over h3''
          else if op_sni opts \<noteq> None \<and> (case op_handshake opts of Some h \<Rightarrow> h \<noteq> Fronted | None \<Rightarrow> False)
          then Inl ''--sni names what `fronted` presents; it means nothing beside another handshake''
          else Inr ((case command of Some c \<Rightarrow> c | None \<Rightarrow> ''probe''), opts))"

definition DEFAULT_TARGET :: string where "DEFAULT_TARGET = ''1.1.1.1/32''"
definition TUN_MTU :: nat where "TUN_MTU = 1280"

definition parse_targets :: "(string \<Rightarrow> ip_addr option) \<Rightarrow> string list \<Rightarrow> string + prefix set" where
  "parse_targets parse_ip raw = prefixes parse_ip (if raw = [] then [DEFAULT_TARGET] else raw)"

section \<open>Before anything is opened\<close>

text \<open>What belongs to the whole run.\<close>

record run_wide =
  rw_level :: u8
  rw_shape :: handshake_choice
  rw_carrier :: carrier_state

datatype command = Register | ProbeRun | UpRun | HandshakeRun | NamesRun

definition command_of :: "string \<Rightarrow> command option" where
  "command_of c =
     (if c = ''register'' then Some Register else if c = ''probe'' then Some ProbeRun
      else if c = ''up'' then Some UpRun else if c = ''handshake'' then Some HandshakeRun
      else if c = ''names'' then Some NamesRun else None)"

datatype start = ExitsWith nat | PrintsVersion | Runs command options

text \<open>\<open>main\<close>, up to the command it runs: the options applied, and the sweep of the names.\<close>

definition apply_options :: "(string \<Rightarrow> bool) \<Rightarrow> options \<Rightarrow> run_wide \<Rightarrow> run_wide option" where
  "apply_options is_dns_name opts rw =
     (let rw = (case op_log_level opts of Some l \<Rightarrow> rw\<lparr>rw_level := level_code l\<rparr> | None \<Rightarrow> rw);
          rw = (case op_handshake opts of Some h \<Rightarrow> rw\<lparr>rw_shape := handshake_select h (rw_shape rw)\<rparr> | None \<Rightarrow> rw) in
      (case (case op_sni opts of
           None \<Rightarrow> Some (rw_shape rw)
         | Some name \<Rightarrow> set_fronted_name is_dns_name name (rw_shape rw)) of
         None \<Rightarrow> None
       | Some shape \<Rightarrow>
           let carrier = (case op_transport opts of Some c \<Rightarrow> carrier_select c (rw_carrier rw) | None \<Rightarrow> rw_carrier rw) in
           Some (rw\<lparr>rw_shape := shape,
             rw_carrier := set_largest_packet (case op_mtu opts of Some n \<Rightarrow> n | None \<Rightarrow> TUN_MTU) carrier\<rparr>)))"

definition startup :: "(string \<Rightarrow> sock_addr option) \<Rightarrow> (string \<Rightarrow> bool) \<Rightarrow> 'r registry \<Rightarrow> string list \<Rightarrow>
    run_wide \<times> 'r naming \<Rightarrow> start \<times> run_wide \<times> 'r naming" where
  "startup parse_addr is_dns_name rg args = (\<lambda>(rw, nm).
     (case options_parse parse_addr args of
        Inl _ \<Rightarrow> (ExitsWith 2, rw, nm)
      | Inr (command, opts) \<Rightarrow>
          (case apply_options is_dns_name opts rw of
             None \<Rightarrow> (ExitsWith 2, rw, nm)
           | Some rw \<Rightarrow>
               if command = ''version'' then (PrintsVersion, rw, nm)
               else
                 let nm = snd (release rg nm) in
                 ((case command_of command of None \<Rightarrow> ExitsWith 2 | Some c \<Rightarrow> Runs c opts), rw, nm))))"

section \<open>What is said of the tunnel\<close>

datatype line = SaysConnecting nat | SaysUp stages | SaysReady | SaysLost string | SaysBlocked | SaysRetrying nat

definition announce :: "phase \<Rightarrow> bool \<Rightarrow> line list \<times> bool" where
  "announce p ready =
     (case p of
        Connecting n \<Rightarrow> ([SaysConnecting n], ready)
      | Up stages \<Rightarrow> (SaysUp stages # (if ready then [] else [SaysReady]), True)
      | Lost reason retry blocked \<Rightarrow>
          ([SaysLost reason] @ (if blocked then [SaysBlocked] else []) @ [SaysRetrying (retry div from_secs 1)], ready))"

fun announced :: "phase list \<Rightarrow> bool \<Rightarrow> line list" where
  "announced [] ready = []"
| "announced (p # ps) ready = (case announce p ready of (lines, ready) \<Rightarrow> lines @ announced ps ready)"

section \<open>Lemmas\<close>

text \<open>The command line an application writes for a command and its options.\<close>

definition opt_args :: "string \<Rightarrow> string option \<Rightarrow> string list" where
  "opt_args flag v = (case v of Some v \<Rightarrow> [flag, v] | None \<Rightarrow> [])"

definition render :: "(sock_addr \<Rightarrow> string) \<Rightarrow> string \<Rightarrow> options \<Rightarrow> string list" where
  "render show_addr command opts =
     command # ''--identity'' # op_identity opts # opt_args ''--wintun'' (op_wintun opts) @
     concat (map (\<lambda>t. [''--target'', t]) (op_targets opts)) @
     opt_args ''--dns-listen'' (map_option show_addr (op_dns_listen opts)) @
     opt_args ''--log-level'' (map_option (\<lambda>l. lowercase (word l)) (op_log_level opts)) @
     opt_args ''--handshake'' (map_option handshake_name (op_handshake opts)) @
     opt_args ''--sni'' (op_sni opts) @
     opt_args ''--transport'' (map_option choice_name (op_transport opts)) @
     opt_args ''--mtu'' (map_option decimal (op_mtu opts))"

lemma digits_below_decimal:
  "v < limit \<Longrightarrow> digits_below limit 0 (decimal v) = Some v"
proof -
  have snoc: "digits_below limit w (cs @ [c]) =
      Option.bind (digits_below limit w cs) (\<lambda>u. Option.bind (digit c) (\<lambda>d. if 10 * u + d < limit then Some (10 * u + d) else None))"
    for limit w cs c
    by (induction cs arbitrary: w) (auto split: Option.bind_splits)
  have digit: "digit (char_of (48 + d :: nat)) = Some d" if "d < 10" for d
    using that by (simp add: digit_def Let_def)
  show "v < limit \<Longrightarrow> ?thesis"
  proof (induction v rule: decimal.induct)
    case (1 v)
    show ?case
    proof (cases "v < 10")
      case True
      then show ?thesis using 1 digit[of v] by (simp add: decimal.simps[of v])
    next
      case False
      then have "digits_below limit 0 (decimal (v div 10)) = Some (v div 10)" using 1 by simp
      then show ?thesis using False 1 digit[of "v mod 10"] by (simp add: decimal.simps[of v] snoc)
    qed
  qed
qed

lemma decimal_plain: "decimal v \<noteq> [] \<and> hd (decimal v) \<noteq> CHR ''+''"
proof (induction v rule: decimal.induct)
  case (1 v)
  have "char_of (48 + v :: nat) \<noteq> CHR ''+''" if "v < 10"
  proof
    assume "char_of (48 + v) = CHR ''+''"
    then have "of_char (char_of (48 + v) :: char) = (of_char CHR ''+'' :: nat)" by simp
    then show False using that by simp
  qed
  then show ?case using 1 by (cases "v < 10") (simp_all add: decimal.simps[of v] hd_append)
qed

lemma parse_u32_decimal: "v < 2 ^ 32 \<Longrightarrow> parse_u32 (decimal v) = Some v"
  using decimal_plain[of v] digits_below_decimal[of v "2 ^ 32"]
  by (cases "decimal v") (simp_all add: parse_u32_def Let_def)

text \<open>An option with its value is taken in one step.\<close>

lemma parse_option:
  "flag \<in> set VALUED \<Longrightarrow> set_option parse_addr flag v opts = Inr opts' \<Longrightarrow>
     parse_args parse_addr (flag # v # args) command opts = parse_args parse_addr args command opts'"
  by simp

lemma parse_optional:
  assumes "flag \<in> set VALUED" "\<And>w. v = Some w \<Longrightarrow> set_option parse_addr flag w opts = Inr opts'" "v = None \<Longrightarrow> opts' = opts"
  shows "parse_args parse_addr (opt_args flag v @ args) command opts = parse_args parse_addr args command opts'"
  using assms by (cases v) (simp_all add: opt_args_def)

lemma parse_listed:
  "parse_args parse_addr (concat (map (\<lambda>t. [''--target'', t]) ts) @ args) command opts =
     parse_args parse_addr args command (opts\<lparr>op_targets := op_targets opts @ ts\<rparr>)"
proof (induction ts arbitrary: opts)
  case (Cons t ts)
  have f: "''--target'' \<in> set VALUED" by (simp add: VALUED_def)
  have s: "set_option parse_addr ''--target'' t opts = Inr (opts\<lparr>op_targets := op_targets opts @ [t]\<rparr>)"
    by (simp add: set_option_def)
  show ?case using parse_option[OF f s] Cons.IH[of "opts\<lparr>op_targets := op_targets opts @ [t]\<rparr>"] by simp
qed simp

lemma handshake_read: "handshake_parse (handshake_name h) = Some h" by (simp add: handshake_parse_name)

lemma choice_read: "choice_parse (choice_name c) = Some c" by (simp add: choice_parse_name)

text \<open>Options that agree with each other, and with a size the adapter can have.\<close>

definition agreeing :: "options \<Rightarrow> bool" where
  "agreeing opts \<longleftrightarrow> (case op_mtu opts of Some n \<Rightarrow> 1280 \<le> n \<and> n \<le> 9000 | None \<Rightarrow> True) \<and>
     (case op_handshake opts of
        Some h \<Rightarrow> (op_transport opts = Some ChoiceH3 \<longrightarrow> works_over_quic h) \<and> (op_sni opts \<noteq> None \<longrightarrow> h = Fronted)
      | None \<Rightarrow> True)"

definition mtu_ok :: "options \<Rightarrow> bool" where
  "mtu_ok opts \<longleftrightarrow> (case op_mtu opts of Some n \<Rightarrow> 1280 \<le> n \<and> n \<le> 9000 | None \<Rightarrow> True)"

lemma set_option_mtu: "set_option parse_addr flag v opts = Inr opts' \<Longrightarrow> mtu_ok opts \<Longrightarrow> mtu_ok opts'"
  by (auto simp: set_option_def mtu_ok_def split: if_splits option.splits)

lemma parse_args_mtu: "parse_args parse_addr args command opts = Inr (command', opts') \<Longrightarrow> mtu_ok opts \<Longrightarrow> mtu_ok opts'"
proof (induction parse_addr args command opts arbitrary: command' opts' rule: parse_args.induct)
  case (2 parse_addr argument args command opts)
  show ?case
  proof (cases "argument \<in> set VALUED")
    case True
    then obtain v rest opts1 where "args = v # rest" "set_option parse_addr argument v opts = Inr opts1"
      "parse_args parse_addr rest command opts1 = Inr (command', opts')"
      using "2.prems"(1) by (auto split: list.splits sum.splits)
    then show ?thesis using "2.IH"(1)[OF True] set_option_mtu "2.prems"(2) by blast
  next
    case False
    then show ?thesis using "2.IH"(2) "2.prems" by (auto split: if_splits)
  qed
qed simp

section \<open>The properties\<close>

text \<open>A command line that is accepted asks for nothing that could not be: the size is one an adapter can
  have, HTTP/3 is not asked for together with a strategy that cuts TCP segments, and a name is given only
  to the strategy that presents it.\<close>

theorem accepted_options_agree:
  assumes "options_parse parse_addr args = Inr (command, opts)"
  shows "agreeing opts"
proof -
  obtain c where p: "parse_args parse_addr args None default_options = Inr (c, opts)"
    "\<not> (op_transport opts = Some ChoiceH3 \<and> (case op_handshake opts of Some h \<Rightarrow> \<not> works_over_quic h | None \<Rightarrow> False))"
    "\<not> (op_sni opts \<noteq> None \<and> (case op_handshake opts of Some h \<Rightarrow> h \<noteq> Fronted | None \<Rightarrow> False))"
    using assms by (auto simp: options_parse_def split: sum.splits if_splits)
  have "mtu_ok opts" using parse_args_mtu[OF p(1)] by (simp add: mtu_ok_def default_options_def)
  then show ?thesis using p(2,3) by (auto simp: agreeing_def mtu_ok_def split: option.splits)
qed

text \<open>The command line written for a command and options that agree is read back as them, whatever was
  left out.\<close>

theorem options_round_trip:
  assumes "agreeing opts" "take 1 command \<noteq> ''-''" "\<And>a. op_dns_listen opts = Some a \<Longrightarrow> parse_addr (show_addr a) = Some a"
  shows "options_parse parse_addr (render show_addr command opts) = Inr (command, opts)"
proof -
  obtain identity wintun targets listen level handshake name transport mtu where opts:
    "opts = \<lparr>op_identity = identity, op_wintun = wintun, op_targets = targets, op_dns_listen = listen,
       op_log_level = level, op_handshake = handshake, op_sni = name, op_transport = transport, op_mtu = mtu\<rparr>"
    by (cases opts)
  have command: "command \<notin> set VALUED" using assms(2) by (auto simp: VALUED_def)
  have flags: "''--wintun'' \<in> set VALUED" "''--dns-listen'' \<in> set VALUED" "''--log-level'' \<in> set VALUED"
    "''--handshake'' \<in> set VALUED" "''--sni'' \<in> set VALUED" "''--transport'' \<in> set VALUED" "''--mtu'' \<in> set VALUED"
    "''--identity'' \<in> set VALUED" by (simp_all add: VALUED_def)
  have size: "parse_u32 (decimal n) = Some n \<and> 1280 \<le> n \<and> n \<le> 9000" if "mtu = Some n" for n
    using assms(1) that parse_u32_decimal[of n] by (simp add: agreeing_def opts)
  define o1 where "o1 = default_options\<lparr>op_identity := identity\<rparr>"
  define o2 where "o2 = o1\<lparr>op_wintun := wintun\<rparr>"
  define o3 where "o3 = o2\<lparr>op_targets := targets\<rparr>"
  define o4 where "o4 = o3\<lparr>op_dns_listen := listen\<rparr>"
  define o5 where "o5 = o4\<lparr>op_log_level := level\<rparr>"
  define o6 where "o6 = o5\<lparr>op_handshake := handshake\<rparr>"
  define o7 where "o7 = o6\<lparr>op_sni := name\<rparr>"
  define o8 where "o8 = o7\<lparr>op_transport := transport\<rparr>"
  note defs = o1_def o2_def o3_def o4_def o5_def o6_def o7_def o8_def default_options_def
  note reads = set_option_def level_words choice_parse_name handshake_parse_name
  let ?p = "parse_args parse_addr"
  have "?p (command # args) None default_options = ?p args (Some command) default_options" for args
    using assms(2) by (simp add: command)
  moreover have "?p (''--identity'' # identity # args) c default_options = ?p args c o1" for args c
    by (rule parse_option[OF flags(8)]) (simp add: reads o1_def)
  moreover have "?p (opt_args ''--wintun'' wintun @ args) c o1 = ?p args c o2" for args c
    by (rule parse_optional[OF flags(1)]) (simp_all add: reads defs)
  moreover have "?p (concat (map (\<lambda>t. [''--target'', t]) targets) @ args) c o2 = ?p args c o3" for args c
    unfolding parse_listed by (simp add: defs)
  moreover have "?p (opt_args ''--dns-listen'' (map_option show_addr listen) @ args) c o3 = ?p args c o4" for args c
    by (rule parse_optional[OF flags(2)]) (use assms(3) in \<open>auto simp: reads defs opts\<close>)
  moreover have "?p (opt_args ''--log-level'' (map_option (\<lambda>l. lowercase (word l)) level) @ args) c o4 = ?p args c o5" for args c
    by (rule parse_optional[OF flags(3)]) (auto simp: reads defs)
  moreover have "?p (opt_args ''--handshake'' (map_option handshake_name handshake) @ args) c o5 = ?p args c o6" for args c
    by (rule parse_optional[OF flags(4)]) (auto simp: reads handshake_read defs)
  moreover have "?p (opt_args ''--sni'' name @ args) c o6 = ?p args c o7" for args c
    by (rule parse_optional[OF flags(5)]) (auto simp: reads defs)
  moreover have "?p (opt_args ''--transport'' (map_option choice_name transport) @ args) c o7 = ?p args c o8" for args c
    by (rule parse_optional[OF flags(6)]) (auto simp: reads choice_read defs)
  moreover have "?p (opt_args ''--mtu'' (map_option decimal mtu) @ []) c o8 = ?p [] c opts" for c
    by (rule parse_optional[OF flags(7)]) (use size in \<open>auto simp: reads defs opts\<close>)
  ultimately have "?p (render show_addr command opts) None default_options = Inr (Some command, opts)"
    unfolding render_def by (simp add: opts del: parse_args.simps(2))
  then show ?thesis using assms(1) by (auto simp: options_parse_def agreeing_def split: option.splits)
qed

text \<open>Whatever the command, and even when it is none, the run begins by taking the marked rules out of the
  name policy: a rule left by a core that was killed, and equally the rule of a core that is running
  beside it, which nothing tells apart. Only a command line that is refused and \<open>version\<close> do not.\<close>

theorem every_command_sweeps:
  assumes "name_policy rg rules" "obliging rg rules" "rg_subkeys rg (nm_policy nm) \<noteq> None"
    and "options_parse parse_addr args = Inr (command, opts)" "apply_options is_dns_name opts rw \<noteq> None"
  shows "rules (nm_policy (snd (snd (startup parse_addr is_dns_name rg args (rw, nm))))) k =
    (if command \<noteq> ''version'' \<and> marked (rules (nm_policy nm) k) then None else rules (nm_policy nm) k)"
proof -
  obtain rw' where rw: "apply_options is_dns_name opts rw = Some rw'" using assms(5) by blast
  obtain n nm' where r: "release rg nm = (n, nm')" by fastforce
  obtain gone where "rules (nm_policy nm') = rules (nm_policy nm) |` (- gone)"
    "rg_subkeys rg (nm_policy nm) \<noteq> None \<and> obliging rg rules \<longrightarrow> gone = {k. marked (rules (nm_policy nm) k)}"
    using name_policy.released[OF assms(1) r] by blast
  then have "rules (nm_policy nm') k = (if marked (rules (nm_policy nm) k) then None else rules (nm_policy nm) k)"
    using assms(2,3) by (simp add: restrict_map_def)
  then show ?thesis using assms(4) rw r by (simp add: startup_def Let_def)
qed

text \<open>The line a script waits for comes once, right after the first tunnel is up, however often tunnels
  come and go.\<close>

theorem ready_said_once:
  "length (filter (\<lambda>l. l = SaysReady) (announced ps False)) = (if \<exists>s. Up s \<in> set ps then 1 else 0) \<and>
   (\<forall>before s after. ps = before @ Up s # after \<and> (\<forall>s. Up s \<notin> set before) \<longrightarrow>
      announced ps False = announced before False @ [SaysUp s, SaysReady] @ announced after True)"
proof -
  have told: "filter (\<lambda>l. l = SaysReady) (announced ps True) = []" for ps
    by (induction ps) (auto simp: announce_def split: phase.splits)
  have first: "announced (before @ Up s # after) False = announced before False @ [SaysUp s, SaysReady] @ announced after True"
    if "\<forall>s. Up s \<notin> set before" for before s after
    using that by (induction before) (auto simp: announce_def split: phase.splits)
  have "length (filter (\<lambda>l. l = SaysReady) (announced ps False)) = (if \<exists>s. Up s \<in> set ps then 1 else 0)"
    by (induction ps) (auto simp: announce_def told split: phase.splits)
  then show ?thesis using first by blast
qed

section \<open>Runs\<close>

definition sample_options :: options where
  "sample_options = default_options\<lparr>op_targets := [''1.1.1.1''], op_dns_listen := Some (V4 1, 53), op_mtu := Some 1400,
     op_handshake := Some Split\<rparr>"

theorem options_round_trip_witness:
  "options_parse (\<lambda>w. if w = ''a'' then Some (V4 1, 53) else None) (render (\<lambda>_. ''a'') ''up'' sample_options) =
     Inr (''up'', sample_options)"
  by (rule options_round_trip) (simp_all add: agreeing_def sample_options_def default_options_def)

theorem accepted_options_agree_witness:
  "options_parse (\<lambda>_. None) [''up'', ''--sni'', ''a''] = Inr (''up'', default_options\<lparr>op_sni := Some ''a''\<rparr>) \<and>
   agreeing (default_options\<lparr>op_sni := Some ''a''\<rparr>)"
proof -
  have p: "options_parse (\<lambda>_. None) [''up'', ''--sni'', ''a''] = Inr (''up'', default_options\<lparr>op_sni := Some ''a''\<rparr>)"
    by (simp add: options_parse_def VALUED_def set_option_def default_options_def)
  from accepted_options_agree[OF p] show ?thesis using p by blast
qed

theorem every_command_sweeps_witness:
  "kept_rules (nm_policy (snd (snd (startup (\<lambda>_. None) (\<lambda>_. True) (keeping (\<lambda>_. False)) [''launch'']
     (\<lparr>rw_level = 3, rw_shape = handshake_initial, rw_carrier = carrier_initial\<rparr>, sample_naming))))) RULE = None"
proof -
  have p: "options_parse (\<lambda>_. None) [''launch''] = Inr (''launch'', default_options)" by code_simp
  have a: "apply_options (\<lambda>_. True) default_options \<lparr>rw_level = 3, rw_shape = handshake_initial, rw_carrier = carrier_initial\<rparr> \<noteq> None"
    by (simp add: apply_options_def default_options_def Let_def)
  have ob: "obliging (keeping (\<lambda>_. False)) kept_rules"
    by (auto simp: obliging_def keeping_def kept_rules_def)
  have s: "rg_subkeys (keeping (\<lambda>_. False)) (nm_policy sample_naming) \<noteq> None" by (simp add: keeping_def)
  have "marked (kept_rules (nm_policy sample_naming) RULE)" by code_simp
  then show ?thesis using every_command_sweeps[OF keeping.name_policy_axioms ob s p a] by simp
qed

end
