(* ===== verification/Registration.thy ===== *)
theory Registration
  imports Enrolment Handshake
begin

text \<open>
  How a device comes to be and what it is worth: \<open>warp/api.rs\<close> (the two calls to the registration service),
  \<open>warp/keys.rs\<close> (the key pair), \<open>warp/identity.rs\<close> (the file) and \<open>transport/tls.rs\<close> (the certificate presented
  and the key pinned). The service, the JSON library and the cryptographic libraries are parameters; what is
  asked of them stands as a hypothesis where a theorem needs it. Shown: the key a connection presents is the key
  that was enrolled, the key it accepts the one the enrolment returned, the file is read back as written.
\<close>

text \<open>The question mark: an error is turned into one's own and returned.\<close>

definition try_sum :: "'e + 'a \<Rightarrow> ('e \<Rightarrow> 'f) \<Rightarrow> ('a \<Rightarrow> 'f + 'b) \<Rightarrow> 'f + 'b" where
  "try_sum r wrap rest = (case r of Inl e \<Rightarrow> Inl (wrap e) | Inr x \<Rightarrow> rest x)"

lemma try_sum_simps [simp]: "try_sum (Inl e) wrap rest = Inl (wrap e)" "try_sum (Inr x) wrap rest = rest x"
  by (simp_all add: try_sum_def)

lemma try_sum_Inr: "try_sum r wrap rest = Inr y \<longleftrightarrow> (\<exists>x. r = Inr x \<and> rest x = Inr y)"
  by (cases r) simp_all

section \<open>The device on disk\<close>

record identity =
  id_device :: string
  id_token :: string
  id_license :: string
  id_private :: string
  id_endpoint_key :: string
  id_v4 :: string
  id_v6 :: string
  id_endpoint_h2_v4 :: string
  id_endpoint_v4 :: string
  id_endpoint_v6 :: string

definition ENDPOINT_H2_V4 :: string where "ENDPOINT_H2_V4 = ''162.159.198.2''"
definition ENDPOINT_H3_V4 :: string where "ENDPOINT_H3_V4 = ''162.159.198.1''"

definition endpoint_h3_v4 :: "identity \<Rightarrow> string" where
  "endpoint_h3_v4 i = (if id_endpoint_v4 i = [] then ENDPOINT_H3_V4 else id_endpoint_v4 i)"

text \<open>An object of text fields, as it is written and as the derived reader takes it: a field it knows may stand once,
  the ones without a default must, others are passed over.\<close>

definition REQUIRED :: "string list" where
  "REQUIRED = [''device_id'', ''access_token'', ''private_key_sec1'', ''endpoint_public_key_pem'', ''assigned_v4'',
     ''assigned_v6'', ''endpoint_h2_v4'']"

definition DEFAULTED :: "string list" where
  "DEFAULTED = [''license'', ''endpoint_v4'', ''endpoint_v6'']"

definition fields_of :: "identity \<Rightarrow> (string \<times> string) list" where
  "fields_of i = [(''device_id'', id_device i), (''access_token'', id_token i), (''license'', id_license i),
     (''private_key_sec1'', id_private i), (''endpoint_public_key_pem'', id_endpoint_key i), (''assigned_v4'', id_v4 i),
     (''assigned_v6'', id_v6 i), (''endpoint_h2_v4'', id_endpoint_h2_v4 i), (''endpoint_v4'', id_endpoint_v4 i),
     (''endpoint_v6'', id_endpoint_v6 i)]"

definition times_written :: "string \<Rightarrow> (string \<times> string) list \<Rightarrow> nat" where
  "times_written name obj = length (filter (\<lambda>f. fst f = name) obj)"

definition identity_of :: "(string \<times> string) list \<Rightarrow> identity option" where
  "identity_of obj =
     (let text_of = (\<lambda>name. case map_of obj name of Some v \<Rightarrow> v | None \<Rightarrow> []) in
      if list_all (\<lambda>name. times_written name obj = 1) REQUIRED \<and> list_all (\<lambda>name. times_written name obj \<le> 1) DEFAULTED
      then Some \<lparr>id_device = text_of ''device_id'', id_token = text_of ''access_token'', id_license = text_of ''license'',
        id_private = text_of ''private_key_sec1'', id_endpoint_key = text_of ''endpoint_public_key_pem'',
        id_v4 = text_of ''assigned_v4'', id_v6 = text_of ''assigned_v6'', id_endpoint_h2_v4 = text_of ''endpoint_h2_v4'',
        id_endpoint_v4 = text_of ''endpoint_v4'', id_endpoint_v6 = text_of ''endpoint_v6''\<rparr>
      else None)"

datatype ('io, 'p) identity_error = IdentityIo 'io | IdentityParse "'p option"

text \<open>What reading and writing a file come to. A write that fails leaves the file as it then is.\<close>

datatype ('io, 't) file_read = ReadText 't | FileNotFound | ReadFailed 'io
datatype ('io, 't) file_write = WholeWritten | WriteFailed 'io "'t option"

text \<open>The file and the texts it may hold are of the type \<open>'t\<close>; \<open>parse\<close> and \<open>print\<close> are the JSON library's.\<close>

definition identity_load :: "('t \<Rightarrow> 'p + (string \<times> string) list) \<Rightarrow> ('io, 't) file_read \<Rightarrow>
    ('io, 'p) identity_error + identity option" where
  "identity_load parse r =
     (case r of
        ReadText t \<Rightarrow>
          try_sum (parse t) (\<lambda>p. IdentityParse (Some p)) (\<lambda>obj.
            (case identity_of obj of None \<Rightarrow> Inl (IdentityParse None) | Some i \<Rightarrow> Inr (Some i)))
      | FileNotFound \<Rightarrow> Inr None
      | ReadFailed e \<Rightarrow> Inl (IdentityIo e))"

definition identity_save :: "((string \<times> string) list \<Rightarrow> 't) \<Rightarrow> 'io option \<Rightarrow> ('io, 't) file_write \<Rightarrow> identity \<Rightarrow> 't option \<Rightarrow>
    ('io, 'p) identity_error option \<times> 't option" where
  "identity_save print mkdir wr i file =
     (case mkdir of
        Some e \<Rightarrow> (Some (IdentityIo e), file)
      | None \<Rightarrow>
          (case wr of
             WholeWritten \<Rightarrow> (None, Some (print (fields_of i)))
           | WriteFailed e left \<Rightarrow> (Some (IdentityIo e), left)))"

definition read_file :: "'t option \<Rightarrow> ('io, 't) file_read" where
  "read_file file = (case file of Some t \<Rightarrow> ReadText t | None \<Rightarrow> FileNotFound)"

section \<open>The keys\<close>

text \<open>What the libraries of the P-256 curve, of base64, of X.509 and of certificates do.\<close>

record ('sk, 'kp, 'crt, 'k) keys_lib =
  kl_to_sec1 :: "'sk \<Rightarrow> 'k + bytes"
  kl_from_sec1 :: "bytes \<Rightarrow> 'k + 'sk"
  kl_spki :: "'sk \<Rightarrow> 'k + bytes"
  kl_pkcs8 :: "'sk \<Rightarrow> 'k + bytes"
  kl_b64 :: "bytes \<Rightarrow> string"
  kl_unb64 :: "string \<Rightarrow> 'k + bytes"
  kl_key_pair :: "bytes \<Rightarrow> 'k + 'kp"
  kl_self_signed :: "'kp \<Rightarrow> 'k + bytes"
  kl_private_der :: "bytes \<Rightarrow> 'k + bytes"
  kl_pem_spki :: "string \<Rightarrow> 'k + bytes"
  kl_read_certificate :: "bytes \<Rightarrow> 'k + 'crt"
  kl_certificate_spki :: "'crt \<Rightarrow> 'k + bytes"

record masque_keys =
  mk_private :: string
  mk_public :: string

definition generate_keys :: "('sk, 'kp, 'crt, 'k) keys_lib \<Rightarrow> 'sk \<Rightarrow> 'k + masque_keys" where
  "generate_keys lib secret =
     try_sum (kl_to_sec1 lib secret) id (\<lambda>private. try_sum (kl_spki lib secret) id (\<lambda>public.
       Inr \<lparr>mk_private = kl_b64 lib private, mk_public = kl_b64 lib public\<rparr>))"

section \<open>Registering\<close>

datatype ('e, 'k) api_error = Http 'e | StatusOf string u16 | NoPeer | KeyFailed 'k

record register_request =
  rr_key :: string
  rr_install_id :: string
  rr_fcm_token :: string
  rr_tos :: string
  rr_model :: string
  rr_serial_number :: string
  rr_os_version :: string
  rr_key_type :: string
  rr_tunnel_type :: string
  rr_locale :: string

record enroll_request =
  er_key :: string
  er_key_type :: string
  er_tunnel_type :: string
  er_name :: string

record profile_peer =
  pe_public_key :: string
  pe_v4 :: string
  pe_v6 :: string

record profile =
  pr_id :: string
  pr_token :: string
  pr_license :: string
  pr_peers :: "profile_peer list"
  pr_v4 :: string
  pr_v6 :: string

text \<open>The service, as the HTTP client reaches it if it could be built: each call gives an error of the HTTP client or a status with a body, and the service as it then is.\<close>

record ('s, 'e, 'b) service =
  sc_unbuilt :: "'e option"
  sc_post :: "register_request \<Rightarrow> 's \<Rightarrow> ('e + u16 \<times> 'b) \<times> 's"
  sc_patch :: "string \<Rightarrow> string \<Rightarrow> enroll_request \<Rightarrow> 's \<Rightarrow> ('e + u16 \<times> 'b) \<times> 's"
  sc_profile :: "'b \<Rightarrow> 'e + profile"

definition send_call :: "('s, 'e, 'b) service \<Rightarrow> string \<Rightarrow> 'e + u16 \<times> 'b \<Rightarrow> ('e, 'k) api_error + profile" where
  "send_call sc call response =
     try_sum response Http (\<lambda>(status, body).
       if \<not> (200 \<le> status \<and> status < 300) then Inl (StatusOf call status)
       else try_sum (sc_profile sc body) Http Inr)"

text \<open>\<open>parse_addr\<close> reads an address with its port, \<open>written\<close> writes an address: the standard library's.\<close>

definition endpoint_address :: "(string \<Rightarrow> (ip_addr \<times> u16) option) \<Rightarrow> (ip_addr \<Rightarrow> string) \<Rightarrow> string \<Rightarrow> string" where
  "endpoint_address parse_addr written text_of =
     (case parse_addr text_of of Some (address, _) \<Rightarrow> written address | None \<Rightarrow> [])"

text \<open>What is drawn afresh for a registration: the WireGuard key that is sent once, the secret of the P-256 pair, the time
  as the service wants it written, and the serial.\<close>

record 'sk fresh =
  fr_wireguard :: string
  fr_secret :: 'sk
  fr_now :: string
  fr_serial :: string

definition register_body :: "'sk fresh \<Rightarrow> register_request" where
  "register_body fr = \<lparr>rr_key = fr_wireguard fr, rr_install_id = [], rr_fcm_token = [], rr_tos = fr_now fr, rr_model = ''PC'',
     rr_serial_number = fr_serial fr, rr_os_version = [], rr_key_type = ''curve25519'', rr_tunnel_type = ''wireguard'',
     rr_locale = ''en-US''\<rparr>"

definition enroll_body :: "masque_keys \<Rightarrow> enroll_request" where
  "enroll_body keys = \<lparr>er_key = mk_public keys, er_key_type = ''secp256r1'', er_tunnel_type = ''masque'', er_name = ''PC''\<rparr>"

text \<open>The address reader and writer come as a pair.\<close>

definition register :: "(string \<Rightarrow> (ip_addr \<times> u16) option) \<times> (ip_addr \<Rightarrow> string) \<Rightarrow> ('sk, 'kp, 'crt, 'k) keys_lib \<Rightarrow>
    ('s, 'e, 'b) service \<Rightarrow> 'sk fresh \<Rightarrow> 's \<Rightarrow> (('e, 'k) api_error + identity) \<times> 's" where
  "register addresses lib sc fr s =
     (case sc_unbuilt sc of Some e \<Rightarrow> (Inl (Http e), s) | None \<Rightarrow>
      let (response, s) = sc_post sc (register_body fr) s in
      (case send_call sc ''register'' response of
         Inl e \<Rightarrow> (Inl e, s)
       | Inr born \<Rightarrow>
           (case generate_keys lib (fr_secret fr) of
              Inl e \<Rightarrow> (Inl (KeyFailed e), s)
            | Inr keys \<Rightarrow>
                let (response, s) = sc_patch sc (pr_id born) (pr_token born) (enroll_body keys) s in
                (try_sum (send_call sc ''enroll'' response) id (\<lambda>enrolled.
                  (case pr_peers enrolled of
                     [] \<Rightarrow> Inl NoPeer
                   | peer # _ \<Rightarrow>
                       Inr \<lparr>id_device = pr_id enrolled, id_token = pr_token born, id_license = pr_license enrolled,
                         id_private = mk_private keys, id_endpoint_key = pe_public_key peer,
                         id_v4 = pr_v4 enrolled, id_v6 = pr_v6 enrolled, id_endpoint_h2_v4 = ENDPOINT_H2_V4,
                         id_endpoint_v4 = endpoint_address (fst addresses) (snd addresses) (pe_v4 peer),
                         id_endpoint_v6 = endpoint_address (fst addresses) (snd addresses) (pe_v6 peer)\<rparr>)), s))))"

section \<open>The session\<close>

datatype 'k tls_error = PrivateKeyUnusable 'k | EndpointKeyUnreadable 'k | CertificateUnbuilt 'k | RustlsRefused 'k

definition client_certificate :: "('sk, 'kp, 'crt, 'k) keys_lib \<Rightarrow> identity \<Rightarrow> 'k tls_error + bytes \<times> bytes" where
  "client_certificate lib i =
     try_sum (kl_unb64 lib (id_private i)) PrivateKeyUnusable (\<lambda>sec1.
     try_sum (kl_from_sec1 lib sec1) PrivateKeyUnusable (\<lambda>secret.
     try_sum (kl_pkcs8 lib secret) PrivateKeyUnusable (\<lambda>pkcs8.
     try_sum (kl_key_pair lib pkcs8) CertificateUnbuilt (\<lambda>pair.
     try_sum (kl_self_signed lib pair) CertificateUnbuilt (\<lambda>cert.
     try_sum (kl_private_der lib pkcs8) PrivateKeyUnusable (\<lambda>key. Inr (cert, key)))))))"

definition expected_endpoint_spki :: "('sk, 'kp, 'crt, 'k) keys_lib \<Rightarrow> identity \<Rightarrow> 'k tls_error + bytes" where
  "expected_endpoint_spki lib i = try_sum (kl_pem_spki lib (id_endpoint_key i)) EndpointKeyUnreadable Inr"

record tls_config =
  tl_certificate :: bytes
  tl_key :: bytes
  tl_expected :: bytes
  tl_alpn :: "bytes list"

text \<open>\<open>refused\<close> is rustls's own judgement of the certificate and its key.\<close>

definition client_config :: "('sk, 'kp, 'crt, 'k) keys_lib \<Rightarrow> (bytes \<Rightarrow> bytes \<Rightarrow> 'k option) \<Rightarrow> identity \<Rightarrow> bytes \<Rightarrow> 'k tls_error + tls_config" where
  "client_config lib refused i alpn =
     try_sum (client_certificate lib i) id (\<lambda>(cert, key).
     try_sum (expected_endpoint_spki lib i) id (\<lambda>expected.
     (case refused cert key of
        Some e \<Rightarrow> Inl (RustlsRefused e)
      | None \<Rightarrow> Inr \<lparr>tl_certificate = cert, tl_key = key, tl_expected = expected, tl_alpn = [alpn]\<rparr>)))"

definition certificate_key :: "('sk, 'kp, 'crt, 'k) keys_lib \<Rightarrow> bytes \<Rightarrow> 'k + bytes" where
  "certificate_key lib cert = try_sum (kl_read_certificate lib cert) id (kl_certificate_spki lib)"



section \<open>Lemmas\<close>

text \<open>A registration that went well, call by call.\<close>

lemma registered:
  fixes lib :: "('sk, 'kp, 'crt, 'k) keys_lib" and sc :: "('s, 'e, 'b) service"
  assumes "register addresses lib sc fr s = (Inr i, s')"
  obtains response born s1 keys response2 enrolled peer peers where
    "sc_post sc (register_body fr) s = (response, s1)" "send_call sc ''register'' response = (Inr born :: ('e, 'k) api_error + profile)"
    "generate_keys lib (fr_secret fr) = Inr keys"
    "sc_patch sc (pr_id born) (pr_token born) (enroll_body keys) s1 = (response2, s')"
    "send_call sc ''enroll'' response2 = (Inr enrolled :: ('e, 'k) api_error + profile)"
    "pr_peers enrolled = peer # peers" "id_private i = mk_private keys" "id_endpoint_key i = pe_public_key peer"
    "id_device i = pr_id enrolled" "id_token i = pr_token born" "id_endpoint_h2_v4 i = ENDPOINT_H2_V4"
    "id_endpoint_v4 i = endpoint_address (fst addresses) (snd addresses) (pe_v4 peer)"
proof -
  have built: "sc_unbuilt sc = None" using assms by (cases "sc_unbuilt sc") (auto simp: register_def)
  obtain response s1 where post: "sc_post sc (register_body fr) s = (response, s1)" by fastforce
  obtain born where born: "send_call sc ''register'' response = (Inr born :: ('e, 'k) api_error + profile)"
    using assms built post by (cases "send_call sc ''register'' response :: ('e, 'k) api_error + profile") (auto simp: register_def)
  obtain keys where keys: "generate_keys lib (fr_secret fr) = Inr keys"
    using assms built post born by (cases "generate_keys lib (fr_secret fr)") (auto simp: register_def)
  obtain response2 s2 where patch: "sc_patch sc (pr_id born) (pr_token born) (enroll_body keys) s1 = (response2, s2)" by fastforce
  obtain enrolled where enrolled: "send_call sc ''enroll'' response2 = (Inr enrolled :: ('e, 'k) api_error + profile)"
    using assms built post born keys patch
    by (cases "send_call sc ''enroll'' response2 :: ('e, 'k) api_error + profile") (auto simp: register_def)
  obtain peer peers where peers: "pr_peers enrolled = peer # peers"
    using assms built post born keys patch enrolled by (cases "pr_peers enrolled") (auto simp: register_def)
  show thesis
    by (rule that[OF post born keys _ enrolled peers]) (use assms built post born keys patch enrolled peers in \<open>auto simp: register_def\<close>)
qed

lemma send_call_Inr: "send_call sc call response = Inr p \<longleftrightarrow>
    (\<exists>status body. response = Inr (status, body) \<and> 200 \<le> status \<and> status < 300 \<and> sc_profile sc body = Inr p)"
  by (cases response) (auto simp: send_call_def try_sum_Inr split: if_splits)

lemma identity_fields: "identity_of (fields_of i) = Some i"
  by (simp add: identity_of_def fields_of_def REQUIRED_def DEFAULTED_def times_written_def Let_def)

section \<open>Properties\<close>

text \<open>C36. What was enrolled is what is presented: when a registration went well, the last call made enrolled the public half of a
  key, and every session built from its identity presents a certificate that carries that half; the libraries are
  taken to read back what they wrote, and to put into a certificate the key of the pair that signs it.\<close>

theorem enrolled_key_presented:
  fixes lib :: "('sk, 'kp, 'crt, 'k) keys_lib" and sc :: "('s, 'e, 'b) service"
  assumes read_back: "\<And>secret der. kl_to_sec1 lib secret = Inr der \<Longrightarrow> kl_from_sec1 lib der = Inr secret"
    and decoded: "\<And>x. kl_unb64 lib (kl_b64 lib x) = Inr x"
    and signed: "\<And>secret public der pair cert. kl_spki lib secret = Inr public \<Longrightarrow> kl_pkcs8 lib secret = Inr der \<Longrightarrow>
      kl_key_pair lib der = Inr pair \<Longrightarrow> kl_self_signed lib pair = Inr cert \<Longrightarrow> certificate_key lib cert = Inr public"
    and reg: "register addresses lib sc fr s = (Inr i, s')"
    and cfg: "client_config lib refused i alpn = Inr cfg"
  shows "\<exists>device token request response s1 public.
    sc_patch sc device token request s1 = (Inr response, s') \<and> er_key request = kl_b64 lib public \<and>
    certificate_key lib (tl_certificate cfg) = Inr public"
proof -
  obtain response :: "'e + u16 \<times> 'b" and born s1 keys and response2 :: "'e + u16 \<times> 'b" and enrolled peer peers where
    "sc_post sc (register_body fr) s = (response, s1)" and
    "send_call sc ''register'' response = (Inr born :: ('e, 'k) api_error + profile)" and
    keys: "generate_keys lib (fr_secret fr) = Inr keys" and
    patch: "sc_patch sc (pr_id born) (pr_token born) (enroll_body keys) s1 = (response2, s')"
      "send_call sc ''enroll'' response2 = (Inr enrolled :: ('e, 'k) api_error + profile)" and
    "pr_peers enrolled = peer # peers" and i: "id_private i = mk_private keys"
    by (rule registered[OF reg])
  from keys obtain sec1 public where k: "kl_to_sec1 lib (fr_secret fr) = Inr sec1" "kl_spki lib (fr_secret fr) = Inr public"
    "mk_private keys = kl_b64 lib sec1" "mk_public keys = kl_b64 lib public"
    by (auto simp: generate_keys_def try_sum_Inr)
  from cfg obtain der pair where c: "kl_pkcs8 lib (fr_secret fr) = Inr der" "kl_key_pair lib der = Inr pair"
    "kl_self_signed lib pair = Inr (tl_certificate cfg)"
    by (auto simp: client_config_def client_certificate_def try_sum_Inr i k(3) decoded read_back[OF k(1)] split: option.splits)
  moreover from patch(2) obtain r where "response2 = Inr r" by (auto simp: send_call_Inr)
  ultimately show ?thesis using patch(1) signed[OF k(2) c] k(4) by (fastforce simp: enroll_body_def)
qed


text \<open>A device that was saved whole is read back as it was, by whichever run comes next, and the address its HTTP/3 goes to
  is never empty; what the JSON library wrote it is taken to read.\<close>

theorem identity_round_trip:
  assumes "\<And>obj. parse (print obj) = Inr obj" "saved = identity_save print None WholeWritten i file"
  shows "fst saved = None \<and> identity_load parse (read_file (snd saved)) = Inr (Some i) \<and> endpoint_h3_v4 i \<noteq> []"
  using assms by (simp add: identity_save_def identity_load_def read_file_def identity_fields endpoint_h3_v4_def ENDPOINT_H3_V4_def)

text \<open>A write that was cut short stops every later start: what it left cannot be read, which is not taken for there being
  no device, so nothing is registered in its place.\<close>

theorem torn_file_stops_starts:
  assumes "parse t = Inl p"
  shows "identity_save print mkdir (WriteFailed e (Some t)) i file = (problem, Some t) \<Longrightarrow>
    load_or_register (identity_load parse (read_file (Some t))) registering save = Inl (IdentityFailed (IdentityParse (Some p)))"
  using assms by (simp add: identity_load_def read_file_def load_or_register_def)

text \<open>A second call that fails leaves behind the device the first one made: the service has come on by both calls, the
  identity is lost, and because the registration as a whole failed nothing counts as having been registered: the very
  next refusal registers again.\<close>

theorem failed_enrolment_abandons:
  fixes lib :: "('sk, 'kp, 'crt, 'k) keys_lib" and sc :: "('s, 'e, 'b) service"
  assumes "sc_unbuilt sc = None" "sc_post sc (register_body fr) s = (Inr (200, body), s1)" "sc_profile sc body = Inr born"
    and "generate_keys lib (fr_secret fr) = Inr keys"
    and "sc_patch sc (pr_id born) (pr_token born) (enroll_body keys) s1 = (Inr (status, answer), s2)" "\<not> status < 300"
  shows "register addresses lib sc fr s = (Inl (StatusOf ''enroll'' status), s2) \<and>
    snd (refresh (fst (register addresses lib sc fr s)) save now em) = em"
  using assms by (simp add: register_def send_call_def refresh_def)

section \<open>A concrete service and concrete libraries\<close>

definition sample_lib :: "(bytes, bytes, bytes, unit) keys_lib" where
  "sample_lib = \<lparr>kl_to_sec1 = Inr, kl_from_sec1 = Inr, kl_spki = (\<lambda>sk. Inr (9 # sk)), kl_pkcs8 = Inr,
     kl_b64 = map (\<lambda>b. char_of (unat b)), kl_unb64 = (\<lambda>s. Inr (ascii s)), kl_key_pair = Inr,
     kl_self_signed = (\<lambda>kp. Inr (0x30 # 9 # kp)), kl_private_der = Inr, kl_pem_spki = (\<lambda>s. Inr (ascii s)),
     kl_read_certificate = (\<lambda>c. Inr (tl c)), kl_certificate_spki = Inr\<rparr>"

definition sample_service :: "(nat, unit, profile) service" where
  "sample_service =
     \<lparr>sc_unbuilt = None,
      sc_post = (\<lambda>_ n. (Inr (200, \<lparr>pr_id = ''d'', pr_token = ''t'', pr_license = [], pr_peers = [], pr_v4 = [], pr_v6 = []\<rparr>), n + 1)),
      sc_patch = (\<lambda>d _ _ n. (Inr (200, \<lparr>pr_id = d, pr_token = [], pr_license = [],
        pr_peers = [\<lparr>pe_public_key = ''PEM'', pe_v4 = [], pe_v6 = []\<rparr>], pr_v4 = ''172.16.0.2'', pr_v6 = []\<rparr>), n + 1)),
      sc_profile = Inr\<rparr>"

definition sample_fresh :: "bytes fresh" where
  "sample_fresh = \<lparr>fr_wireguard = ''w'', fr_secret = [1, 2], fr_now = ''n'', fr_serial = ''s''\<rparr>"

definition sample_identity :: identity where
  "sample_identity = \<lparr>id_device = ''d'', id_token = ''t'', id_license = [], id_private = kl_b64 sample_lib [1, 2],
     id_endpoint_key = ''PEM'', id_v4 = ''172.16.0.2'', id_v6 = [], id_endpoint_h2_v4 = ENDPOINT_H2_V4,
     id_endpoint_v4 = [], id_endpoint_v6 = []\<rparr>"

definition sample_config :: tls_config where
  "sample_config = \<lparr>tl_certificate = [0x30, 9, 1, 2], tl_key = [1, 2], tl_expected = ascii ''PEM'', tl_alpn = [[104, 51]]\<rparr>"

lemma byte_char: "of_char (char_of (unat b)) = (b :: u8)"
proof -
  have "unat b < 256" using unsigned_less[of b] by simp
  then have "(of_char (char_of (unat b)) :: nat) = unat b" by (simp add: take_bit_eq_mod)
  then have "(of_nat (of_char (char_of (unat b))) :: u8) = of_nat (unat b)" by (rule arg_cong)
  then have "(of_char (char_of (unat b)) :: u8) = of_nat (unat b)" by (simp only: of_nat_of_char)
  then show ?thesis by simp
qed

lemma sample_decoded: "kl_unb64 sample_lib (kl_b64 sample_lib x) = Inr x"
  by (induction x) (simp_all add: sample_lib_def ascii_def byte_char)

lemma sample_registered:
  "register (\<lambda>_. None, \<lambda>_. []) sample_lib sample_service sample_fresh 0 = (Inr sample_identity, 2)"
  by (simp add: register_def sample_service_def sample_fresh_def send_call_def generate_keys_def sample_lib_def
      sample_identity_def endpoint_address_def)

lemma sample_configured: "client_config sample_lib (\<lambda>_ _. None) sample_identity [104, 51] = Inr sample_config"
  using sample_decoded[of "[1, 2]"]
  by (simp add: client_config_def client_certificate_def expected_endpoint_spki_def sample_identity_def sample_config_def)
    (simp add: sample_lib_def)

theorem enrolled_key_presented_witness:
  "\<exists>device token request response s1 public. sc_patch sample_service device token request s1 = (Inr response, 2) \<and>
    er_key request = kl_b64 sample_lib public \<and> certificate_key sample_lib (tl_certificate sample_config) = Inr public"
  by (rule enrolled_key_presented[OF _ sample_decoded _ sample_registered sample_configured])
    (auto simp: sample_lib_def certificate_key_def)


theorem identity_round_trip_witness:
  "let saved = identity_save id None WholeWritten sample_identity None :: (unit, unit) identity_error option \<times> (string \<times> string) list option
   in fst saved = None \<and> identity_load (Inr :: _ \<Rightarrow> unit + _) (read_file (snd saved) :: (unit, _) file_read) = Inr (Some sample_identity) \<and>
     endpoint_h3_v4 sample_identity \<noteq> []"
  unfolding Let_def by (rule identity_round_trip[where print = id]) simp_all

end
