(* ===== verification/Link.thy ===== *)
theory Link
  imports Core_State
begin

text \<open>
  What the system says of the machine's interfaces, \<open>src/link.rs\<close>: which notification is about the line, what the
  callback does with it, and how it is said. The registration with the system and the name it shows for an
  interface are parameters, as are the codes of its notifications. Shown: whatever the system notifies, the core's
  own adapter never counts as the line, and everything else counts once.
\<close>

record mib_kinds =
  mib_add :: "32 word"
  mib_delete :: "32 word"
  mib_initial :: "32 word"

definition worth_reacting :: "mib_kinds \<Rightarrow> 32 word \<Rightarrow> u64 option \<Rightarrow> u64 \<Rightarrow> bool" where
  "worth_reacting mib notice luid ours =
     (if notice = mib_initial mib then False
      else (case luid of Some l \<Rightarrow> l \<noteq> ours | None \<Rightarrow> True))"

text \<open>The callback, with the row's identifier if there is a row.\<close>

definition changed :: "mib_kinds \<Rightarrow> u64 \<Rightarrow> u64 option \<Rightarrow> 32 word \<Rightarrow> 'os core \<Rightarrow> 'os core" where
  "changed mib ours luid notice c =
     (if worth_reacting mib notice luid ours then line_changed (case luid of Some l \<Rightarrow> l | None \<Rightarrow> 0) notice c else c)"

text \<open>The registration: with the adapter's identifier, unless the system refuses it.\<close>

definition watch_line :: "mib_kinds \<Rightarrow> bool \<Rightarrow> 'os core \<Rightarrow> (u64 option \<Rightarrow> 32 word \<Rightarrow> 'os core \<Rightarrow> 'os core) option" where
  "watch_line mib granted c = (if granted then Some (changed mib (co_luid c)) else None)"

function hex_digits :: "nat \<Rightarrow> string" where
  "hex_digits n = (if n < 16 then [''0123456789abcdef'' ! n] else hex_digits (n div 16) @ [''0123456789abcdef'' ! (n mod 16)])"
  by pat_completeness auto
termination hex_digits by (relation "measure id") auto

declare hex_digits.simps [simp del]

definition describe_change :: "mib_kinds \<Rightarrow> (u64 \<Rightarrow> string option) \<Rightarrow> u64 \<Rightarrow> 32 word \<Rightarrow> string" where
  "describe_change mib alias interface notice =
     (let what = (if notice = mib_add mib then ''appeared'' else if notice = mib_delete mib then ''went away'' else ''changed'') in
      if interface = 0 then ''an interface '' @ what
      else (case alias interface of
         Some name \<Rightarrow> ''interface '' @ name @ '' '' @ what
       | None \<Rightarrow> ''interface 0x'' @ hex_digits (unat interface) @ '' '' @ what))"

text \<open>The text out of the system's buffer: up to the first zero, or all of it.\<close>

definition alias_text :: "(u16 list \<Rightarrow> string) \<Rightarrow> bool \<Rightarrow> u16 list \<Rightarrow> string option" where
  "alias_text from_utf16 found buffer = (if found then Some (from_utf16 (takeWhile (\<lambda>unit. unit \<noteq> 0) buffer)) else None)"

section \<open>Properties\<close>

text \<open>What a run of notifications does to the core.\<close>

definition notified :: "mib_kinds \<Rightarrow> u64 \<Rightarrow> (u64 option \<times> 32 word) list \<Rightarrow> 'os core \<Rightarrow> 'os core" where
  "notified mib ours notices c = fold (\<lambda>(luid, notice). changed mib ours luid notice) notices c"

definition others :: "mib_kinds \<Rightarrow> u64 \<Rightarrow> (u64 option \<times> 32 word) list \<Rightarrow> (u64 option \<times> 32 word) list" where
  "others mib ours notices = filter (\<lambda>(luid, notice). notice \<noteq> mib_initial mib \<and> luid \<noteq> Some ours) notices"

lemma worth_reacting_iff: "worth_reacting mib notice luid ours \<longleftrightarrow> notice \<noteq> mib_initial mib \<and> luid \<noteq> Some ours"
  by (simp add: worth_reacting_def split: option.split)

text \<open>However the notifications come, the line has moved once for each that is neither the initial one nor about the
  core's own adapter, what the last of them named is what is said of it, and nothing else of the core has changed:
  the rows the core installs, each of which notifies a change of its adapter, never have the tunnel asked about.\<close>

theorem line_moves_for_others:
  "co_line (notified mib ours notices c) = co_line c + of_nat (length (others mib ours notices)) \<and>
   notified mib ours notices c =
     (case rev (others mib ours notices) of
        [] \<Rightarrow> c
      | (luid, notice) # _ \<Rightarrow> c\<lparr>co_change_interface := (case luid of Some l \<Rightarrow> l | None \<Rightarrow> 0), co_change_kind := notice,
          co_line := co_line c + of_nat (length (others mib ours notices))\<rparr>)"
proof (induction notices rule: rev_induct)
  case (snoc n notices)
  obtain luid notice where n: "n = (luid, notice)" by (cases n)
  show ?case
  proof (cases "worth_reacting mib notice luid ours")
    case True
    then have "others mib ours (notices @ [n]) = others mib ours notices @ [n]"
      by (simp add: others_def n worth_reacting_iff)
    moreover have "notified mib ours (notices @ [n]) c = line_changed (case luid of Some l \<Rightarrow> l | None \<Rightarrow> 0) notice (notified mib ours notices c)"
      using True by (simp add: notified_def n changed_def)
    ultimately show ?thesis using snoc n
      by (cases "rev (others mib ours notices)") (auto simp: line_changed_def split: prod.splits)
  next
    case False
    then have same: "others mib ours (notices @ [n]) = others mib ours notices" "notified mib ours (notices @ [n]) c = notified mib ours notices c"
      by (auto simp: others_def notified_def n worth_reacting_iff changed_def)
    show ?thesis unfolding same by (rule snoc)
  qed
qed (simp add: notified_def others_def)

text \<open>A caller that has not seen the change is told of it, and a source address looked up before is looked up again.\<close>

theorem other_interface_noticed:
  assumes "notice \<noteq> mib_initial mib" "luid \<noteq> Some ours"
  shows "line_change (co_line c) (changed mib ours luid notice c)"
  using assms by (simp add: changed_def worth_reacting_iff line_changed_def line_change_def)

end
