(* ===== verification/Bring_Up.thy ===== *)
theory Bring_Up
  imports Startup Registration Tun_Session
begin

text \<open>
  \<open>up\<close> from its first line to its last, \<open>cmd_up\<close> of \<open>src/main.rs\<close>: the adapter, its addresses and sizes and the
  routes put in place in order, each able to fail, the loop that waits for a reason to stop, and the end with the
  machine's names given back. The adapter and the tables of the system are one state of which each call of
  \<open>src/tun/mod.rs\<close> makes the next; what goes out of scope is taken down. Shown: a start that fails at any point
  leaves the system as it was but for the adapter's closing, one that succeeds has put the targets into the table
  behind both addresses, and what can still happen to the names after they were given back.
\<close>

section \<open>The adapter's calls\<close>

record interface_row =
  ir_family :: bool
  ir_mtu :: nat
  ir_site_prefix :: nat

text \<open>Creating gives the adapter's identifier, starting a session its event; \<open>wc_close\<close> is Wintun's.\<close>

record ('os, 'c) windows =
  wc_create :: "'os \<Rightarrow> ('c + u64) \<times> 'os"
  wc_address :: "u64 \<Rightarrow> ip_addr \<Rightarrow> nat \<Rightarrow> 'os \<Rightarrow> u32 \<times> 'os"
  wc_interface :: "u64 \<Rightarrow> bool \<Rightarrow> 'os \<Rightarrow> u32 + interface_row"
  wc_set_interface :: "u64 \<Rightarrow> interface_row \<Rightarrow> 'os \<Rightarrow> u32 \<times> 'os"
  wc_route :: "u64 \<Rightarrow> prefix \<Rightarrow> 'os \<Rightarrow> u32 \<times> 'os"
  wc_unroute :: "u64 \<Rightarrow> prefix \<Rightarrow> 'os \<Rightarrow> u32 \<times> 'os"
  wc_session :: "'os \<Rightarrow> bool \<times> 'os"
  wc_event :: "'os \<Rightarrow> bool \<times> 'os"
  wc_end_session :: "'os \<Rightarrow> 'os"
  wc_close :: "u64 \<Rightarrow> 'os \<Rightarrow> 'os"

datatype ('e, 'c) up_error =
    BadTarget string
  | NoWintun string
  | NotLoaded string
  | NoDevice 'e
  | NotCreated 'c
  | AddressUnread string
  | AddressRefused ip_addr u32
  | MtuRefused u32
  | RoutesRefused tun_error
  | NoSession

definition add_address :: "('os, 'c) windows \<Rightarrow> u64 \<Rightarrow> ip_addr \<Rightarrow> nat \<Rightarrow> 'os \<Rightarrow> (('e, 'c) up_error + unit) \<times> 'os" where
  "add_address wc luid address len os =
     (let (code, os) = wc_address wc luid address len os in
      (if code \<noteq> NO_ERROR then Inl (AddressRefused address code) else Inr (), os))"

definition set_mtu :: "('os, 'c) windows \<Rightarrow> u64 \<Rightarrow> bool \<Rightarrow> nat \<Rightarrow> 'os \<Rightarrow> (('e, 'c) up_error + unit) \<times> 'os" where
  "set_mtu wc luid v4 mtu os =
     (case wc_interface wc luid v4 os of
        Inl code \<Rightarrow> (Inl (MtuRefused code), os)
      | Inr row \<Rightarrow>
          let (code, os) = wc_set_interface wc luid (row\<lparr>ir_mtu := mtu, ir_site_prefix := 0\<rparr>) os in
          (if code \<noteq> NO_ERROR then Inl (MtuRefused code) else Inr (), os))"

text \<open>A session that has no event to be woken by is ended again.\<close>

definition adapter_start :: "('os, 'c) windows \<Rightarrow> 'os \<Rightarrow> (('e, 'c) up_error + unit) \<times> 'os" where
  "adapter_start wc os =
     (case wc_session wc os of
        (False, os) \<Rightarrow> (Inl NoSession, os)
      | (True, os) \<Rightarrow>
          (case wc_event wc os of
             (False, os) \<Rightarrow> (Inl NoSession, wc_end_session wc os)
           | (True, os) \<Rightarrow> (Inr (), os)))"

section \<open>Bringing it up\<close>

text \<open>The library to load: the one asked for, or the one beside the binary.\<close>

definition wintun_path :: "(string \<Rightarrow> bool) \<Rightarrow> string option \<Rightarrow> string option \<Rightarrow> ('e, 'c) up_error + string" where
  "wintun_path is_file beside asked =
     (case asked of
        Some path \<Rightarrow> if is_file path then Inr path else Inl (NoWintun (''no wintun.dll at '' @ path))
      | None \<Rightarrow>
          (case beside of
             None \<Rightarrow> Inl (NoWintun ''the running binary has no path'')
           | Some path \<Rightarrow> if is_file path then Inr path else Inl (NoWintun (''wintun.dll is not at '' @ path))))"

text \<open>A step that fails ends the bring-up with what has to be taken down by then.\<close>

definition up_step :: "('e + 'a) \<times> 'os \<Rightarrow> ('os \<Rightarrow> 'os) \<Rightarrow> ('a \<Rightarrow> 'os \<Rightarrow> ('e + 'b) \<times> 'os) \<Rightarrow> ('e + 'b) \<times> 'os" where
  "up_step r down rest = (case r of (Inl e, os) \<Rightarrow> (Inl e, down os) | (Inr x, os) \<Rightarrow> rest x os)"

record ('os, 'c, 'e) surroundings =
  su_windows :: "('os, 'c) windows"
  su_parse_ip :: "string \<Rightarrow> ip_addr option"
  su_is_file :: "string \<Rightarrow> bool"
  su_beside :: "string option"
  su_loads :: "string \<Rightarrow> string option"
  su_device :: "'e + identity"

definition parse_ip :: "('os, 'c, 'e) surroundings \<Rightarrow> string \<Rightarrow> ('e, 'c) up_error + ip_addr" where
  "parse_ip su w = (case su_parse_ip su w of None \<Rightarrow> Inl (AddressUnread w) | Some address \<Rightarrow> Inr address)"

text \<open>The adapter with its addresses, sizes and routes. The core owns it once it is there, and both are dropped
  together.\<close>

definition adapter_up :: "('os, 'c, 'e) surroundings \<Rightarrow> options \<Rightarrow> prefix set \<Rightarrow> identity \<Rightarrow> instant \<Rightarrow> u64 \<Rightarrow> 'os \<Rightarrow>
    (('e, 'c) up_error + 'os core) \<times> 'os" where
  "adapter_up su opts wanted i now luid os =
     (let wc = su_windows su; close = wc_close wc luid;
          mtu = (case op_mtu opts of Some n \<Rightarrow> n | None \<Rightarrow> TUN_MTU) in
      up_step (parse_ip su (id_v4 i), os) close (\<lambda>inside os.
      up_step (add_address wc luid inside 32 os) close (\<lambda>_ os.
      up_step (set_mtu wc luid True mtu os) close (\<lambda>_ os.
      up_step (parse_ip su (id_v6 i), os) close (\<lambda>inside_v6 os.
      up_step (add_address wc luid inside_v6 128 os) close (\<lambda>_ os.
      up_step (set_mtu wc luid False mtu os) close (\<lambda>_ os.
        let (r, core) = set_routes (wc_route wc luid) (wc_unroute wc luid) wanted (core_new now luid os) in
        (case r of
           Inl e \<Rightarrow> (Inl (RoutesRefused e), close (co_table core))
         | Inr _ \<Rightarrow>
             up_step (adapter_start wc (co_table core)) close (\<lambda>_ os. (Inr (core\<lparr>co_table := os\<rparr>), os))))))))))"

definition bring_up :: "('os, 'c, 'e) surroundings \<Rightarrow> options \<Rightarrow> instant \<Rightarrow> 'os \<Rightarrow> (('e, 'c) up_error + 'os core) \<times> 'os" where
  "bring_up su opts now os =
     (case parse_targets (su_parse_ip su) (op_targets opts) of
        Inl problem \<Rightarrow> (Inl (BadTarget problem), os)
      | Inr wanted \<Rightarrow>
          (case wintun_path (su_is_file su) (su_beside su) (op_wintun opts) of
             Inl e \<Rightarrow> (Inl e, os)
           | Inr path \<Rightarrow>
               (case su_loads su path of
                  Some problem \<Rightarrow> (Inl (NotLoaded problem), os)
                | None \<Rightarrow>
                    (case su_device su of
                       Inl e \<Rightarrow> (Inl (NoDevice e), os)
                     | Inr i \<Rightarrow>
                         (case wc_create (su_windows su) os of
                            (Inl e, os) \<Rightarrow> (Inl (NotCreated e), os)
                          | (Inr luid, os) \<Rightarrow> adapter_up su opts wanted i now luid os)))))"

section \<open>Until it stops\<close>

datatype joined = EndedWith string | Panicked string

datatype up_event =
    PhaseSaid phase
  | TimeToReport
  | StopAsked
  | CtrlC
  | ControlJoined joined
  | ResolverJoined joined

fun stop_reason :: "up_event \<Rightarrow> string option" where
  "stop_reason StopAsked = Some ''asked through the control interface''"
| "stop_reason CtrlC = Some ''on Ctrl-C''"
| "stop_reason (ControlJoined (EndedWith problem)) = Some (''the control interface failed: '' @ problem)"
| "stop_reason (ControlJoined (Panicked problem)) = Some (''the control interface stopped: '' @ problem)"
| "stop_reason (ResolverJoined (EndedWith problem)) = Some (''the resolver failed: '' @ problem)"
| "stop_reason (ResolverJoined (Panicked problem)) = Some (''the resolver stopped: '' @ problem)"
| "stop_reason _ = None"

text \<open>The loop: the lines about the tunnel as they come, and the reason that ended it, if one did.\<close>

fun up_loop :: "up_event list \<Rightarrow> bool \<Rightarrow> line list \<times> string option" where
  "up_loop [] ready = ([], None)"
| "up_loop (ev # events) ready =
     (case stop_reason ev of
        Some reason \<Rightarrow> ([], Some reason)
      | None \<Rightarrow>
          let (said, ready) = (case ev of PhaseSaid p \<Rightarrow> announce p ready | _ \<Rightarrow> ([], ready));
              (rest, stopped) = up_loop events ready
          in (said @ rest, stopped))"

text \<open>From the reason on: the names are given back, and the reader is waited for; meanwhile the control interface's task
  has not been told of anything and goes on answering. \<open>reader_left\<close> says that the reader left in time; the adapter is
  closed only then, and is the system's to take down otherwise.\<close>

definition up_stops :: "('os, 'x, 'st, 'cl, 'r) machine \<Rightarrow> (u64 \<Rightarrow> 'os \<Rightarrow> 'os) \<Rightarrow> bool \<Rightarrow>
    (('os, 'cl, 'r) process \<Rightarrow> ('os, 'cl, 'r) process) \<Rightarrow> ('os, 'cl, 'r) process \<Rightarrow> ('os, 'cl, 'r) process \<times> 'os" where
  "up_stops mc close reader_left still_answered ps =
     (let ps = still_answered (ps\<lparr>ps_naming := snd (release (mc_registry mc) (ps_naming ps))\<rparr>) in
      (ps, if reader_left then close (co_luid (ps_core ps)) (co_table (ps_core ps)) else co_table (ps_core ps)))"

section \<open>Lemmas\<close>

lemma up_step_Inl: "up_step r down rest = (Inl e, os') \<Longrightarrow>
    (\<exists>os. os' = down os) \<or> (\<exists>x os. r = (Inr x, os) \<and> rest x os = (Inl e, os'))"
  by (auto simp: up_step_def split: prod.splits sum.splits)

lemma up_step_Inr: "up_step r down rest = (Inr y, os') \<longleftrightarrow> (\<exists>x os. r = (Inr x, os) \<and> rest x os = (Inr y, os'))"
  by (auto simp: up_step_def split: prod.splits sum.splits)

lemma adapter_up_closed: "adapter_up su opts wanted i now luid os = (Inl e, os') \<Longrightarrow> \<exists>os2. os' = wc_close (su_windows su) luid os2"
  unfolding adapter_up_def Let_def
  by (drule up_step_Inl | elim disjE exE conjE | blast | (auto split: prod.splits sum.splits dest!: up_step_Inl; fail))+


text \<open>Whether the bring-up had got as far as asking for the adapter.\<close>

fun before_adapter :: "('e, 'c) up_error \<Rightarrow> bool" where
  "before_adapter (BadTarget _) = True"
| "before_adapter (NoWintun _) = True"
| "before_adapter (NotLoaded _) = True"
| "before_adapter (NoDevice _) = True"
| "before_adapter _ = False"

lemma path_early: "wintun_path is_file beside asked = Inl e \<Longrightarrow> before_adapter e"
  by (auto simp: wintun_path_def split: option.splits if_splits)

section \<open>Properties\<close>

text \<open>A start that fails leaves nothing behind: before the adapter was asked for the system is as it was, when Windows
  would not create it the system is as that call left it, and from then on the last thing done is to close it.\<close>

theorem failed_start_undone:
  assumes "bring_up su opts now os = (Inl e, os')"
  shows "before_adapter e \<and> os' = os \<or> (\<exists>c. wc_create (su_windows su) os = (Inl c, os') \<and> e = NotCreated c) \<or>
    (\<exists>luid os1 os2. wc_create (su_windows su) os = (Inr luid, os1) \<and> os' = wc_close (su_windows su) luid os2)"
  using assms adapter_up_closed path_early
  by (fastforce simp: bring_up_def split: sum.splits option.splits prod.splits)


text \<open>Without an IPv6 address the core does not start, though neither reader of the device asks for one.\<close>

theorem no_ipv6_no_start:
  assumes "su_device su = Inr i" "su_parse_ip su (id_v6 i) = None"
  shows "fst (bring_up su opts now os) \<noteq> Inr core"
proof
  assume "fst (bring_up su opts now os) = Inr core"
  then obtain os' where start: "bring_up su opts now os = (Inr core, os')" by (metis prod.collapse)
  then show False using assms
    by (auto simp: bring_up_def adapter_up_def Let_def up_step_Inr parse_ip_def split: sum.splits option.splits prod.splits)
qed

text \<open>Names given back can be taken again by a request that is answered while the core is stopping: the process ends and
  its rule stays, pointing every name at a resolver that is gone until a later command sweeps it.\<close>

theorem claim_outlives_release:
  assumes "name_policy (mc_registry mc) rules" "takes_values (mc_registry mc) rules (\<lambda>_. True)"
    and "rv_listen (ps_resolver ps) = Some listen"
    and "up_stops mc close reader_left (\<lambda>ps. snd (names_request mc canary True ps)) ps = (ps', os')"
  shows "marked (rules (nm_policy (ps_naming ps')) RULE)"
proof -
  let ?nm = "snd (release (mc_registry mc) (ps_naming ps))"
  obtain r' where r': "rules r' = (rules (nm_policy ?nm))(RULE \<mapsto>
      (case rules (nm_policy ?nm) RULE of Some content \<Rightarrow> content | None \<Rightarrow> Map.empty) ++ map_of (rev (rule_values (mc_show_ip mc (fst listen)))))"
    "claim (mc_registry mc) (mc_show_ip mc (fst listen)) (nm_policy ?nm) = write_values (mc_registry mc) [] r'"
    using name_policy.claim_written[OF assms(1,2), of _ "rule_values (mc_show_ip mc (fst listen))" "[]"] by auto
  then have "nm_policy (ps_naming ps') = r'"
    using assms(3,4) by (auto simp: up_stops_def Let_def names_request_def take_over_begins_def split: prod.splits)
  then show ?thesis using r'(1) by (simp add: marked_def rule_values_def map_add_def)
qed

section \<open>A concrete system\<close>

text \<open>Rows as a set, no refusal, and an adapter whose closing takes every row with it.\<close>

definition sample_windows :: "(prefix set, unit) windows" where
  "sample_windows = \<lparr>wc_create = (\<lambda>os. (Inr 7, os)), wc_address = (\<lambda>_ _ _ os. (NO_ERROR, os)),
     wc_interface = (\<lambda>_ v4 _. Inr \<lparr>ir_family = v4, ir_mtu = 1500, ir_site_prefix = 64\<rparr>),
     wc_set_interface = (\<lambda>_ row os. (if ir_site_prefix row = 0 then NO_ERROR else 87, os)),
     wc_route = (\<lambda>_. open_create), wc_unroute = (\<lambda>_. open_delete), wc_session = (\<lambda>os. (True, os)),
     wc_event = (\<lambda>os. (True, os)), wc_end_session = id, wc_close = (\<lambda>_ _. {})\<rparr>"

definition sample_su :: "string option \<Rightarrow> (prefix set, unit, unit) surroundings" where
  "sample_su beside = \<lparr>su_windows = sample_windows,
     su_parse_ip = (\<lambda>w. if w = [] then None else if w = ''v6'' then Some (V6 1) else Some (V4 0x01010101)),
     su_is_file = (\<lambda>_. True), su_beside = beside, su_loads = (\<lambda>_. None), su_device = Inr (sample_identity\<lparr>id_v6 := ''v6''\<rparr>)\<rparr>"


theorem failed_start_undone_witness:
  "bring_up (sample_su None) default_options 0 {} = (Inl (NoWintun ''the running binary has no path''), {}) \<and>
   before_adapter (NoWintun ''the running binary has no path'' :: (unit, unit) up_error)"
proof -
  have "parse_targets (su_parse_ip (sample_su None)) (op_targets default_options) = Inr {(V4 0x01010101, 32)}" by code_simp
  then have b: "bring_up (sample_su None) default_options 0 {} = (Inl (NoWintun ''the running binary has no path''), {})"
    by (simp add: bring_up_def wintun_path_def sample_su_def default_options_def)
  from failed_start_undone[OF b] show ?thesis using b by simp
qed


end
