(* ===== verification/Pipe_Serve.thy ===== *)
theory Pipe_Serve
  imports Masqr_Prelude
begin

text \<open>
  The control pipe's instances, \<open>serve\<close> of \<open>src/control.rs\<close>: one waits, each caller takes the one that waited to a
  conversation of its own. What the system answers, whether the access list and an instance can be made, whether a
  connection came or failed, is in the events. Shown: while the interface is up one instance is always waiting, and
  it is up exactly until a call fails.
\<close>

record pipe_serving =
  pv_up :: bool
  pv_waiting :: nat
  pv_talking :: "nat list"
  pv_served :: nat

datatype pipe_event = CallerCame bool | ConnectFailed | CallerGone nat

text \<open>The first instance is the one that refuses to share the name.\<close>

definition pipe_start :: "bool \<Rightarrow> bool \<Rightarrow> pipe_serving option" where
  "pipe_start access first_made =
     (if \<not> access then None
      else if \<not> first_made then None
      else Some \<lparr>pv_up = True, pv_waiting = 1, pv_talking = [], pv_served = 0\<rparr>)"

definition pipe_stopped :: "pipe_serving \<Rightarrow> pipe_serving" where
  "pipe_stopped pv = pv\<lparr>pv_up := False, pv_waiting := 0\<rparr>"

text \<open>A caller is handed on only once the next instance is there; where it cannot be made both go.\<close>

fun pipe_step :: "pipe_event \<Rightarrow> pipe_serving \<Rightarrow> pipe_serving" where
  "pipe_step (CallerCame next_made) pv =
     (if \<not> pv_up pv then pv
      else if \<not> next_made then pipe_stopped pv
      else pv\<lparr>pv_talking := pv_talking pv @ [pv_served pv], pv_served := pv_served pv + 1\<rparr>)"
| "pipe_step ConnectFailed pv = pipe_stopped pv"
| "pipe_step (CallerGone n) pv = pv\<lparr>pv_talking := remove1 n (pv_talking pv)\<rparr>"

definition pipe_ok :: "pipe_serving \<Rightarrow> bool" where
  "pipe_ok pv \<longleftrightarrow> pv_waiting pv = (if pv_up pv then 1 else 0) \<and> distinct (pv_talking pv) \<and>
     list_all (\<lambda>n. n < pv_served pv) (pv_talking pv)"

lemma pipe_step_ok: "pipe_ok pv \<Longrightarrow> pipe_ok (pipe_step ev pv)"
proof (induction ev pv rule: pipe_step.induct)
  case (3 n pv)
  then show ?case using set_remove1_subset[of n "pv_talking pv"] by (auto simp: pipe_ok_def list_all_iff distinct_remove1)
qed (auto simp: pipe_ok_def pipe_stopped_def list_all_iff)

fun call_failed_in :: "pipe_event \<Rightarrow> bool" where
  "call_failed_in (CallerCame next_made) = (\<not> next_made)"
| "call_failed_in ConnectFailed = True"
| "call_failed_in (CallerGone _) = False"

lemma pipe_step_up: "pv_up (pipe_step ev pv) \<longleftrightarrow> pv_up pv \<and> \<not> call_failed_in ev"
  by (cases ev) (auto simp: pipe_stopped_def)

section \<open>Properties\<close>

text \<open>However callers come and go, the interface is up until a connection or the making of an instance fails and not
  after; while it is up exactly one instance waits for the next caller, each caller has a conversation of its own,
  and none is turned away because another is being answered.\<close>

theorem pipe_always_waiting:
  assumes "pipe_start access first_made = Some pv"
  shows "let pv' = fold pipe_step events pv in
    (pv_up pv' \<longleftrightarrow> \<not> list_ex call_failed_in events) \<and> pv_waiting pv' = (if pv_up pv' then 1 else 0) \<and>
    distinct (pv_talking pv') \<and> (pv_up pv' \<longrightarrow> pv_talking (pipe_step (CallerCame True) pv') = pv_talking pv' @ [pv_served pv'])"
proof -
  have pv: "pipe_ok pv" "pv_up pv" using assms by (auto simp: pipe_start_def pipe_ok_def split: if_splits)
  have "pipe_ok (fold pipe_step events pv)" using pv(1) by (induction events arbitrary: pv) (simp_all add: pipe_step_ok)
  moreover have "pv_up (fold pipe_step events pv) \<longleftrightarrow> pv_up pv \<and> \<not> list_ex call_failed_in events"
    by (induction events arbitrary: pv) (auto simp: pipe_step_up)
  ultimately show ?thesis using pv(2) by (simp add: pipe_ok_def Let_def)
qed

theorem pipe_always_waiting_witness:
  "let pv = fold pipe_step [CallerCame True, CallerCame True, CallerGone 0] \<lparr>pv_up = True, pv_waiting = 1, pv_talking = [], pv_served = 0\<rparr>
   in pv_up pv \<and> pv_waiting pv = 1 \<and> pv_talking pv = [1]"
proof -
  have s: "pipe_start True True = Some \<lparr>pv_up = True, pv_waiting = 1, pv_talking = [], pv_served = 0\<rparr>" by (simp add: pipe_start_def)
  show ?thesis using pipe_always_waiting[OF s, of "[CallerCame True, CallerCame True, CallerGone 0]"] by simp
qed

end
