(* ===== verification/Health.thy ===== *)
theory Health
  imports Quic
begin

text \<open>
  Asking a tunnel whether it still answers: \<open>Health::probe\<close> of \<open>src/transport/quic.rs\<close>, which waits for anything to
  arrive, and of \<open>src/transport/tcp.rs\<close>, which pings. What the connection shows each time it is looked at is the
  argument, with the time of the look; a probe that is still waiting has no result. Shown: only word that came after
  the question counts, and it is noticed within one look.
\<close>

definition KEEP_ALIVE :: duration where "KEEP_ALIVE = from_secs 2"
definition IDLE_TIMEOUT :: duration where "IDLE_TIMEOUT = from_secs 10"
definition PROBE_POLL :: duration where "PROBE_POLL = from_millis 50"

text \<open>A look: why the connection is closed if it is, what was recorded of the tunnel's end, the datagrams that have
  arrived, and the round trip.\<close>

record 'x look =
  lk_at :: instant
  lk_lost :: "'x option"
  lk_ended :: "ended option"
  lk_heard :: nat
  lk_rtt :: duration

fun quic_probe :: "nat \<Rightarrow> 'x look list \<Rightarrow> (instant \<times> (('x, 'st) connect_error, duration) outcome) option" where
  "quic_probe heard [] = None"
| "quic_probe heard (look # looks) =
     (case lk_lost look of
        Some lost \<Rightarrow> Some (lk_at look, Err (gone (lk_ended look) lost))
      | None \<Rightarrow>
          if heard < lk_heard look then Some (lk_at look, Ok (lk_rtt look))
          else quic_probe heard looks)"

text \<open>The ping: sent unless that fails, answered at a time unless that does.\<close>

definition h2_probe :: "instant \<Rightarrow> 'x option \<Rightarrow> ('x + instant) option \<Rightarrow> (('x, 'st) connect_error, duration) outcome option" where
  "h2_probe asked unsent pong =
     (case unsent of
        Some problem \<Rightarrow> Some (Err (H2Failed problem))
      | None \<Rightarrow>
          (case pong of
             None \<Rightarrow> None
           | Some (Inl problem) \<Rightarrow> Some (Err (H2Failed problem))
           | Some (Inr came) \<Rightarrow> Some (Ok (came - asked))))"

text \<open>Looks one sleep apart at most.\<close>

fun looks_spaced :: "'x look list \<Rightarrow> bool" where
  "looks_spaced (a # b # looks) = (lk_at a \<le> lk_at b \<and> lk_at b \<le> lk_at a + PROBE_POLL \<and> looks_spaced (b # looks))"
| "looks_spaced _ = True"

section \<open>Properties\<close>

lemma quic_probe_never_panics: "quic_probe heard looks \<noteq> Some (t, Panic)"
  by (induction looks) (auto split: option.splits)

text \<open>A tunnel is said to answer only for a datagram that arrived after the question; and one that arrives while the
  probe waits, on a connection that is not closed, is noticed no later than a look after it arrived.\<close>

lemma quic_probe_fresh:
  "(quic_probe heard looks :: (instant \<times> (('x, 'st) connect_error, duration) outcome) option) = Some (t, Ok rtt) \<Longrightarrow>
   \<exists>look\<in>set looks. lk_at look = t \<and> heard < lk_heard look \<and> lk_lost look = None"
  by (induction looks) (auto split: option.splits if_splits)

theorem quic_probe_hears:
  fixes looks :: "'x look list"
  assumes "looks \<noteq> []" "looks_spaced looks" "lk_at (hd looks) \<le> arrived" "arrived \<le> lk_at (List.last looks)"
    and "\<And>look. look \<in> set looks \<Longrightarrow> lk_lost look = None \<and> (heard < lk_heard look \<longleftrightarrow> arrived \<le> lk_at look)"
  shows "\<exists>t rtt. (quic_probe heard looks :: (instant \<times> (('x, 'st) connect_error, duration) outcome) option) = Some (t, Ok rtt) \<and>
    arrived \<le> t \<and> t \<le> arrived + PROBE_POLL"
  using assms
proof (induction looks rule: looks_spaced.induct)
  case (1 a b looks)
  have la: "lk_lost a = None" "heard < lk_heard a \<longleftrightarrow> arrived \<le> lk_at a"
    and lb: "lk_lost b = None" "heard < lk_heard b \<longleftrightarrow> arrived \<le> lk_at b" using 1(6)[of a] 1(6)[of b] by simp_all
  show ?case
  proof (cases "arrived \<le> lk_at a")
    case True
    then show ?thesis using 1(4) by (simp add: la)
  next
    case before: False
    show ?thesis
    proof (cases "arrived \<le> lk_at b")
      case True
      then show ?thesis using before 1(3) by (simp add: la lb)
    next
      case False
      have "\<exists>t rtt. (quic_probe heard (b # looks) :: (instant \<times> (('x, 'st) connect_error, duration) outcome) option) = Some (t, Ok rtt) \<and>
        arrived \<le> t \<and> t \<le> arrived + PROBE_POLL"
        by (rule 1(1)) (use 1 False in auto)
      then show ?thesis using before by (simp add: la)
    qed
  qed
qed auto

text \<open>Keeping alive is enough: with a datagram at the latest a keepalive and a round trip after the question, the
  answer comes before the engine's five seconds as long as the round trip is below 2.95.\<close>

lemma keep_alive_in_time: "round_trip < from_millis 2950 \<Longrightarrow> KEEP_ALIVE + round_trip + PROBE_POLL < from_secs 5"
  by (simp add: KEEP_ALIVE_def PROBE_POLL_def from_secs_def from_millis_def)

theorem quic_probe_hears_witness:
  "\<exists>t rtt. (quic_probe 3 [\<lparr>lk_at = 0, lk_lost = None, lk_ended = None, lk_heard = 3, lk_rtt = 5\<rparr>,
      \<lparr>lk_at = 50000000, lk_lost = None, lk_ended = None, lk_heard = 4, lk_rtt = 6\<rparr>]
      :: (instant \<times> ((unit, unit) connect_error, duration) outcome) option) = Some (t, Ok rtt) \<and> 20 \<le> t \<and> t \<le> 20 + PROBE_POLL"
  by (rule quic_probe_hears) (auto simp: PROBE_POLL_def from_millis_def)

end
