(* ===== verification/Tunnel_Attempt.thy ===== *)
theory Tunnel_Attempt
  imports Opening H2_Tunnel Health
begin

text \<open>
  The tunnel as one thing over two carriers, \<open>src/transport/connect_ip.rs\<close>: \<open>connect\<close> over the carriers' own
  openings, which \<open>Opening\<close> models, inside the limit \<open>run\<close> of \<open>src/engine.rs\<close> puts on it; and \<open>send\<close>, \<open>recv\<close> and
  \<open>probe\<close>, which go to the carrier the tunnel rides. Shown: this is the opening the engine's model is written over;
  an attempt is over when the limit says, and leaves HTTP/2 its time after HTTP/3 failed; and it makes no
  difference to the packets which of the two carries them.
\<close>

section \<open>Opening over the carriers\<close>

text \<open>What opening a tunnel depends on outside the process's own choices: the texts of the identity's two endpoints,
  the library's readers, and what each call of either opening came to.\<close>

record ('x, 'st) network =
  nw_from_bytes :: "bytes \<Rightarrow> 'st option"
  nw_interim :: "'st \<Rightarrow> bool"
  nw_success :: "'st \<Rightarrow> bool"
  nw_parse_ip :: "string \<Rightarrow> ip_addr option"
  nw_h3_endpoint :: string
  nw_h2_endpoint :: string
  nw_h3 :: "'x h3_run"
  nw_h2 :: "('x, 'st) h2_run"

definition opens_h3 :: "('x, 'st) network \<Rightarrow> handshake_choice \<Rightarrow> carrier_state \<Rightarrow> instant \<Rightarrow>
    (('x, 'st) connect_error, stages) outcome timed" where
  "opens_h3 nw hs cs now =
     (case connect_h3 (nw_from_bytes nw) (nw_interim nw) (nw_success nw) (nw_parse_ip nw) (nw_h3_endpoint nw) hs
         (largest_packet cs) now (nw_h3 nw) of
        None \<Rightarrow> None
      | Some (Ok (stages, _), _, t) \<Rightarrow> Some (Ok stages, t)
      | Some (Err problem, _, t) \<Rightarrow> Some (Err problem, t)
      | Some (Panic, _, t) \<Rightarrow> Some (Panic, t))"

definition opens_h2 :: "('x, 'st) network \<Rightarrow> handshake_choice \<Rightarrow> instant \<Rightarrow> (('x, 'st) connect_error, stages) outcome timed" where
  "opens_h2 nw hs now = connect_h2 (nw_success nw) (nw_parse_ip nw) (nw_h2_endpoint nw) hs now (nw_h2 nw)"

text \<open>One attempt: its result, once there is one, and when HTTP/3 was parked, if it was.\<close>

definition tunnel_attempt :: "('x, 'st) network \<Rightarrow> handshake_choice \<Rightarrow> instant \<Rightarrow> carrier_state \<Rightarrow>
    (('x, 'st) connect_error, stages) outcome timed \<times> instant option" where
  "tunnel_attempt nw hs now cs =
     (case plan (carrier_selected cs) (handshake_selected hs) (parked now cs) of
        Only H2 \<Rightarrow> (opens_h2 nw hs now, None)
      | Only H3 \<Rightarrow> (opens_h3 nw hs cs now, None)
      | H3ThenH2 \<Rightarrow>
         (case opens_h3 nw hs cs now of
            Some (Err problem, t) \<Rightarrow> (opens_h2 nw hs t, Some t)
          | opened \<Rightarrow> (opened, None)))"

text \<open>The attempt inside the engine's limit. What the limit cuts off has not happened: parking that lay beyond it,
  and all of HTTP/2 after it.\<close>

definition attempt_within :: "('x, 'st) network \<Rightarrow> handshake_choice \<Rightarrow> instant \<Rightarrow> carrier_state \<Rightarrow>
    ((('x, 'st) connect_error, stages) outcome option \<times> instant) \<times> carrier_state" where
  "attempt_within nw hs now cs =
     (case tunnel_attempt nw hs now cs of
        (result, None) \<Rightarrow> (within CONNECT_TIMEOUT now result, cs)
      | (result, Some t) \<Rightarrow>
          if t \<le> now + CONNECT_TIMEOUT then (within CONNECT_TIMEOUT now result, park t cs)
          else ((None, now + CONNECT_TIMEOUT), cs))"

section \<open>Carrying\<close>

text \<open>The two halves and the health, with what each carrier keeps and is answered.\<close>

datatype 'x tunnel_sender =
    SenderH2 "bytes \<Rightarrow> 'x option" nat "'x capacity_poll list" bytes
  | SenderH3 u64 "'x send_answer list"

datatype 'x tunnel_receiver =
    ReceiverH2 bytes "'x body_event list"
  | ReceiverH3 u64 "'x recv_event list"

datatype 'x tunnel_health =
    HealthH2 instant "'x option" "('x + instant) option"
  | HealthH3 nat "'x look list"

text \<open>What is handed to the carrier, and the result once there is one; every send leaves the staging buffer empty.\<close>

fun tunnel_send :: "'x tunnel_sender \<Rightarrow> bytes list \<Rightarrow> bytes list \<times> (('x, 'st) connect_error, unit) outcome option" where
  "tunnel_send (SenderH2 accept capacity polls staging) packets =
     (case h2_send accept capacity polls staging packets of (_, frames, r) \<Rightarrow> (frames, r))"
| "tunnel_send (SenderH3 stream_id answers) packets = quic_send stream_id packets answers"

fun tunnel_recv :: "'x tunnel_receiver \<Rightarrow> 'x tunnel_receiver \<times> (('x, 'st) connect_error, bytes option) outcome option" where
  "tunnel_recv (ReceiverH2 pending inbound) =
     (case h2_recv pending inbound of (pending, inbound, r) \<Rightarrow> (ReceiverH2 pending inbound, r))"
| "tunnel_recv (ReceiverH3 stream_id events) =
     (case quic_recv stream_id events of (events, r) \<Rightarrow> (ReceiverH3 stream_id events, r))"

fun tunnel_probe :: "'x tunnel_health \<Rightarrow> (('x, 'st) connect_error, duration) outcome option" where
  "tunnel_probe (HealthH2 asked unsent pong) = h2_probe asked unsent pong"
| "tunnel_probe (HealthH3 heard looks) = map_option snd (quic_probe heard looks)"

text \<open>Receiving until nothing more comes: the packets and what the last call came to.\<close>

fun tunnel_drain :: "'x tunnel_receiver \<Rightarrow> bytes list \<times> (('x, 'st) connect_error, bytes option) outcome option" where
  "tunnel_drain (ReceiverH2 pending inbound) = (case h2_receive_all pending inbound of (packets, _, r) \<Rightarrow> (packets, r))"
| "tunnel_drain (ReceiverH3 stream_id events) = quic_receive_all stream_id events"

lemma tunnel_drain_recv:
  "tunnel_drain receiver =
     (case tunnel_recv receiver of
        (receiver, Some (Ok (Some packet))) \<Rightarrow>
          (case tunnel_drain receiver of (packets, r) \<Rightarrow> (packet # packets, r))
      | (_, r) \<Rightarrow> ([], r))"
proof (cases receiver)
  case (ReceiverH2 pending inbound)
  then show ?thesis
    by (simp only: tunnel_drain.simps tunnel_recv.simps, subst h2_receive_all.simps)
      (auto split: prod.splits option.splits outcome.splits)
next
  case (ReceiverH3 stream_id events)
  then show ?thesis
    by (simp only: tunnel_drain.simps tunnel_recv.simps, subst quic_receive_all.simps)
      (auto split: prod.splits option.splits outcome.splits)
qed

text \<open>A link that loses nothing between the two ends: HTTP/2's frames arrive as one stream of bytes cut anywhere,
  QUIC's datagrams one by one, of the same request.\<close>

fun linked :: "'x tunnel_sender \<Rightarrow> bytes list \<Rightarrow> 'x tunnel_receiver \<Rightarrow> bool" where
  "linked (SenderH2 _ _ _ staging) frames (ReceiverH2 pending inbound) =
     (staging = [] \<and> pending = [] \<and> concat (map (\<lambda>ev. case ev of Data c None \<Rightarrow> c | _ \<Rightarrow> []) inbound) = concat frames \<and>
      list_all (\<lambda>ev. case ev of Data _ None \<Rightarrow> True | _ \<Rightarrow> False) inbound)"
| "linked (SenderH3 stream_id _) frames (ReceiverH3 stream_id' events) =
     (stream_id' = stream_id \<and> events = map Datagram frames)"
| "linked _ _ _ = False"

section \<open>Lemmas\<close>

lemma response_status_no_panic: "response_status from_bytes interim f \<noteq> Panic"
  unfolding response_status_def Let_def
  by (auto simp: and_then_eq_Panic qpack_decode_no_panic ok_or_not_Panic split: if_splits prod.splits)

lemma response_frames_no_panic: "response_frames from_bytes interim reader \<noteq> Panic"
proof (induction from_bytes interim reader rule: response_frames.induct)
  case (1 from_bytes interim reader)
  then show ?case
    by (subst response_frames.simps)
      (auto simp: and_then_eq_Panic next_frame_no_panic response_status_no_panic split: option.splits)
qed

lemma read_response_no_panic: "read_response from_bytes interim reader reads \<noteq> Some Panic"
proof (induction reads arbitrary: reader)
  case Nil
  then show ?case using response_frames_no_panic[of from_bytes interim reader]
    by (auto simp: read_response.simps[of _ _ reader] split: outcome.splits option.splits)
next
  case (Cons r reads)
  then show ?case using response_frames_no_panic[of from_bytes interim reader]
    by (cases r) (auto simp: read_response.simps[of _ _ reader] split: outcome.splits option.splits)
qed

lemma awaited_Panic:
  "awaited answered wrap rest = Some (Panic, t) \<longleftrightarrow> (\<exists>a t'. answered = Some (Inr a, t') \<and> rest a t' = Some (Panic, t))"
  by (auto simp: awaited_def split: option.splits sum.splits)

lemma h3_exchange_no_panic: "h3_exchange from_bytes interim run \<noteq> Some (Panic, t)"
  unfolding h3_exchange_def
  by (auto simp: awaited_Panic read_response_no_panic split: if_splits option.splits outcome.splits)

lemma connect_h3_no_panic:
  "connect_h3 from_bytes interim success parse_ip written shape largest start run \<noteq> Some (Panic, closes, t)"
proof
  assume "connect_h3 from_bytes interim success parse_ip written shape largest start run = Some (Panic, closes, t)"
  from handshaken[OF this] obtain t1 where
    "after_handshake from_bytes interim success shape largest (t1 - start) t1 run = Some (Panic, closes, t)" by auto
  then show False
    by (auto simp: after_handshake_def Let_def h3_exchange_no_panic split: prod.splits option.splits outcome.splits if_splits
        dest!: within_Some)
qed

lemma opens_h3_no_panic: "opens_h3 nw hs cs now \<noteq> Some (Panic, t)"
  by (auto simp: opens_h3_def connect_h3_no_panic split: option.splits outcome.splits prod.splits)

lemma opens_h2_no_panic: "opens_h2 nw hs now \<noteq> Some (Panic, t)"
  unfolding opens_h2_def connect_h2_def
  by (auto simp: awaited_Panic split: sum.splits option.splits if_splits)


lemma linked_h2:
  assumes "linked (SenderH2 accept capacity polls staging) frames receiver"
  obtains cs where "receiver = ReceiverH2 [] (map (\<lambda>c. Data c None) cs)" "concat cs = concat frames" "staging = []"
proof -
  obtain inbound where i: "receiver = ReceiverH2 [] inbound" "staging = []"
    "concat (map (\<lambda>ev. case ev of Data c None \<Rightarrow> c | _ \<Rightarrow> []) inbound) = concat frames"
    "list_all (\<lambda>ev. case ev of Data _ None \<Rightarrow> True | _ \<Rightarrow> False) inbound"
    using assms by (cases receiver) auto
  have "inbound = map (\<lambda>c. Data c None) (map (\<lambda>ev. case ev of Data c None \<Rightarrow> c | _ \<Rightarrow> []) inbound)"
    using i(4) by (induction inbound) (auto split: body_event.splits option.splits)
  then show ?thesis using that[of "map (\<lambda>ev. case ev of Data c None \<Rightarrow> c | _ \<Rightarrow> []) inbound"] i by metis
qed

section \<open>Properties\<close>

text \<open>What the engine sees of an attempt, in the terms its own model takes an opening in.\<close>

definition result_seen :: "(('x, 'st) connect_error, stages) outcome timed \<Rightarrow> ('x, 'st) connect_error + stages" where
  "result_seen result = (case result of Some (Ok stages, _) \<Rightarrow> Inr stages | Some (Err problem, _) \<Rightarrow> Inl problem | _ \<Rightarrow> Inl Closed)"

definition opening_seen :: "('x, 'st) network \<Rightarrow> handshake_choice \<Rightarrow> instant \<Rightarrow> carrier_state \<Rightarrow> ('x, 'st) opening_result" where
  "opening_seen nw hs now cs =
     (case attempt_within nw hs now cs of
        ((None, _), _) \<Rightarrow>
          GaveUp (case snd (tunnel_attempt nw hs now cs) of
                    Some t \<Rightarrow> if t \<le> now + CONNECT_TIMEOUT then Some t else None
                  | None \<Rightarrow> None)
      | ((Some _, _), _) \<Rightarrow>
          (case snd (tunnel_attempt nw hs now cs) of
             None \<Rightarrow> Attempt (\<lambda>c. case c of H3 \<Rightarrow> result_seen (opens_h3 nw hs cs now) | H2 \<Rightarrow> result_seen (opens_h2 nw hs now)) now
           | Some t \<Rightarrow> Attempt (\<lambda>c. case c of H3 \<Rightarrow> result_seen (opens_h3 nw hs cs now) | H2 \<Rightarrow> result_seen (opens_h2 nw hs t)) t))"

lemma attempt_no_panic: "fst (tunnel_attempt nw hs now cs) \<noteq> Some (Panic, t)"
  by (auto simp: tunnel_attempt_def opens_h3_no_panic opens_h2_no_panic split: plan.splits carrier.splits option.splits outcome.splits)

text \<open>The stages of both carriers implement the opening the engine's model is written over: with what it sees of an
  attempt it comes to the result the attempt came to, and to the same parking; and an attempt never panics.\<close>

theorem attempt_implements_opening:
  "\<exists>t. attempt_within nw hs now cs =
     ((case fst (open_tunnel hs now (opening_seen nw hs now cs) cs) of
         None \<Rightarrow> None
       | Some (Inr stages) \<Rightarrow> Some (Ok stages)
       | Some (Inl problem) \<Rightarrow> Some (Err problem), t),
      snd (open_tunnel hs now (opening_seen nw hs now cs) cs))"
proof (cases "plan (carrier_selected cs) (handshake_selected hs) (parked now cs)")
  case (Only c)
  then show ?thesis
    by (cases c; cases "fst (within CONNECT_TIMEOUT now (fst (tunnel_attempt nw hs now cs)))")
      (auto simp: attempt_within_def tunnel_attempt_def opening_seen_def open_tunnel_def connect_def result_seen_def
        opens_h3_no_panic opens_h2_no_panic split: prod.splits outcome.splits dest!: within_Some)
next
  case H3ThenH2
  note tried = H3ThenH2 http3_would_be_tried_def
  show ?thesis
  proof (cases "\<exists>problem t. opens_h3 nw hs cs now = Some (Err problem, t)")
    case True
    then obtain problem t where h3: "opens_h3 nw hs cs now = Some (Err problem, t)" by blast
    show ?thesis using h3
      by (cases "fst (within CONNECT_TIMEOUT now (opens_h2 nw hs t))")
        (auto simp: tried attempt_within_def tunnel_attempt_def opening_seen_def open_tunnel_def connect_def result_seen_def
          opens_h3_no_panic opens_h2_no_panic split: prod.splits outcome.splits dest!: within_Some)
  next
    case False
    then have a: "tunnel_attempt nw hs now cs = (opens_h3 nw hs cs now, None)"
      by (auto simp: tunnel_attempt_def H3ThenH2 split: option.splits outcome.splits)
    show ?thesis using False
      by (cases "fst (within CONNECT_TIMEOUT now (opens_h3 nw hs cs now))")
        (auto simp: tried a attempt_within_def opening_seen_def open_tunnel_def connect_def result_seen_def
          opens_h3_no_panic opens_h2_no_panic split: prod.splits outcome.splits dest!: within_Some)
  qed
qed


text \<open>C23. Which carrier a tunnel rides makes no difference to the packets: a run sent without an error over either of
  them arrives, over a link that loses nothing, as the same packets in the same order: those a router would
  forward, each with its hop limit lowered, and nothing after them.\<close>

theorem carriers_carry_alike:
  fixes sender :: "'x tunnel_sender"
  assumes "\<forall>p\<in>set packets. length p \<le> 65535"
    and "tunnel_send sender packets = (frames, Some (Ok ()) :: (('x, 'st) connect_error, unit) outcome option)"
    and "linked sender frames receiver"
  shows "tunnel_drain receiver = (forwarded packets, None :: (('x, 'st) connect_error, bytes option) outcome option)"
proof (cases sender)
  case (SenderH2 accept capacity polls staging)
  obtain cs where c: "receiver = ReceiverH2 [] (map (\<lambda>c. Data c None) cs)" "concat cs = concat frames" "staging = []"
    using linked_h2 assms(3)[unfolded SenderH2] by blast
  obtain staging' where "h2_send accept capacity polls [] packets =
      (staging', frames, Some (Ok ()) :: (('x, 'st) connect_error, unit) outcome option)"
    using assms(2) c(3) by (auto simp: SenderH2 split: prod.splits)
  then have "concat frames = concat (map encode_datagram (forwarded packets))" using h2_send_cases[OF _ refl] by fastforce
  then have "h2_receive_all [] (map (\<lambda>c. Data c None) cs :: 'x body_event list) =
      (forwarded packets, [], None :: (('x, 'st) connect_error, bytes option) outcome option)"
    using h2_receive_all_framed[OF forwarded_length[OF assms(1)], of "[]" cs] c(2) by simp
  then show ?thesis using c(1) by simp
next
  case (SenderH3 stream_id answers)
  then have r: "receiver = ReceiverH3 stream_id (map Datagram frames)" using assms(3) by (cases receiver) auto
  have "quic_send stream_id packets answers = (frames, Some (Ok ()) :: (('x, 'st) connect_error, unit) outcome option)"
    using assms(2) SenderH3 by simp
  then have "frames = map (datagram stream_id) (forwarded packets)" using quic_send_shape by blast
  then show ?thesis using quic_receive_all_datagrams by (simp add: r del: map_map)
qed

section \<open>Runs\<close>



theorem carriers_carry_alike_witness:
  "tunnel_drain (ReceiverH2 [] [Data [0, 40, 0x60, 0, 0, 0, 0, 0, 0] None, Data (63 # replicate 32 0) None]) =
     ([0x60 # replicate 6 0 @ 63 # replicate 32 0], None :: ((unit, unit) connect_error, bytes option) outcome option) \<and>
   tunnel_drain (ReceiverH3 4 [Datagram (datagram 4 (0x60 # replicate 6 0 @ 63 # replicate 32 0))]) =
     ([0x60 # replicate 6 0 @ 63 # replicate 32 0], None :: ((unit, unit) connect_error, bytes option) outcome option)"
proof -
  define p :: bytes where "p = 0x60 # replicate 6 0 @ 64 # replicate 32 0"
  define q :: bytes where "q = 0x60 # replicate 6 0 @ 63 # replicate 32 0"
  have f: "forwarded [p] = [q]" unfolding p_def q_def by code_simp
  have e: "encode_datagram q = [0, 40] @ q" unfolding q_def by code_simp
  have l: "\<forall>p'\<in>set [p]. length p' \<le> 65535" by (simp add: p_def)
  have h2: "tunnel_send (SenderH2 (\<lambda>_. None :: unit option) 10 [Room 50] []) [p] =
      ([encode_datagram q], Some (Ok () :: ((unit, unit) connect_error, unit) outcome))"
    by (simp add: h2_send_def h2_stage_eq f e Let_def) (simp add: q_def)
  have h3: "tunnel_send (SenderH3 4 [send_answer.Sent :: unit send_answer]) [p] =
      ([datagram 4 q], Some (Ok () :: ((unit, unit) connect_error, unit) outcome))"
    unfolding p_def q_def by code_simp
  have j2: "linked (SenderH2 (\<lambda>_. None :: unit option) 10 [Room 50] []) [encode_datagram q]
      (ReceiverH2 [] [Data [0, 40, 0x60, 0, 0, 0, 0, 0, 0] None, Data (63 # replicate 32 0) None])"
    unfolding e by (simp add: q_def numeral_eq_Suc)
  have j3: "linked (SenderH3 4 [send_answer.Sent :: unit send_answer]) [datagram 4 q] (ReceiverH3 4 [Datagram (datagram 4 q)])" by simp
  from carriers_carry_alike[OF l h2 j2] carriers_carry_alike[OF l h3 j3] show ?thesis unfolding f q_def[symmetric] by simp
qed

end
