(* ===== verification/Spec2Isabelle.thy ===== *)
theory Spec2Isabelle
  imports Hop_Limit Http3 H2_Tunnel Quic Dns_Message Dns_Policy Queue_Properties Dns_System Dns_Serve Engine_Correct
    Diagnose_Runs Tun_Session Opening Startup Registration Link Bring_Up
    Pipe_Serve Health Name_Registry Tunnel_Attempt
begin

text \<open>
  A verification development for masqr, a tunnel core for Windows: packets read from a virtual adapter
  are carried to a MASQUE endpoint over HTTP/3 or HTTP/2, which packets those are is decided by the
  system's routing table, and the routing table follows what the application asks for and what the
  core's own resolver learns. Paths below are those of the crate, \<open>src/\<close>.

  \<^bold>\<open>Conventions\<close> (\<open>Masqr_Prelude\<close>). A byte string is a list of 8-bit words; a fixed-width integer is
  a word, a \<open>usize\<close> and a count of packets or bytes a natural number. Times and durations are natural
  numbers of nanoseconds. A function that can fail returns an \<open>outcome\<close>: \<open>Ok\<close>, \<open>Err\<close>, or \<open>Panic\<close>
  for an index, slice, subtraction or \<open>expect\<close> that would stop the program; every such place of the
  source is a branch of the model, so that safety is a theorem. State is passed and returned. Loops are
  structural recursion or \<open>function\<close> with a measure; the one that could run for ever (\<open>make_room\<close>) is
  a \<open>partial_function\<close> and is proved to end on every reachable queue. No fuel is used anywhere.

  \<^bold>\<open>The wire.\<close> \<open>Varint\<close> (\<open>transport/varint.rs\<close>); \<open>Incremental\<close>, the reading of a stream in chunks,
  shared by \<open>Capsule\<close> (\<open>transport/capsule.rs\<close>) and \<open>Http3\<close> (\<open>transport/http3.rs\<close>: frames, SETTINGS, the
  control stream, datagrams); \<open>Huffman\<close> and \<open>Qpack\<close> (\<open>transport/huffman.rs\<close>, \<open>transport/qpack.rs\<close>);
  \<open>Checksum\<close> (\<open>ip.rs\<close>) and \<open>Hop_Limit\<close> (\<open>transport/connect_ip.rs\<close>). Shown: what is written is read back
  however the stream is cut, readers hold a bounded amount and never index out of range, the table
  driven decoders accept exactly the code they are the tables of, a forwarded packet differs in its hop
  limit and checksum alone.

  \<^bold>\<open>The tunnel.\<close> \<open>Handshake\<close> (\<open>transport/handshake.rs\<close>: the shape of the handshake and the writer that
  cuts it), \<open>Carrier\<close> (\<open>transport/carrier.rs\<close>) with \<open>Connect_Ip\<close> (\<open>transport/connect_ip.rs\<close>),
  \<open>H2_Tunnel\<close> and \<open>Quic\<close> (the packet paths of \<open>transport/tcp.rs\<close> and \<open>transport/quic.rs\<close>). The libraries
  h2 and quinn are parameters: lists of what their calls answered. Shown: both paths hand over exactly
  the packets that were sent, the peer's streams keep their invariant in every interleaving, cutting
  the handshake changes no byte, a failed carrier costs its timeout once. \<open>Opening\<close> is \<open>connect\<close> of both carriers,
  stage by stage; shown: a tunnel handed over fits the adapter's packets, an attempt over HTTP/3 is over in
  time for HTTP/2, what is reported as blocked is silence after a connection. \<open>Health\<close> is the question whether a tunnel
  still answers; shown: only word that came after it counts, and is noticed within one look. \<open>Tunnel_Attempt\<close> puts
  the carriers together as \<open>connect_ip.rs\<close> does, inside the engine's limit; shown: it implements the opening the
  engine's model is written over, HTTP/2 gets its turn after a failure of HTTP/3, and the packets that arrive are
  the same over either carrier.

  \<^bold>\<open>The queue.\<close> \<open>Packet_Class\<close> and \<open>Packet_Queue\<close> (\<open>queue.rs\<close>: fair queueing with CoDel), with its
  lemmas in \<open>Queue_Correct\<close>, \<open>Queue_Arrival\<close>, \<open>Queue_Service\<close> and its theorems in \<open>Queue_Properties\<close>.
  An operation is one step under the queue's lock; waiting is the result that nothing is there yet.
  The reachable queues are an inductive predicate. Shown over all of them: the counters are those of
  the contents, no operation panics or loops, no packet is lost uncounted, flows keep their order and
  are never starved.

  \<^bold>\<open>Routing.\<close> \<open>Routes\<close> (\<open>tun/mod.rs\<close>), \<open>Line_Source\<close> (\<open>tun/outside.rs\<close>) and \<open>Core_State\<close>
  (\<open>core.rs\<close>). The system's forwarding table is a parameter with the documented behaviour of IP Helper
  as the locale \<open>forward_table\<close>, of which the adapter's two operations give the locale \<open>route_table\<close> of
  the code's trait; both are interpreted on tables that refuse rows and that refuse none. Shown:
  the set of installed routes is the set of rows, whatever is refused; what is installed is the union
  of what was asked for and what is leased.

  \<open>Tun_Session\<close> (\<open>tun/mod.rs\<close> with the shutdown of \<open>main.rs\<close>) is the adapter's session: its reader's thread,
  its writer and its end, as a step relation. Shown: the driver is never misused in any order of steps, a
  reader that was asked to stop leaves once its ring stays empty and not before, the wait for the
  adapter's name ends.

  \<^bold>\<open>Names.\<close> \<open>Dns_Message\<close>, \<open>Dns_Policy\<close>, \<open>Dns_Lease\<close>, \<open>Dns_Upstream\<close>, \<open>Dns_Asker\<close> and
  \<open>Dns_Server\<close> (\<open>dns/\<close>), the last against the locale \<open>route_sink\<close> for what owns the routes;
  \<open>Dns_System\<close> interprets it on the core and runs the two together, \<open>Dns_Serve\<close> is the listeners with their
  tasks and permits. Shown: the readers of messages
  are total and exact, the indexed policy decides as the list of rules does, leases are bounded and
  held until their time, an answer belongs to its query, leased addresses are routed, the
  work in flight is bounded and the loops run until an accept fails.

  \<^bold>\<open>The engine.\<close> \<open>Enrolment\<close> (\<open>warp/enrolment.rs\<close>: the device and its replacement), \<open>Engine\<close> (\<open>engine.rs\<close>:
  the pump as a sequence of events of its futures, \<open>run\<close> as turns of one tunnel each) and
  \<open>Engine_Correct\<close>. Shown: a turn never panics and leaves the queue well formed, a tunnel that is
  replaced moves no route, the schedule and the phase a supervisor reads, what carried traffic renews,
  when a silent tunnel is found out, when HTTP/3 is stepped down from.

  \<^bold>\<open>The device.\<close> \<open>Registration\<close> (\<open>warp/api.rs\<close>, \<open>warp/keys.rs\<close>, \<open>warp/identity.rs\<close>, \<open>transport/tls.rs\<close>): the two
  calls that make a device, its file, the certificate a session presents and the key it accepts, with the
  service and the libraries of keys and certificates as parameters. Shown: what was enrolled is what is
  presented, nothing but the enrolled endpoint's key is accepted, the file is read back as written, what a
  failure half-way leaves. \<open>Link\<close> (\<open>link.rs\<close>): the system's notifications on the core. Shown: the line moves once for
  every change of another interface and never for the core's own.

  \<^bold>\<open>What is said and asked.\<close> \<open>Probe\<close> (\<open>probe.rs\<close>: whether the tunnel carries IPv6), \<open>Diagnose\<close>
  (\<open>diagnose/packets.rs\<close>: the packets of the checks), \<open>Diagnose_Runs\<close> (\<open>diagnose/handshake.rs\<close> and
  \<open>diagnose/probe.rs\<close>: the checks themselves, over what a tunnel's calls come back with), \<open>Names\<close> (\<open>names.rs\<close>: the rule that points the
  machine's names at the resolver, against the locale \<open>name_policy\<close> for the registry) and \<open>Control\<close>
  (\<open>control.rs\<close> with the levels of \<open>log.rs\<close>: every request on the core, the resolver and the names, and
  its reply); \<open>Pipe_Serve\<close> is the pipe's instances, \<open>Name_Registry\<close> the bytes the rule is made of. Shown: the probes' packets verify and nothing else counts as an answer, a row
  of the handshake table is measured as it is named and said to carry only after all its rounds, the
  readiness check resolves exactly when an answer came, a text of the registry is read back as written, an
  instance of the pipe always waits while the interface is up, a takeover is
  proved unless another supersedes it, what a failed claim leaves behind, every request gets a reply of
  the documented shape, a refusal moves nothing that the theorem does not name. \<open>Startup\<close> (\<open>main.rs\<close>) is the
  command line, the sweep it begins with and the lines about the tunnel; shown: an accepted command line
  is consistent and is read back as written, every command but \<open>version\<close> sweeps, readiness is said once.
  \<open>Bring_Up\<close> (\<open>cmd_up\<close> of \<open>main.rs\<close>, with the adapter's calls of \<open>tun/mod.rs\<close>) is \<open>up\<close> from its first step to its
  last. Shown: a start that fails leaves nothing but a closed adapter, one that succeeds routes the IPv4 targets
  behind both addresses, what a request answered at the very end can leave.

  \<^bold>\<open>Not modelled.\<close> Sockets, the TLS and HTTP libraries, the Wintun driver, the encodings of keys and
  certificates, the pipe and its access list, the writing of the journal and of
  the lines of counters: they are calls of libraries and of the system. The clock is an argument. Locks are taken for the length of an
  operation, so an operation is one step; where the code releases one inside an operation (the lookup
  of a line address) the model has the uncontended order. The floating point quotient of CoDel's
  control law is the rational one rounded to the nanosecond.
\<close>

end
